(* ===== verification/Prelude.thy ===== *)
theory Prelude
  imports Main "HOL-Library.Word" "HOL-Library.Signed_Division" "HOL-Library.While_Combinator"
begin

text \<open>
  Shared vocabulary of the development: C values and arrays, decimal printing and the
  collections the component proofs rewrite with.

  \<^item> \<open>cint\<close> is C's 32-bit \<open>int\<close>; \<open>+\<close>, \<open>-\<close> and \<open>*\<close> wrap around as the compiled code
    does, \<open>c_div\<close> is C's \<open>/\<close> with its undefined cases (divisor 0, \<open>INT_MIN / -1\<close>) as
    \<open>None\<close>.
  \<^item> A C array is a list; \<open>rd\<close> and \<open>wr\<close> are an indexed read and write whose index may
    be any integer. Outside the array they are \<open>None\<close>, so a program that indexes out of
    bounds is a program whose model stops in a fault, never one that reads a made-up value.
  \<^item> \<open>dec_int\<close> is what \<open>printf("%d")\<close> and \<open>printf("%i")\<close> print.
\<close>

named_theorems table_simps \<open>evaluated entries of the generated tables\<close>
named_theorems step_simps \<open>one step of a label-by-label machine\<close>

type_synonym cint = "32 word"

section \<open>Arrays\<close>

definition rd :: "'a list \<Rightarrow> int \<Rightarrow> 'a option" where
  "rd xs i = (if 0 \<le> i \<and> i < int (length xs) then Some (xs ! nat i) else None)"

definition wr :: "'a list \<Rightarrow> int \<Rightarrow> 'a \<Rightarrow> 'a list option" where
  "wr xs i v = (if 0 \<le> i \<and> i < int (length xs) then Some (xs[nat i := v]) else None)"

text \<open>The string a \<open>char *\<close> into a buffer points to, when a NUL ends it inside the buffer.\<close>

definition cstring :: "int \<Rightarrow> string \<Rightarrow> string option" where
  "cstring p buf =
     (if 0 \<le> p \<and> CHR 0x00 \<in> set (drop (nat p) buf)
      then Some (takeWhile (\<lambda>c. c \<noteq> CHR 0x00) (drop (nat p) buf)) else None)"

section \<open>Signed division\<close>

text \<open>C truncates towards zero; dividing by zero and \<open>INT_MIN / -1\<close> are undefined.\<close>

definition c_div :: "cint \<Rightarrow> cint \<Rightarrow> cint option" where
  "c_div a b =
     (if b = 0 \<or> (a = 0x80000000 \<and> b = - 1) then None
      else Some (word_of_int (sint a sdiv sint b)))"

section \<open>Decimal printing\<close>

definition digit_char :: "nat \<Rightarrow> char" where
  "digit_char d = char_of (48 + d)"

fun dec_nat :: "nat \<Rightarrow> string" where
  "dec_nat n = (if n < 10 then [digit_char n] else dec_nat (n div 10) @ [digit_char (n mod 10)])"

declare dec_nat.simps [simp del]

definition dec_int :: "int \<Rightarrow> string" where
  "dec_int i = (if i < 0 then CHR ''-'' # dec_nat (nat (- i)) else dec_nat (nat i))"

section \<open>Conversion to numbers\<close>

definition is_digit :: "char \<Rightarrow> bool" where
  "is_digit c \<longleftrightarrow> (let n = of_char c in (48 :: nat) \<le> n \<and> n \<le> 57)"

definition is_space :: "char \<Rightarrow> bool" where
  "is_space c \<longleftrightarrow> (let n = of_char c in n = (32 :: nat) \<or> 9 \<le> n \<and> n \<le> 13)"

definition digit_val :: "char \<Rightarrow> int" where
  "digit_val c = int (of_char c) - 48"

definition digits_val :: "string \<Rightarrow> int" where
  "digits_val ds = foldl (\<lambda>n d. 10 * n + digit_val d) 0 ds"

text \<open>\<open>atoi\<close> is \<open>(int) strtol (s, NULL, 10)\<close>; \<open>strtol\<close> stays in the range of a 64-bit \<open>long\<close>.\<close>

definition strtol10 :: "string \<Rightarrow> int" where
  "strtol10 s =
     (let s1 = dropWhile is_space s;
          neg = (s1 \<noteq> [] \<and> hd s1 = CHR ''-'');
          s2 = (if s1 \<noteq> [] \<and> (hd s1 = CHR ''-'' \<or> hd s1 = CHR ''+'') then tl s1 else s1);
          n = digits_val (takeWhile is_digit s2);
          v = (if neg then - n else n) in
      max (- (2 ^ 63)) (min (2 ^ 63 - 1) v))"

definition atoi :: "string \<Rightarrow> cint" where
  "atoi s = word_of_int (strtol10 s)"

section \<open>Lemmas on arrays\<close>

lemma rd_nat [simp]: "rd xs (int n) = (if n < length xs then Some (xs ! n) else None)"
  by (simp add: rd_def)

lemma rd_Some_iff: "rd xs i = Some v \<longleftrightarrow> 0 \<le> i \<and> nat i < length xs \<and> xs ! nat i = v"
  by (auto simp: rd_def)

lemma rd_neg [simp]: "i < 0 \<Longrightarrow> rd xs i = None"
  by (simp add: rd_def)

lemma wr_nat [simp]: "wr xs (int n) v = (if n < length xs then Some (xs[n := v]) else None)"
  by (simp add: wr_def)

lemma wr_length: "wr xs i v = Some ys \<Longrightarrow> length ys = length xs"
  by (auto simp: wr_def split: if_splits)

lemma rd_wr_same: "wr xs i v = Some ys \<Longrightarrow> rd ys i = Some v"
  by (auto simp: wr_def rd_def split: if_splits)

lemma rd_wr_other: "wr xs i v = Some ys \<Longrightarrow> i \<noteq> j \<Longrightarrow> rd ys j = rd xs j"
  by (auto simp: wr_def rd_def nth_list_update split: if_splits)

text \<open>An array whose first cells are a known list, the rest being dead memory.\<close>

lemma take_nth_prefix: "take (length vs) xs = vs \<Longrightarrow> i < length vs \<Longrightarrow> xs ! i = vs ! i"
  by (metis nth_take)

lemma take_update_prefix:
  "take n xs = vs \<Longrightarrow> length vs = n \<Longrightarrow> n < length xs \<Longrightarrow> take (Suc n) (xs[n := v]) = vs @ [v]"
  by (simp add: take_Suc_conv_app_nth)

lemma take_mono_prefix: "take n xs = vs @ ws \<Longrightarrow> take (length vs) xs = vs"
  by (metis append_eq_conv_conj length_append length_take min.cobounded2 min_def
      nat_le_iff_add take_take)

section \<open>Lemmas on decimal printing\<close>

lemma length_dec_nat_pos: "0 < length (dec_nat n)"
  by (subst dec_nat.simps) simp

lemma length_dec_nat: "n < 10 ^ Suc k \<Longrightarrow> length (dec_nat n) \<le> Suc k"
proof (induction k arbitrary: n)
  case 0
  then show ?case by (subst dec_nat.simps) simp
next
  case (Suc k)
  show ?case
  proof (cases "n < 10")
    case True
    then show ?thesis by (subst dec_nat.simps) simp
  next
    case False
    from Suc.prems have "n div 10 < 10 ^ Suc k" by simp
    then have "length (dec_nat (n div 10)) \<le> Suc k" by (rule Suc.IH)
    with False show ?thesis by (subst dec_nat.simps) simp
  qed
qed

lemma length_dec_int:
  assumes "- (2 ^ 31) \<le> i" "i < 2 ^ 31"
  shows "length (dec_int i) \<le> 11"
proof -
  have "nat \<bar>i\<bar> < 10 ^ Suc 9" using assms by auto
  then have "length (dec_nat (nat \<bar>i\<bar>)) \<le> 10" using length_dec_nat by fastforce
  then show ?thesis by (auto simp: dec_int_def abs_if split: if_splits)
qed

text \<open>Printed numbers hold no NUL and no newline.\<close>

lemma digit_char_ne: "d < 10 \<Longrightarrow> digit_char d \<noteq> CHR 0x00 \<and> digit_char d \<noteq> CHR ''\<newline>''"
proof -
  have "list_all (\<lambda>d. digit_char d \<noteq> CHR 0x00 \<and> digit_char d \<noteq> CHR ''\<newline>'') [0..<10]" by code_simp
  then show "d < 10 \<Longrightarrow> ?thesis" unfolding list_all_iff by (metis atLeastLessThan_iff le0 set_upt)
qed

lemma dec_nat_plain: "c = CHR 0x00 \<or> c = CHR ''\<newline>'' \<Longrightarrow> c \<notin> set (dec_nat n)"
proof (induction n rule: dec_nat.induct)
  case (1 n)
  then show ?case
    using digit_char_ne [of n] digit_char_ne [of "n mod 10"] by (subst dec_nat.simps) auto
qed

section \<open>C strings\<close>

lemma takeWhile_no_NUL: "CHR 0x00 \<notin> set xs \<Longrightarrow> takeWhile (\<lambda>c. c \<noteq> CHR 0x00) xs = xs"
  unfolding takeWhile_eq_all_conv by metis

lemma takeWhile_NUL [simp]:
  "takeWhile (\<lambda>c. c \<noteq> CHR 0x00) (xs @ CHR 0x00 # ys) = takeWhile (\<lambda>c. c \<noteq> CHR 0x00) xs"
  by (induction xs) simp_all

section \<open>Runs of a step function\<close>

text \<open>\<open>runs_to f s R\<close>: iterating \<open>f\<close> from \<open>s\<close> reaches a state that satisfies \<open>R\<close>.\<close>

definition runs_to :: "('s \<Rightarrow> 's) \<Rightarrow> 's \<Rightarrow> ('s \<Rightarrow> bool) \<Rightarrow> bool" where
  "runs_to f s R \<longleftrightarrow> (\<exists>n. R ((f ^^ n) s))"

lemma runs_to_refl: "R s \<Longrightarrow> runs_to f s R"
  unfolding runs_to_def by (rule exI [of _ 0]) simp

lemma runs_to_step: "runs_to f (f s) R \<Longrightarrow> runs_to f s R"
  unfolding runs_to_def by (metis comp_apply funpow_Suc_right)

lemma runs_to_stepI: "f s = t \<Longrightarrow> runs_to f t R \<Longrightarrow> runs_to f s R"
  by (rule runs_to_step) simp

lemma runs_to_trans:
  assumes "runs_to f s Q" and "\<And>t. Q t \<Longrightarrow> runs_to f t R"
  shows "runs_to f s R"
proof -
  from assms(1) obtain m where "Q ((f ^^ m) s)" unfolding runs_to_def by blast
  with assms(2) obtain n where "R ((f ^^ n) ((f ^^ m) s))" unfolding runs_to_def by blast
  then have "R ((f ^^ (n + m)) s)" by (simp add: funpow_add)
  then show ?thesis unfolding runs_to_def by blast
qed

lemma runs_to_mono: "runs_to f s Q \<Longrightarrow> (\<And>t. Q t \<Longrightarrow> R t) \<Longrightarrow> runs_to f s R"
  unfolding runs_to_def by blast

lemma funpow_fixpoint: "f t = t \<Longrightarrow> (f ^^ n) t = t"
  by (induction n) simp_all

text \<open>Once a run has reached a fixpoint, more steps change nothing.\<close>

lemma funpow_stays:
  assumes "f ((f ^^ m) s) = (f ^^ m) s" and "m \<le> n"
  shows "(f ^^ n) s = (f ^^ m) s"
proof -
  from assms(2) obtain k where "n = k + m" by (metis add.commute le_Suc_ex)
  then show ?thesis using funpow_fixpoint [where f = f and t = "(f ^^ m) s" and n = k] assms(1) by (simp add: funpow_add)
qed

section \<open>Outcomes\<close>

text \<open>
  What a call that works on memory and may not return has as its result: a value; the end of the
  process with a message on standard error; an access outside an object or through a null or
  freed pointer; or no end at all. \<open>owhile\<close> is C's \<open>while\<close>.
\<close>

datatype 'a outcome = Ok 'a | Fatal string | Bad | Loops

fun obind :: "'a outcome \<Rightarrow> ('a \<Rightarrow> 'b outcome) \<Rightarrow> 'b outcome" where
  "obind (Ok x) k = k x"
| "obind (Fatal m) k = Fatal m"
| "obind Bad k = Bad"
| "obind Loops k = Loops"

definition checked :: "'a option \<Rightarrow> ('a \<Rightarrow> 'b outcome) \<Rightarrow> 'b outcome" where
  "checked x k = (case x of None \<Rightarrow> Bad | Some v \<Rightarrow> k v)"

definition owhile :: "('a \<Rightarrow> bool) \<Rightarrow> ('a \<Rightarrow> 'a outcome) \<Rightarrow> 'a \<Rightarrow> 'a outcome" where
  "owhile b c s =
     (case while_option (\<lambda>r. case r of Ok x \<Rightarrow> b x | _ \<Rightarrow> False) (\<lambda>r. obind r c) (Ok s) of
        None \<Rightarrow> Loops
      | Some r \<Rightarrow> r)"

lemma checked_simps [simp]: "checked None k = Bad" "checked (Some v) k = k v"
  by (simp_all add: checked_def)

lemma obind_Ok_iff: "obind x k = Ok y \<longleftrightarrow> (\<exists>z. x = Ok z \<and> k z = Ok y)"
  by (cases x) simp_all

lemma checked_Ok_iff: "checked x k = Ok y \<longleftrightarrow> (\<exists>z. x = Some z \<and> k z = Ok y)"
  by (cases x) simp_all

lemmas outcome_Ok = obind_Ok_iff checked_Ok_iff

lemma obind_assoc: "obind (obind x k) k' = obind x (\<lambda>y. obind (k y) k')"
  by (cases x) simp_all

lemma owhile_unfold [code]: "owhile b c s = (if b s then obind (c s) (owhile b c) else Ok s)"
proof (cases "b s")
  case True
  have "owhile b c s =
      (case while_option (\<lambda>r. case r of Ok x \<Rightarrow> b x | _ \<Rightarrow> False) (\<lambda>r. obind r c) (c s) of
         None \<Rightarrow> Loops | Some r \<Rightarrow> r)"
    using True unfolding owhile_def by (subst while_option_unfold) simp
  also have "\<dots> = obind (c s) (owhile b c)"
    by (cases "c s") (simp_all add: owhile_def while_option_unfold)
  finally show ?thesis using True by simp
next
  case False
  then show ?thesis unfolding owhile_def by (subst while_option_unfold) simp
qed

lemma owhile_done: "\<not> b s \<Longrightarrow> owhile b c s = Ok s"
  by (subst owhile_unfold) simp

lemma owhile_step: "b s \<Longrightarrow> c s = Ok t \<Longrightarrow> owhile b c s = owhile b c t"
  by (subst owhile_unfold) simp

text \<open>C's conversion of a pointer difference or a size to \<open>int\<close>, and \<open>size_t\<close> arithmetic.\<close>

definition to_int :: "int \<Rightarrow> int" where
  "to_int i = sint (word_of_int i :: cint)"

definition to_size :: "int \<Rightarrow> nat" where
  "to_size i = nat (i mod 2 ^ 64)"

lemma to_int_id: "- (2 ^ 31) \<le> i \<Longrightarrow> i < 2 ^ 31 \<Longrightarrow> to_int i = i"
  by (simp add: to_int_def signed_take_bit_int_eq_self sint_sbintrunc')

lemma to_size_id: "0 \<le> i \<Longrightarrow> i < 2 ^ 64 \<Longrightarrow> to_size i = nat i"
  by (simp add: to_size_def)

end
