(* ===== verification/Scanner_Tables.thy ===== *)
theory Scanner_Tables
  imports Prelude
begin

text \<open>
  The constants and tables of the calculator's scanner, \<open>src/packetdrill/lex.yy.c\<close>, copied entry
  by entry; the state transition all its matching loops share, which walks the default chain of
  the compressed tables; and the automaton these tables encode, state by state. The lemmas
  evaluate the transition once for every state and character class.
\<close>

section \<open>Constants\<close>

definition YY_NULL :: int where "YY_NULL = 0"
definition YY_BUF_SIZE :: nat where "YY_BUF_SIZE = 16384"
definition YY_READ_BUF_SIZE :: nat where "YY_READ_BUF_SIZE = 8192"
definition YY_NUM_RULES :: int where "YY_NUM_RULES = 6"
definition YY_END_OF_BUFFER :: int where "YY_END_OF_BUFFER = 7"
definition YY_END_OF_BUFFER_CHAR :: char where "YY_END_OF_BUFFER_CHAR = CHR 0x00"

definition YY_STATE_EOF :: "int \<Rightarrow> int" where
  "YY_STATE_EOF st = YY_END_OF_BUFFER + st + 1"

definition YY_SC_TO_UI :: "char \<Rightarrow> int" where
  "YY_SC_TO_UI c = int (of_char c)"

section \<open>Tables\<close>

definition yy_accept :: "int list" where
  "yy_accept =
    [0, 0, 0, 7, 5, 4, 3, 3, 2, 1, 2, 0]"

definition yy_ec :: "int list" where
  "yy_ec =
    [0, 1, 1, 1, 1, 1, 1, 1, 1, 2, 3, 1, 1, 1, 1, 1,
     1, 1, 1, 1, 1, 1, 1, 1, 1, 1, 1, 1, 1, 1, 1, 1,
     2, 1, 1, 1, 1, 1, 1, 1, 4, 4, 4, 4, 1, 4, 1, 4,
     5, 5, 5, 5, 5, 5, 5, 5, 5, 5, 1, 1, 1, 4, 1, 1,
     1, 1, 1, 1, 1, 1, 1, 1, 1, 1, 1, 1, 1, 1, 1, 1,
     1, 1, 1, 1, 1, 1, 1, 1, 1, 1, 1, 1, 1, 1, 1, 1,
     1, 6, 6, 6, 6, 6, 6, 6, 6, 6, 6, 6, 6, 6, 6, 6,
     6, 6, 6, 6, 6, 6, 6, 6, 6, 6, 6, 1, 1, 1, 1, 1,
     1, 1, 1, 1, 1, 1, 1, 1, 1, 1, 1, 1, 1, 1, 1, 1,
     1, 1, 1, 1, 1, 1, 1, 1, 1, 1, 1, 1, 1, 1, 1, 1,
     1, 1, 1, 1, 1, 1, 1, 1, 1, 1, 1, 1, 1, 1, 1, 1,
     1, 1, 1, 1, 1, 1, 1, 1, 1, 1, 1, 1, 1, 1, 1, 1,
     1, 1, 1, 1, 1, 1, 1, 1, 1, 1, 1, 1, 1, 1, 1, 1,
     1, 1, 1, 1, 1, 1, 1, 1, 1, 1, 1, 1, 1, 1, 1, 1,
     1, 1, 1, 1, 1, 1, 1, 1, 1, 1, 1, 1, 1, 1, 1, 1,
     1, 1, 1, 1, 1, 1, 1, 1, 1, 1, 1, 1, 1, 1, 1, 1]"

definition yy_meta :: "int list" where
  "yy_meta =
    [0, 1, 1, 1, 1, 2, 1]"

definition yy_base :: "int list" where
  "yy_base =
    [0, 0, 0, 8, 9, 9, 9, 9, 0, 9, 0, 9, 5]"

definition yy_def :: "int list" where
  "yy_def =
    [0, 11, 1, 11, 11, 11, 11, 11, 12, 11, 12, 0, 11]"

definition yy_nxt :: "int list" where
  "yy_nxt =
    [0, 4, 5, 6, 7, 8, 9, 10, 11, 3, 11, 11, 11, 11, 11, 11]"

definition yy_chk :: "int list" where
  "yy_chk =
    [0, 1, 1, 1, 1, 1, 1, 12, 3, 11, 11, 11, 11, 11, 11, 11]"

section \<open>Transitions\<close>

text \<open>
  From state \<open>q\<close> on class \<open>c\<close>: follow the default chain until an entry of the state is found,
  translating the class when the chain enters the template states. \<open>None\<close> when a table would be
  read outside its bounds or the chain does not end.
\<close>

partial_function (option) yy_trans :: "int \<Rightarrow> int \<Rightarrow> int option" where
  "yy_trans q c =
     (case rd yy_base q of
        None \<Rightarrow> None
      | Some b \<Rightarrow>
          (case rd yy_chk (b + c) of
             None \<Rightarrow> None
           | Some k \<Rightarrow>
               if k = q then rd yy_nxt (b + c)
               else
                 (case rd yy_def q of
                    None \<Rightarrow> None
                  | Some d \<Rightarrow>
                      if 12 \<le> d
                      then (case rd yy_meta c of None \<Rightarrow> None | Some m \<Rightarrow> yy_trans d m)
                      else yy_trans d c)))"

declare yy_trans.simps [code]

text \<open>The class of a character, and the automaton of the rules of \<open>calc.l\<close>.\<close>

definition class_of :: "nat \<Rightarrow> int" where
  "class_of n =
     (if n = 0 then 0
      else if n = 9 \<or> n = 32 then 2
      else if n = 10 then 3
      else if n \<in> {40, 41, 42, 43, 45, 47, 61} then 4
      else if 48 \<le> n \<and> n \<le> 57 then 5
      else if 97 \<le> n \<and> n \<le> 122 then 6
      else 1)"

definition dfa :: "int \<Rightarrow> int \<Rightarrow> int" where
  "dfa q c =
     (if c = 0 then (if q = 3 then 11 else 3)
      else if q = 1 then c + 3
      else if (q = 8 \<or> q = 10) \<and> c = 5 then 10
      else 11)"

definition dfa_accept :: "int \<Rightarrow> int" where
  "dfa_accept q =
     (if q = 3 then 7 else if q = 4 then 5 else if q = 5 then 4 else if q = 6 \<or> q = 7 then 3
      else if q = 8 \<or> q = 10 then 2 else if q = 9 then 1 else 0)"

definition dfa_state :: "int \<Rightarrow> bool" where
  "dfa_state q \<longleftrightarrow> 1 \<le> q \<and> q \<le> 11 \<and> q \<noteq> 2"

lemma yy_ec_table: "list_all (\<lambda>n. yy_ec ! n = class_of n) [0..<256] \<and> length yy_ec = 256"
  by code_simp

lemma yy_trans_table:
  "list_all (\<lambda>q. list_all (\<lambda>c. yy_trans q c = Some (dfa q c)) [0..6])
     [1, 3, 4, 5, 6, 7, 8, 9, 10, 11]"
  by code_simp

lemma yy_accept_table:
  "list_all (\<lambda>q. rd yy_accept q = Some (dfa_accept q)
      \<and> rd yy_base q = Some (if q \<in> {1, 8, 10} then 0 else if q = 3 then 8 else 9))
     [1, 3, 4, 5, 6, 7, 8, 9, 10, 11]"
  by code_simp

lemma dfa_state_cases:
  "dfa_state q \<Longrightarrow> q \<in> set [1, 3, 4, 5, 6, 7, 8, 9, 10, 11]"
  unfolding dfa_state_def by auto presburger

lemma yy_ec_class [table_simps]: "rd yy_ec (YY_SC_TO_UI c) = Some (class_of (of_char c))"
proof -
  have "(of_char c :: nat) < 256" using nat_of_char_less_256 [of c] by simp
  moreover have "YY_SC_TO_UI c = int (of_char c)" by (simp add: YY_SC_TO_UI_def)
  ultimately show ?thesis using yy_ec_table by (simp add: list_all_iff)
qed

lemma class_of_range: "0 \<le> class_of n \<and> class_of n \<le> 6"
  by (simp add: class_of_def)

lemma yy_trans_dfa [table_simps]:
  assumes "dfa_state q" "0 \<le> c" "c \<le> 6"
  shows "yy_trans q c = Some (dfa q c)"
proof -
  have "c \<in> set [0..6]" using assms(2,3) by (simp only: set_upto) simp
  with yy_trans_table dfa_state_cases [OF assms(1)] show ?thesis unfolding list_all_iff by blast
qed

lemma yy_accept_dfa [table_simps]: "dfa_state q \<Longrightarrow> rd yy_accept q = Some (dfa_accept q)"
  using yy_accept_table dfa_state_cases unfolding list_all_iff by blast

lemma yy_base_dfa [table_simps]:
  "dfa_state q \<Longrightarrow> rd yy_base q = Some (if q \<in> {1, 8, 10} then 0 else if q = 3 then 8 else 9)"
  using yy_accept_table dfa_state_cases unfolding list_all_iff by blast

lemma dfa_state_dfa: "dfa_state q \<Longrightarrow> 0 \<le> c \<Longrightarrow> c \<le> 6 \<Longrightarrow> dfa_state (dfa q c)"
  by (auto simp: dfa_state_def dfa_def)

end
