(* ===== verification/Scanner_Buffer.thy ===== *)
theory Scanner_Buffer
  imports Scanner_Tables
begin

text \<open>
  The input side of the scanner, \<open>src/packetdrill/lex.yy.c\<close>: standard I/O streams, the buffer
  structures on the heap, the stack of buffers and every function that creates, fills, switches,
  flushes and destroys them. The record \<open>yyscan\<close> holds the scanner's global variables.

  \<^item> A \<open>FILE *\<close> and a \<open>YY_BUFFER_STATE\<close> are numbers, \<open>None\<close> is the null pointer; \<open>yy_bufs\<close>
    maps the live buffer structures, so that a freed buffer is one that is not in the map.
  \<^item> \<open>yy_c_buf_p\<close>, \<open>yytext_ptr\<close> and \<open>yy_last_accepting_cpos\<close> are offsets into \<open>yy_ch_buf\<close>
    of the current buffer.
  \<^item> A stream delivers the items of a list and then end-of-file for ever.
  \<^item> \<open>lexenv\<close> carries what C and the system leave open: which allocations succeed, what fresh
    memory holds and which streams are terminals.
\<close>

section \<open>Streams\<close>

datatype sitem =
    Ch char
  | Eof_now \<comment> \<open>one end-of-file condition, as a terminal gives it\<close>
  | Io_err bool \<comment> \<open>a failing read; \<open>True\<close> when \<open>errno\<close> is \<open>EINTR\<close>\<close>

record stream =
  s_items :: "sitem list"
  s_err :: bool \<comment> \<open>\<open>ferror\<close>\<close>

fun getc :: "stream \<Rightarrow> char option \<times> stream" where
  "getc st =
     (case s_items st of
        [] \<Rightarrow> (None, st)
      | Ch c # r \<Rightarrow> (Some c, st\<lparr>s_items := r\<rparr>)
      | Eof_now # r \<Rightarrow> (None, st\<lparr>s_items := r\<rparr>)
      | Io_err e # r \<Rightarrow> (None, st\<lparr>s_items := r, s_err := True\<rparr>))"

text \<open>\<open>fread\<close> of \<open>n\<close> bytes: the bytes, whether \<open>errno\<close> became \<open>EINTR\<close>, the stream.\<close>

fun fread :: "nat \<Rightarrow> stream \<Rightarrow> string \<times> bool \<times> stream" where
  "fread 0 st = ([], False, st)"
| "fread (Suc n) st =
     (case s_items st of
        [] \<Rightarrow> ([], False, st)
      | Ch c # r \<Rightarrow>
          (let (cs, e, st') = fread n (st\<lparr>s_items := r\<rparr>) in (c # cs, e, st'))
      | Eof_now # r \<Rightarrow> ([], False, st\<lparr>s_items := r\<rparr>)
      | Io_err e # r \<Rightarrow> ([], e, st\<lparr>s_items := r, s_err := True\<rparr>))"

text \<open>The two branches of \<open>YY_INPUT\<close>. \<open>None\<close>: ``input in flex scanner failed''.\<close>

fun getc_loop :: "nat \<Rightarrow> stream \<Rightarrow> string \<times> bool \<times> stream" where
  "getc_loop 0 st = ([], False, st)"
| "getc_loop (Suc n) st =
     (case getc st of
        (None, st') \<Rightarrow> ([], True, st')
      | (Some c, st') \<Rightarrow>
          if c = CHR ''\<newline>'' then ([c], False, st')
          else let (cs, eof, st'') = getc_loop n st' in (c # cs, eof, st''))"

definition read_line :: "nat \<Rightarrow> stream \<Rightarrow> (string \<times> stream) option" where
  "read_line max_size st =
     (let (cs, eof, st') = getc_loop max_size st in
      if eof \<and> s_err st' then None else Some (cs, st'))"

lemma fread_eintr:
  "fread n st = (cs, True, st') \<Longrightarrow> length (s_items st') < length (s_items st)"
proof (induction n st arbitrary: cs rule: fread.induct)
  case (2 n st)
  show ?case
  proof (cases "s_items st")
    case (Cons x r)
    with 2 show ?thesis by (cases x) (fastforce split: prod.splits)+
  qed (use "2.prems" in simp)
qed simp

function read_block :: "nat \<Rightarrow> stream \<Rightarrow> (string \<times> stream) option" where
  "read_block max_size st =
     (case fread max_size st of
        (cs, eintr, st') \<Rightarrow>
          if cs = [] \<and> s_err st'
          then (if \<not> eintr then None else read_block max_size (st'\<lparr>s_err := False\<rparr>))
          else Some (cs, st'))"
  by pat_completeness auto
termination
  by (relation "measure (\<lambda>(n, st). length (s_items st))") (auto dest: fread_eintr [OF sym])

declare read_block.simps [simp del]

section \<open>Buffers and globals\<close>

datatype yy_status = YY_BUFFER_NEW | YY_BUFFER_NORMAL | YY_BUFFER_EOF_PENDING

record yy_buffer_state =
  yy_input_file :: "nat option"
  yy_ch_buf :: string
  yy_buf_pos :: int
  yy_buf_size :: nat
  b_n_chars :: nat \<comment> \<open>the member \<open>yy_n_chars\<close>\<close>
  yy_is_our_buffer :: bool
  yy_is_interactive :: bool
  yy_at_bol :: bool
  yy_bs_lineno :: int
  yy_bs_column :: int
  yy_fill_buffer :: bool
  yy_buffer_status :: yy_status

record lexenv =
  alloc_ok :: "nat \<Rightarrow> bool"
  fresh_ch :: "nat \<Rightarrow> char"
  fresh_int :: int
  isatty :: "nat \<Rightarrow> bool"

record yyscan =
  yy_bufs :: "nat \<Rightarrow> yy_buffer_state option"
  yy_next_buf :: nat \<comment> \<open>the address of the next buffer structure\<close>
  yy_buffer_stack :: "nat option list option"
  yy_buffer_stack_top :: nat
  yy_buffer_stack_max :: nat
  yy_hold_char :: char
  yy_n_chars :: nat
  yyleng :: nat
  yy_c_buf_p :: int
  yytext_ptr :: int
  yy_init :: bool
  yy_start :: int
  yy_did_buffer_switch_on_eof :: bool
  yyin :: "nat option"
  yyout :: "nat option"
  yylineno :: int
  yy_flex_debug :: int
  yy_last_accepting_state :: int
  yy_last_accepting_cpos :: int
  files :: "nat \<Rightarrow> stream"
  yy_log :: string \<comment> \<open>written to standard error\<close>
  yy_echo :: string \<comment> \<open>written to \<open>yyout\<close>\<close>

definition sizeof_yy_buffer_state :: nat where "sizeof_yy_buffer_state = 72"
definition sizeof_pointer :: nat where "sizeof_pointer = 8"

definition yy_fatal_error :: "string \<Rightarrow> yyscan \<Rightarrow> 'a outcome" where
  "yy_fatal_error msg s = Fatal (yy_log s @ msg @ ''\<newline>'')"

text \<open>
  Reading \<open>YY_CURRENT_BUFFER\<close>: \<open>NULL\<close> when there is no stack, otherwise the entry at
  \<open>yy_buffer_stack_top\<close>, which is an access outside the array when the index is not below its length.
\<close>

definition YY_CURRENT_BUFFER :: "yyscan \<Rightarrow> nat option outcome" where
  "YY_CURRENT_BUFFER s =
     (case yy_buffer_stack s of
        None \<Rightarrow> Ok None
      | Some st \<Rightarrow> checked (rd st (int (yy_buffer_stack_top s))) Ok)"

text \<open>
  The buffer the scanner reads from, if there is one. Where the code goes on through the pointer, as
  \<open>with_current\<close> does, no stack, an index outside it, \<open>NULL\<close> and a freed buffer are all \<open>Bad\<close>.
\<close>

definition current_buffer :: "yyscan \<Rightarrow> nat option" where
  "current_buffer s =
     (case yy_buffer_stack s of
        None \<Rightarrow> None
      | Some st \<Rightarrow> (case rd st (int (yy_buffer_stack_top s)) of None \<Rightarrow> None | Some b \<Rightarrow> b))"

lemma current_read [simp]: "current_buffer s = Some b \<Longrightarrow> YY_CURRENT_BUFFER s = Ok (Some b)"
  by (auto simp: current_buffer_def YY_CURRENT_BUFFER_def split: option.splits)

lemma current_Ok: "YY_CURRENT_BUFFER s = Ok p \<Longrightarrow> current_buffer s = p"
  by (auto simp: current_buffer_def YY_CURRENT_BUFFER_def checked_Ok_iff split: option.splits)

text \<open>Assigning to \<open>YY_CURRENT_BUFFER_LVALUE\<close>.\<close>

definition set_current :: "nat option \<Rightarrow> yyscan \<Rightarrow> yyscan outcome" where
  "set_current b s =
     checked (yy_buffer_stack s) (\<lambda>st.
       checked (wr st (int (yy_buffer_stack_top s)) b) (\<lambda>st'.
         Ok (s\<lparr>yy_buffer_stack := Some st'\<rparr>)))"

text \<open>Reading and writing a buffer structure through its pointer.\<close>

definition with_buf :: "nat option \<Rightarrow> yyscan \<Rightarrow> (nat \<Rightarrow> yy_buffer_state \<Rightarrow> 'a outcome) \<Rightarrow> 'a outcome" where
  "with_buf p s k = checked p (\<lambda>b. checked (yy_bufs s b) (k b))"

definition put_buf :: "nat \<Rightarrow> yy_buffer_state \<Rightarrow> yyscan \<Rightarrow> yyscan" where
  "put_buf b x s = s\<lparr>yy_bufs := (yy_bufs s)(b \<mapsto> x)\<rparr>"

abbreviation with_current :: "yyscan \<Rightarrow> (nat \<Rightarrow> yy_buffer_state \<Rightarrow> 'a outcome) \<Rightarrow> 'a outcome" where
  "with_current s \<equiv> with_buf (current_buffer s) s"

text \<open>The character at an offset of the current buffer.\<close>

definition peek :: "int \<Rightarrow> yyscan \<Rightarrow> char outcome" where
  "peek p s = with_current s (\<lambda>b x. checked (rd (yy_ch_buf x) p) Ok)"

definition poke :: "int \<Rightarrow> char \<Rightarrow> yyscan \<Rightarrow> yyscan outcome" where
  "poke p c s =
     with_current s (\<lambda>b x. checked (wr (yy_ch_buf x) p c) (\<lambda>cs. Ok (put_buf b (x\<lparr>yy_ch_buf := cs\<rparr>) s)))"

section \<open>Memory\<close>

definition yyalloc :: "lexenv \<Rightarrow> nat \<Rightarrow> string option" where
  "yyalloc env n = (if alloc_ok env n then Some (map (fresh_ch env) [0..<n]) else None)"

definition yyrealloc :: "lexenv \<Rightarrow> string \<Rightarrow> nat \<Rightarrow> string option" where
  "yyrealloc env xs n =
     (if alloc_ok env n then Some (take n xs @ map (fresh_ch env) [length xs..<n]) else None)"

definition yyfree :: "nat \<Rightarrow> yyscan \<Rightarrow> yyscan outcome" where
  "yyfree b s = (case yy_bufs s b of None \<Rightarrow> Bad | Some _ \<Rightarrow> Ok (s\<lparr>yy_bufs := (yy_bufs s)(b := None)\<rparr>))"

definition yyensure_buffer_stack :: "lexenv \<Rightarrow> yyscan \<Rightarrow> yyscan outcome" where
  "yyensure_buffer_stack env s =
     (case yy_buffer_stack s of
        None \<Rightarrow>
          (let num_to_alloc = 1 in
           if \<not> alloc_ok env (num_to_alloc * sizeof_pointer)
           then yy_fatal_error ''out of dynamic memory in yyensure_buffer_stack()'' s
           else Ok (s\<lparr>yy_buffer_stack := Some (replicate num_to_alloc None),
                      yy_buffer_stack_max := num_to_alloc, yy_buffer_stack_top := 0\<rparr>))
      | Some st \<Rightarrow>
          if to_size (int (yy_buffer_stack_max s) - 1) \<le> yy_buffer_stack_top s then
            (let grow_size = 8; num_to_alloc = yy_buffer_stack_max s + grow_size in
             if \<not> alloc_ok env (num_to_alloc * sizeof_pointer)
             then yy_fatal_error ''out of dynamic memory in yyensure_buffer_stack()'' s
             else Ok (s\<lparr>yy_buffer_stack := Some (st @ replicate grow_size None),
                        yy_buffer_stack_max := num_to_alloc\<rparr>))
          else Ok s)"

section \<open>Loading and initialising buffers\<close>

definition yy_load_buffer_state :: "yyscan \<Rightarrow> yyscan outcome" where
  "yy_load_buffer_state s =
     with_current s (\<lambda>b x.
       checked (rd (yy_ch_buf x) (yy_buf_pos x)) (\<lambda>c.
         Ok (s\<lparr>yy_n_chars := b_n_chars x, yy_c_buf_p := yy_buf_pos x, yytext_ptr := yy_buf_pos x,
                yyin := yy_input_file x, yy_hold_char := c\<rparr>)))"

definition yy_flush_buffer :: "nat option \<Rightarrow> yyscan \<Rightarrow> yyscan outcome" where
  "yy_flush_buffer p s =
     (if p = None then Ok s
      else with_buf p s (\<lambda>b x.
        checked (wr (yy_ch_buf x) 0 YY_END_OF_BUFFER_CHAR) (\<lambda>cs0.
        checked (wr cs0 1 YY_END_OF_BUFFER_CHAR) (\<lambda>cs.
          let s1 = put_buf b (x\<lparr>yy_ch_buf := cs, yy_buf_pos := 0, b_n_chars := 0, yy_at_bol := True,
                                yy_buffer_status := YY_BUFFER_NEW\<rparr>) s in
          obind (YY_CURRENT_BUFFER s1) (\<lambda>cur.
            if p = cur then yy_load_buffer_state s1 else Ok s1)))))"

definition yy_init_buffer :: "lexenv \<Rightarrow> nat option \<Rightarrow> nat option \<Rightarrow> yyscan \<Rightarrow> yyscan outcome" where
  "yy_init_buffer env p file s =
     obind (yy_flush_buffer p s) (\<lambda>s1.
       with_buf p s1 (\<lambda>b x.
       obind (YY_CURRENT_BUFFER s1) (\<lambda>cur.
         let x1 = x\<lparr>yy_input_file := file, yy_fill_buffer := True\<rparr>;
             x2 = (if p \<noteq> cur then x1\<lparr>yy_bs_lineno := 1, yy_bs_column := 0\<rparr> else x1) in
         Ok (put_buf b (x2\<lparr>yy_is_interactive := (case file of None \<Rightarrow> False | Some f \<Rightarrow> isatty env f)\<rparr>) s1))))"

text \<open>A structure fresh from \<open>yyalloc\<close>: its members hold what the memory held.\<close>

definition fresh_buffer :: "lexenv \<Rightarrow> yy_buffer_state" where
  "fresh_buffer env =
     \<lparr>yy_input_file = None, yy_ch_buf = [], yy_buf_pos = fresh_int env, yy_buf_size = 0, b_n_chars = 0,
      yy_is_our_buffer = False, yy_is_interactive = False, yy_at_bol = False,
      yy_bs_lineno = fresh_int env, yy_bs_column = fresh_int env, yy_fill_buffer = False,
      yy_buffer_status = YY_BUFFER_NEW\<rparr>"

definition yy_create_buffer :: "lexenv \<Rightarrow> nat option \<Rightarrow> nat \<Rightarrow> yyscan \<Rightarrow> (nat option \<times> yyscan) outcome" where
  "yy_create_buffer env file sz s =
     (if \<not> alloc_ok env sizeof_yy_buffer_state
      then yy_fatal_error ''out of dynamic memory in yy_create_buffer()'' s
      else
        let b = yy_next_buf s in
        case yyalloc env (sz + 2) of
          None \<Rightarrow> yy_fatal_error ''out of dynamic memory in yy_create_buffer()'' s
        | Some cs \<Rightarrow>
            let x = (fresh_buffer env)\<lparr>yy_buf_size := sz, yy_ch_buf := cs, yy_is_our_buffer := True\<rparr>;
                s1 = put_buf b x (s\<lparr>yy_next_buf := b + 1\<rparr>) in
            obind (yy_init_buffer env (Some b) file s1) (\<lambda>s2. Ok (Some b, s2)))"

definition yyrestart :: "lexenv \<Rightarrow> nat option \<Rightarrow> yyscan \<Rightarrow> yyscan outcome" where
  "yyrestart env input_file s =
     obind (YY_CURRENT_BUFFER s) (\<lambda>cur.
     obind
       (if cur = None then
          obind (yyensure_buffer_stack env s) (\<lambda>s1.
          obind (yy_create_buffer env (yyin s1) YY_BUF_SIZE s1) (\<lambda>(b, s2). set_current b s2))
        else Ok s) (\<lambda>s3.
     obind (YY_CURRENT_BUFFER s3) (\<lambda>b.
     obind (yy_init_buffer env b input_file s3) yy_load_buffer_state)))"

section \<open>The stack of buffers\<close>

text \<open>The block \<open>yypush_buffer_state\<close> copies from \<open>yy_switch_to_buffer\<close>: save the old buffer.\<close>

definition flush_out_old :: "yyscan \<Rightarrow> yyscan outcome" where
  "flush_out_old s =
     obind (YY_CURRENT_BUFFER s) (\<lambda>cur.
      if cur = None then Ok s
      else
        obind (poke (yy_c_buf_p s) (yy_hold_char s) s) (\<lambda>s1.
        with_current s1 (\<lambda>b x.
          Ok (put_buf b (x\<lparr>yy_buf_pos := yy_c_buf_p s1, b_n_chars := yy_n_chars s1\<rparr>) s1))))"

definition yy_switch_to_buffer :: "lexenv \<Rightarrow> nat option \<Rightarrow> yyscan \<Rightarrow> yyscan outcome" where
  "yy_switch_to_buffer env new_buffer s =
     obind (yyensure_buffer_stack env s) (\<lambda>s1.
     obind (YY_CURRENT_BUFFER s1) (\<lambda>cur.
       if cur = new_buffer then Ok s1
       else
         obind (flush_out_old s1) (\<lambda>s2.
         obind (set_current new_buffer s2) (\<lambda>s3.
         obind (yy_load_buffer_state s3) (\<lambda>s4.
           Ok (s4\<lparr>yy_did_buffer_switch_on_eof := True\<rparr>))))))"

definition yy_delete_buffer :: "nat option \<Rightarrow> yyscan \<Rightarrow> yyscan outcome" where
  "yy_delete_buffer p s =
     (case p of
        None \<Rightarrow> Ok s
      | Some b \<Rightarrow>
          obind (YY_CURRENT_BUFFER s) (\<lambda>cur.
          obind (if p = cur then set_current None s else Ok s) (yyfree b)))"

definition yypush_buffer_state :: "lexenv \<Rightarrow> nat option \<Rightarrow> yyscan \<Rightarrow> yyscan outcome" where
  "yypush_buffer_state env new_buffer s =
     (if new_buffer = None then Ok s
      else
        obind (yyensure_buffer_stack env s) (\<lambda>s1.
        obind (flush_out_old s1) (\<lambda>s2.
        obind (YY_CURRENT_BUFFER s2) (\<lambda>cur.
          let s3 = (if cur \<noteq> None
                    then s2\<lparr>yy_buffer_stack_top := yy_buffer_stack_top s2 + 1\<rparr> else s2) in
          obind (set_current new_buffer s3) (\<lambda>s4.
          obind (yy_load_buffer_state s4) (\<lambda>s5.
            Ok (s5\<lparr>yy_did_buffer_switch_on_eof := True\<rparr>)))))))"

definition yypop_buffer_state :: "yyscan \<Rightarrow> yyscan outcome" where
  "yypop_buffer_state s =
     obind (YY_CURRENT_BUFFER s) (\<lambda>cur.
      if cur = None then Ok s
      else
        obind (yy_delete_buffer cur s) (\<lambda>s1.
        obind (set_current None s1) (\<lambda>s2.
          let s3 = (if 0 < yy_buffer_stack_top s2
                    then s2\<lparr>yy_buffer_stack_top := yy_buffer_stack_top s2 - 1\<rparr> else s2) in
          obind (YY_CURRENT_BUFFER s3) (\<lambda>below.
          if below \<noteq> None
          then obind (yy_load_buffer_state s3) (\<lambda>s4. Ok (s4\<lparr>yy_did_buffer_switch_on_eof := True\<rparr>))
          else Ok s3))))"

definition yy_init_globals :: "yyscan \<Rightarrow> yyscan" where
  "yy_init_globals s =
     s\<lparr>yy_buffer_stack := None, yy_buffer_stack_top := 0, yy_buffer_stack_max := 0, yy_c_buf_p := 0,
       yy_init := False, yy_start := 0, yyin := None, yyout := None\<rparr>"

definition yylex_destroy :: "yyscan \<Rightarrow> yyscan outcome" where
  "yylex_destroy s =
     obind
       (owhile (\<lambda>s. YY_CURRENT_BUFFER s \<noteq> Ok None)
          (\<lambda>s. obind (YY_CURRENT_BUFFER s) (\<lambda>cur.
               obind (yy_delete_buffer cur s) (\<lambda>s1.
               obind (set_current None s1) yypop_buffer_state))) s)
       (\<lambda>s1. Ok (yy_init_globals (s1\<lparr>yy_buffer_stack := None\<rparr>)))"

section \<open>Scanning from memory\<close>

definition yy_scan_buffer :: "lexenv \<Rightarrow> string \<Rightarrow> nat \<Rightarrow> yyscan \<Rightarrow> (nat option \<times> yyscan) outcome" where
  "yy_scan_buffer env base sz s =
     (if sz < 2 then Ok (None, s)
      else
        checked (rd base (int sz - 2)) (\<lambda>c2.
          if c2 \<noteq> YY_END_OF_BUFFER_CHAR then Ok (None, s)
          else
            checked (rd base (int sz - 1)) (\<lambda>c1.
              if c1 \<noteq> YY_END_OF_BUFFER_CHAR then Ok (None, s)
              else if \<not> alloc_ok env sizeof_yy_buffer_state
              then yy_fatal_error ''out of dynamic memory in yy_scan_buffer()'' s
              else
                let b = yy_next_buf s;
                    x = (fresh_buffer env)\<lparr>yy_buf_size := sz - 2, yy_buf_pos := 0, yy_ch_buf := base,
                          yy_is_our_buffer := False, yy_input_file := None, b_n_chars := sz - 2,
                          yy_is_interactive := False, yy_at_bol := True, yy_fill_buffer := False,
                          yy_buffer_status := YY_BUFFER_NEW\<rparr> in
                obind (yy_switch_to_buffer env (Some b) (put_buf b x (s\<lparr>yy_next_buf := b + 1\<rparr>))) (\<lambda>s1.
                  Ok (Some b, s1)))))"

definition yy_scan_bytes :: "lexenv \<Rightarrow> string \<Rightarrow> nat \<Rightarrow> yyscan \<Rightarrow> (nat option \<times> yyscan) outcome" where
  "yy_scan_bytes env yybytes len s =
     (let n = len + 2 in
      case yyalloc env n of
        None \<Rightarrow> yy_fatal_error ''out of dynamic memory in yy_scan_bytes()'' s
      | Some _ \<Rightarrow>
          if length yybytes < len then Bad
          else
            obind (yy_scan_buffer env (take len yybytes @ [YY_END_OF_BUFFER_CHAR, YY_END_OF_BUFFER_CHAR]) n s)
              (\<lambda>(b, s1).
                 if b = None then yy_fatal_error ''bad buffer in yy_scan_bytes()'' s1
                 else with_buf b s1 (\<lambda>a x. Ok (b, put_buf a (x\<lparr>yy_is_our_buffer := True\<rparr>) s1))))"

text \<open>The bytes of a C string are those before its first NUL.\<close>

definition yy_scan_string :: "lexenv \<Rightarrow> string \<Rightarrow> yyscan \<Rightarrow> (nat option \<times> yyscan) outcome" where
  "yy_scan_string env yystr s =
     yy_scan_bytes env yystr (length (takeWhile (\<lambda>c. c \<noteq> YY_END_OF_BUFFER_CHAR) yystr)) s"

section \<open>Refilling the buffer\<close>

text \<open>\<open>for (i = 0; i < k; ++i) *(dest++) = *(source++)\<close>\<close>

fun move_chars :: "nat \<Rightarrow> int \<Rightarrow> int \<Rightarrow> string \<Rightarrow> string option" where
  "move_chars 0 source dest buf = Some buf"
| "move_chars (Suc k) source dest buf =
     (case rd buf source of
        None \<Rightarrow> None
      | Some c \<Rightarrow>
          (case wr buf dest c of
             None \<Rightarrow> None
           | Some buf' \<Rightarrow> move_chars k (source + 1) (dest + 1) buf'))"

text \<open>The bytes a read delivers, stored from \<open>p\<close> on.\<close>

fun store_chars :: "string \<Rightarrow> int \<Rightarrow> string \<Rightarrow> string option" where
  "store_chars [] p buf = Some buf"
| "store_chars (c # cs) p buf =
     (case wr buf p c of None \<Rightarrow> None | Some buf' \<Rightarrow> store_chars cs (p + 1) buf')"

definition YY_INPUT :: "int \<Rightarrow> nat \<Rightarrow> yyscan \<Rightarrow> yyscan outcome" where
  "YY_INPUT p max_size s =
     with_current s (\<lambda>b x.
       checked (yyin s) (\<lambda>f.
         case (if yy_is_interactive x then read_line max_size (files s f)
               else read_block max_size (files s f)) of
           None \<Rightarrow> yy_fatal_error ''input in flex scanner failed'' s
         | Some (cs, st) \<Rightarrow>
             checked (store_chars cs p (yy_ch_buf x)) (\<lambda>buf.
               Ok ((put_buf b (x\<lparr>yy_ch_buf := buf\<rparr>) s)
                     \<lparr>files := (files s)(f := st), yy_n_chars := length cs\<rparr>))))"

definition num_to_read :: "int \<Rightarrow> yyscan \<Rightarrow> nat outcome" where
  "num_to_read number_to_move s =
     with_current s (\<lambda>b x. Ok (to_size (int (yy_buf_size x) - number_to_move - 1)))"

text \<open>One round of \<open>while (num_to_read <= 0)\<close>: double the buffer.\<close>

definition grow_buffer :: "lexenv \<Rightarrow> yyscan \<Rightarrow> yyscan outcome" where
  "grow_buffer env s =
     with_current s (\<lambda>b x.
       if \<not> yy_is_our_buffer x then yy_fatal_error ''fatal error - scanner input buffer overflow'' s
       else
         let new_size = to_size (int (yy_buf_size x) * 2);
             sz = (if new_size = 0 then to_size (int (yy_buf_size x + yy_buf_size x div 8)) else new_size) in
         case yyrealloc env (yy_ch_buf x) (to_size (int sz + 2)) of
           None \<Rightarrow> yy_fatal_error ''fatal error - scanner input buffer overflow'' s
         | Some buf \<Rightarrow>
             Ok ((put_buf b (x\<lparr>yy_buf_size := sz, yy_ch_buf := buf\<rparr>) s)\<lparr>yy_c_buf_p := to_int (yy_c_buf_p s)\<rparr>))"

definition read_more :: "lexenv \<Rightarrow> int \<Rightarrow> yyscan \<Rightarrow> yyscan outcome" where
  "read_more env number_to_move s =
     obind (owhile (\<lambda>s. num_to_read number_to_move s = Ok 0) (grow_buffer env) s) (\<lambda>s1.
     obind (num_to_read number_to_move s1) (\<lambda>n.
     obind (YY_INPUT number_to_move (min n YY_READ_BUF_SIZE) s1) (\<lambda>s2.
     with_current s2 (\<lambda>b x. Ok (put_buf b (x\<lparr>b_n_chars := yy_n_chars s2\<rparr>) s2)))))"

datatype eob_act = EOB_ACT_CONTINUE_SCAN | EOB_ACT_END_OF_FILE | EOB_ACT_LAST_MATCH

text \<open>The part after the read: what was read decides, then the two end-of-buffer characters.\<close>

definition after_read :: "lexenv \<Rightarrow> int \<Rightarrow> yyscan \<Rightarrow> (eob_act \<times> yyscan) outcome" where
  "after_read env number_to_move s =
     obind
       (if yy_n_chars s = 0 then
          (if number_to_move = 0
           then obind (yyrestart env (yyin s) s) (\<lambda>s1. Ok (EOB_ACT_END_OF_FILE, s1))
           else with_current s (\<lambda>b x.
             Ok (EOB_ACT_LAST_MATCH, put_buf b (x\<lparr>yy_buffer_status := YY_BUFFER_EOF_PENDING\<rparr>) s)))
        else Ok (EOB_ACT_CONTINUE_SCAN, s)) (\<lambda>(ret_val, s1).
     obind
       (with_current s1 (\<lambda>b x.
          if yy_buf_size x < to_size (int (yy_n_chars s1) + number_to_move) then
            (case yyrealloc env (yy_ch_buf x)
                    (to_size (int (yy_n_chars s1) + number_to_move + int (yy_n_chars s1 div 2))) of
               None \<Rightarrow> yy_fatal_error ''out of dynamic memory in yy_get_next_buffer()'' s1
             | Some buf \<Rightarrow> Ok (put_buf b (x\<lparr>yy_ch_buf := buf\<rparr>) s1))
          else Ok s1)) (\<lambda>s2.
     let s3 = s2\<lparr>yy_n_chars := to_size (int (yy_n_chars s2) + number_to_move)\<rparr> in
     obind (poke (int (yy_n_chars s3)) YY_END_OF_BUFFER_CHAR s3) (\<lambda>s4.
     obind (poke (int (yy_n_chars s4) + 1) YY_END_OF_BUFFER_CHAR s4) (\<lambda>s5.
       Ok (ret_val, s5\<lparr>yytext_ptr := 0\<rparr>)))))"

definition yy_get_next_buffer :: "lexenv \<Rightarrow> yyscan \<Rightarrow> (eob_act \<times> yyscan) outcome" where
  "yy_get_next_buffer env s =
     with_current s (\<lambda>b x.
       if int (yy_n_chars s) + 1 < yy_c_buf_p s
       then yy_fatal_error ''fatal flex scanner internal error--end of buffer missed'' s
       else if \<not> yy_fill_buffer x then
         (if yy_c_buf_p s - yytext_ptr s = 1 then Ok (EOB_ACT_END_OF_FILE, s)
          else Ok (EOB_ACT_LAST_MATCH, s))
       else
         let number_to_move = to_int (yy_c_buf_p s - yytext_ptr s) - 1 in
         checked (move_chars (nat number_to_move) (yytext_ptr s) 0 (yy_ch_buf x)) (\<lambda>buf.
           obind
             (if yy_buffer_status x = YY_BUFFER_EOF_PENDING
              then Ok ((put_buf b (x\<lparr>yy_ch_buf := buf, b_n_chars := 0\<rparr>) s)\<lparr>yy_n_chars := 0\<rparr>)
              else read_more env number_to_move (put_buf b (x\<lparr>yy_ch_buf := buf\<rparr>) s))
             (after_read env number_to_move)))"

section \<open>Pushing back and reading characters\<close>

text \<open>\<open>while (source > yy_ch_buf) *--dest = *--source\<close>, from \<open>source = k\<close>.\<close>

fun move_up :: "nat \<Rightarrow> int \<Rightarrow> string \<Rightarrow> string option" where
  "move_up 0 dest buf = Some buf"
| "move_up (Suc k) dest buf =
     (case rd buf (int k) of
        None \<Rightarrow> None
      | Some c \<Rightarrow>
          (case wr buf (dest - 1) c of None \<Rightarrow> None | Some buf' \<Rightarrow> move_up k (dest - 1) buf'))"

definition yyunput :: "char \<Rightarrow> int \<Rightarrow> yyscan \<Rightarrow> yyscan outcome" where
  "yyunput c yy_bp s =
     obind (poke (yy_c_buf_p s) (yy_hold_char s) s) (\<lambda>s1.
     obind
       (if yy_c_buf_p s1 < 2 then
          with_current s1 (\<lambda>b x.
            let number_to_move = yy_n_chars s1 + 2;
                dest = int (yy_buf_size x) + 2;
                shift = dest - int number_to_move;
                cp = yy_c_buf_p s1 + to_int shift in
            checked (move_up number_to_move dest (yy_ch_buf x)) (\<lambda>buf.
              let s2 = (put_buf b (x\<lparr>yy_ch_buf := buf, b_n_chars := yy_buf_size x\<rparr>) s1)
                         \<lparr>yy_n_chars := yy_buf_size x\<rparr> in
              if cp < 2 then yy_fatal_error ''flex scanner push-back overflow'' s2
              else Ok (cp, yy_bp + to_int shift, s2)))
        else Ok (yy_c_buf_p s1, yy_bp, s1)) (\<lambda>(cp, bp, s3).
     obind (poke (cp - 1) c s3) (\<lambda>s4.
       Ok (s4\<lparr>yytext_ptr := bp, yy_hold_char := c, yy_c_buf_p := cp - 1\<rparr>))))"

text \<open>The end of \<open>input\<close>: return the character at \<open>yy_c_buf_p\<close> and step over it.\<close>

definition input_char :: "yyscan \<Rightarrow> (int \<times> yyscan) outcome" where
  "input_char s =
     obind (peek (yy_c_buf_p s) s) (\<lambda>c.
     obind (poke (yy_c_buf_p s) (CHR 0x00) s) (\<lambda>s1.
     obind (peek (yy_c_buf_p s1 + 1) s1) (\<lambda>h.
       Ok (YY_SC_TO_UI c, s1\<lparr>yy_c_buf_p := yy_c_buf_p s1 + 1, yy_hold_char := h\<rparr>))))"

definition input :: "lexenv \<Rightarrow> yyscan \<Rightarrow> (int \<times> yyscan) outcome" where
  "input env s =
     obind (poke (yy_c_buf_p s) (yy_hold_char s) s) (\<lambda>s1.
       if yy_hold_char s1 = YY_END_OF_BUFFER_CHAR then
         (if yy_c_buf_p s1 < int (yy_n_chars s1)
          then obind (poke (yy_c_buf_p s1) (CHR 0x00) s1) input_char
          else
            let offset = yy_c_buf_p s1 - yytext_ptr s1 in
            obind (yy_get_next_buffer env (s1\<lparr>yy_c_buf_p := yy_c_buf_p s1 + 1\<rparr>)) (\<lambda>(act, s2).
              case act of
                EOB_ACT_LAST_MATCH \<Rightarrow> obind (yyrestart env (yyin s2) s2) (\<lambda>s3. Ok (0, s3))
              | EOB_ACT_END_OF_FILE \<Rightarrow> Ok (0, s2)
              | EOB_ACT_CONTINUE_SCAN \<Rightarrow> input_char (s2\<lparr>yy_c_buf_p := yytext_ptr s2 + offset\<rparr>)))
       else input_char s1)"

end
