(* ===== verification/Parser_Tables.thy ===== *)
theory Parser_Tables
  imports Prelude
begin

text \<open>
  The constants and tables of the calculator's LALR(1) parser, \<open>src/packetdrill/calc.tab.c\<close>,
  copied entry by entry, and the decisions the parser reads off them: \<open>lr_action\<close> (what
  \<open>yybackup\<close> and \<open>yydefault\<close> do in a state on a token) and \<open>lr_goto\<close> (the state
  \<open>yyreduce\<close> enters). The lemmas evaluate them once, for every state and token, so that the
  parser proofs never look at a table again.
\<close>

section \<open>Constants\<close>

definition INTEGER :: int where "INTEGER = 258"
definition VARIABLE :: int where "VARIABLE = 259"

definition YYFINAL :: int where "YYFINAL = 2"
definition YYLAST :: int where "YYLAST = 31"
definition YYNTOKENS :: int where "YYNTOKENS = 13"
definition YYNNTS :: int where "YYNNTS = 4"
definition YYNRULES :: int where "YYNRULES = 12"
definition YYNSTATES :: int where "YYNSTATES = 22"
definition YYUNDEFTOK :: int where "YYUNDEFTOK = 2"
definition YYMAXUTOK :: int where "YYMAXUTOK = 259"
definition YYPACT_NINF :: int where "YYPACT_NINF = - 7"
definition YYTABLE_NINF :: int where "YYTABLE_NINF = - 1"
definition YYEMPTY :: int where "YYEMPTY = - 2"
definition YYEOF :: int where "YYEOF = 0"
definition YYTERROR :: int where "YYTERROR = 1"
definition YYINITDEPTH :: nat where "YYINITDEPTH = 200"
definition YYMAXDEPTH :: nat where "YYMAXDEPTH = 10000"

section \<open>Tables\<close>

definition yytranslate :: "int list" where
  "yytranslate =
    [0, 2, 2, 2, 2, 2, 2, 2, 2, 2, 9, 2, 2, 2, 2, 2,
     2, 2, 2, 2, 2, 2, 2, 2, 2, 2, 2, 2, 2, 2, 2, 2,
     2, 2, 2, 2, 2, 2, 2, 2, 11, 12, 7, 5, 2, 6, 2, 8,
     2, 2, 2, 2, 2, 2, 2, 2, 2, 2, 2, 2, 2, 10, 2, 2,
     2, 2, 2, 2, 2, 2, 2, 2, 2, 2, 2, 2, 2, 2, 2, 2,
     2, 2, 2, 2, 2, 2, 2, 2, 2, 2, 2, 2, 2, 2, 2, 2,
     2, 2, 2, 2, 2, 2, 2, 2, 2, 2, 2, 2, 2, 2, 2, 2,
     2, 2, 2, 2, 2, 2, 2, 2, 2, 2, 2, 2, 2, 2, 2, 2,
     2, 2, 2, 2, 2, 2, 2, 2, 2, 2, 2, 2, 2, 2, 2, 2,
     2, 2, 2, 2, 2, 2, 2, 2, 2, 2, 2, 2, 2, 2, 2, 2,
     2, 2, 2, 2, 2, 2, 2, 2, 2, 2, 2, 2, 2, 2, 2, 2,
     2, 2, 2, 2, 2, 2, 2, 2, 2, 2, 2, 2, 2, 2, 2, 2,
     2, 2, 2, 2, 2, 2, 2, 2, 2, 2, 2, 2, 2, 2, 2, 2,
     2, 2, 2, 2, 2, 2, 2, 2, 2, 2, 2, 2, 2, 2, 2, 2,
     2, 2, 2, 2, 2, 2, 2, 2, 2, 2, 2, 2, 2, 2, 2, 2,
     2, 2, 2, 2, 2, 2, 2, 2, 2, 2, 2, 2, 2, 2, 2, 2,
     1, 2, 3, 4]"

definition yyprhs :: "int list" where
  "yyprhs =
    [0, 0, 3, 7, 8, 10, 14, 16, 18, 22, 26, 30, 34]"

definition yyrhs :: "int list" where
  "yyrhs =
    [14, 0, - 1, 14, 15, 9, - 1, - 1, 16, - 1, 4, 10, 16, - 1, 3, - 1,
     4, - 1, 16, 5, 16, - 1, 16, 6, 16, - 1, 16, 7, 16, - 1, 16, 8,
     16, - 1, 11, 16, 12, - 1]"

definition yyr1 :: "int list" where
  "yyr1 =
    [0, 13, 14, 14, 15, 15, 16, 16, 16, 16, 16, 16, 16]"

definition yyr2 :: "int list" where
  "yyr2 =
    [0, 2, 3, 0, 1, 3, 1, 1, 3, 3, 3, 3, 3]"

definition yydefact :: "int list" where
  "yydefact =
    [3, 0, 1, 6, 7, 0, 0, 4, 0, 7, 0, 2, 0, 0, 0, 0,
     5, 12, 8, 9, 10, 11]"

definition yydefgoto :: "int list" where
  "yydefgoto =
    [- 1, 1, 6, 7]"

definition yypact :: "int list" where
  "yypact =
    [- 7, 0, - 7, - 7, - 5, 14, - 2, 23, 14, - 7, 15, - 7, 14, 14, 14, 14,
     23, - 7, - 6, - 6, - 7, - 7]"

definition yypgoto :: "int list" where
  "yypgoto =
    [- 7, - 7, - 7, 1]"

definition yytable :: "int list" where
  "yytable =
    [2, 14, 15, 3, 4, 8, 10, 11, 0, 16, 0, 5, 0, 18, 19, 20,
     21, 3, 9, 0, 12, 13, 14, 15, 0, 5, 0, 17, 12, 13, 14, 15]"

definition yycheck :: "int list" where
  "yycheck =
    [0, 7, 8, 3, 4, 10, 5, 9, - 1, 8, - 1, 11, - 1, 12, 13, 14,
     15, 3, 4, - 1, 5, 6, 7, 8, - 1, 11, - 1, 12, 5, 6, 7, 8]"

definition yystos :: "int list" where
  "yystos =
    [0, 14, 0, 3, 4, 11, 15, 16, 10, 4, 16, 9, 5, 6, 7, 8,
     16, 12, 16, 16, 16, 16]"

section \<open>Decisions\<close>

datatype lr_act = Shift int | Reduce int | Accept | SyntaxError

definition lr_default :: "int \<Rightarrow> lr_act" where
  "lr_default q = (let r = yydefact ! nat q in if r = 0 then SyntaxError else Reduce r)"

definition lr_action :: "int \<Rightarrow> int \<Rightarrow> lr_act" where
  "lr_action q t =
     (let p = yypact ! nat q; n = p + t in
      if p = YYPACT_NINF \<or> n < 0 \<or> YYLAST < n \<or> yycheck ! nat n \<noteq> t then lr_default q
      else let a = yytable ! nat n in
        if a = 0 then SyntaxError else if a = YYFINAL then Accept else Shift a)"

definition lr_goto :: "int \<Rightarrow> int \<Rightarrow> int" where
  "lr_goto lhs q =
     (let k = yypgoto ! nat (lhs - YYNTOKENS) + q in
      if 0 \<le> k \<and> k \<le> YYLAST \<and> yycheck ! nat k = q then yytable ! nat k
      else yydefgoto ! nat (lhs - YYNTOKENS))"

text \<open>
  The decisions the grammar of \<open>calc.y\<close> calls for, state by state. In the operand states an
  expression starts; 7, 10 and 16 hold a complete expression; 18 and 19 hold a sum or a
  difference whose right operand may still grow by a factor; the others decide alone.
\<close>

definition operand_state :: "int \<Rightarrow> bool" where
  "operand_state q \<longleftrightarrow> q \<in> {1, 5, 8, 12, 13, 14, 15}"

definition grammar_action :: "int \<Rightarrow> int \<Rightarrow> lr_act" where
  "grammar_action q t =
     (if operand_state q then
        (if t = 3 then Shift 3
         else if t = 4 then Shift (if q = 1 then 4 else 9)
         else if t = 11 then Shift 5
         else if q = 1 \<and> t = 0 then Accept
         else SyntaxError)
      else if q = 7 \<or> q = 10 \<or> q = 16 then
        (if 5 \<le> t \<and> t \<le> 8 then Shift (t + 7)
         else if q = 10 then (if t = 12 then Shift 17 else SyntaxError)
         else if q = 7 then Reduce 4 else Reduce 5)
      else if q = 18 \<or> q = 19 then
        (if t = 7 \<or> t = 8 then Shift (t + 7) else if q = 18 then Reduce 8 else Reduce 9)
      else if q = 4 then (if t = 10 then Shift 8 else Reduce 7)
      else if q = 6 then (if t = 9 then Shift 11 else SyntaxError)
      else if q = 0 then Reduce 3
      else if q = 2 then Reduce 1
      else if q = 3 then Reduce 6
      else if q = 9 then Reduce 7
      else if q = 11 then Reduce 2
      else if q = 17 then Reduce 12
      else if q = 20 then Reduce 10
      else Reduce 11)"

definition expr_goto :: "int \<Rightarrow> int" where
  "expr_goto q =
     (if q = 1 then 7 else if q = 5 then 10 else if q = 8 then 16 else q + 6)"

section \<open>The tables evaluated\<close>

lemma lr_action_table:
  "list_all (\<lambda>q. list_all (\<lambda>t. lr_action q t = grammar_action q t) [0..12]) [0..21]"
  by code_simp

lemma lr_goto_table:
  "list_all (\<lambda>q. lr_goto 16 q = expr_goto q) [1, 5, 8, 12, 13, 14, 15]
   \<and> lr_goto 15 1 = 6 \<and> lr_goto 14 0 = 1"
  by code_simp

lemma lr_action_grammar [table_simps]:
  "0 \<le> q \<Longrightarrow> q \<le> 21 \<Longrightarrow> 0 \<le> t \<Longrightarrow> t \<le> 12 \<Longrightarrow> lr_action q t = grammar_action q t"
  using lr_action_table by (simp add: list_all_iff)

lemma lr_goto_expr [table_simps]: "operand_state q \<Longrightarrow> lr_goto 16 q = expr_goto q"
  using lr_goto_table by (auto simp: list_all_iff operand_state_def)

lemma lr_goto_stmt [table_simps]: "lr_goto 15 1 = 6" "lr_goto 14 0 = 1"
  using lr_goto_table by simp_all

lemma table_lengths [table_simps]:
  "length yypact = 22" "length yydefact = 22" "length yycheck = 32" "length yytable = 32"
  "length yyr1 = 13" "length yyr2 = 13" "length yypgoto = 4" "length yydefgoto = 4"
  by (simp_all add: yypact_def yydefact_def yycheck_def yytable_def yyr1_def yyr2_def
      yypgoto_def yydefgoto_def)

lemma yytable_nonneg: "n < 32 \<Longrightarrow> 0 \<le> yytable ! n"
proof -
  have "list_all (\<lambda>x. 0 \<le> x) yytable" by code_simp
  then show "n < 32 \<Longrightarrow> 0 \<le> yytable ! n" by (simp add: list_all_length table_lengths)
qed

text \<open>End of file is never shifted, and a shift leads to a state.\<close>

lemma grammar_action_Shift:
  "grammar_action q t = Shift n \<Longrightarrow> 0 \<le> q \<Longrightarrow> q \<le> 21 \<Longrightarrow> 0 \<le> t \<Longrightarrow> t \<noteq> 0 \<and> 0 \<le> n \<and> n \<le> 21"
  by (auto simp: grammar_action_def operand_state_def split: if_splits)

lemma rule_table:
  "list_all (\<lambda>r. 14 \<le> yyr1 ! nat r \<and> yyr1 ! nat r \<le> 16) [2..12]"
  "map (\<lambda>r. (yyr1 ! r, yyr2 ! r)) [2..<13] =
     [(14, 3), (14, 0), (15, 1), (15, 3), (16, 1), (16, 1), (16, 3), (16, 3), (16, 3), (16, 3), (16, 3)]"
  by code_simp+

lemma yyr1_range: "1 < r \<Longrightarrow> r \<le> 12 \<Longrightarrow> 14 \<le> yyr1 ! nat r \<and> yyr1 ! nat r \<le> 16"
proof -
  assume "1 < r" "r \<le> 12"
  then have "r \<in> set [2..12]" by (simp only: set_upto) simp
  with rule_table(1) show ?thesis unfolding list_all_iff by blast
qed

end
