(* ===== verification/Parser_Machine.thy ===== *)
theory Parser_Machine
  imports Parser_Tables
begin

text \<open>
  \<open>yyparse\<close> of \<open>src/packetdrill/calc.tab.c\<close>, label by label. The record \<open>yyparser\<close> holds its
  locals, the globals \<open>yychar\<close>, \<open>yylval\<close>, \<open>yynerrs\<close> and \<open>sym\<close>, what has been written
  to standard output and standard error, the state of the scanner it calls, and \<open>pc\<close>, the
  label control is at. Each labelled block is one definition and \<open>yystep\<close> dispatches on \<open>pc\<close>.
  The two stacks are arrays (lists of \<open>yystacksize\<close> cells, dead cells included) with the
  stack pointers as indices, so that reading a dead or missing cell is visible. \<open>yylex\<close> is
  an argument: the scanner of \<open>src/packetdrill/lex.yy.c\<close> is a component of its own.
  \<open>cenv\<close> carries what C leaves open: whether \<open>malloc\<close> succeeds and what fresh memory holds.
\<close>

datatype yylabel =
    yynewstate | yysetstate | yybackup | yydefault | yyreduce | yyerrlab | yyerrorlab
  | yyerrlab1 | yyerrloop | yyacceptlab | yyabortlab | yyexhaustedlab | yyreturn
  | Returned \<comment> \<open>\<open>yyparse\<close> has returned \<open>yyresult\<close>\<close>
  | Fault \<comment> \<open>an array was indexed out of bounds\<close>
  | Trap \<comment> \<open>an undefined division\<close>
  | Exited \<comment> \<open>the scanner called \<open>exit\<close>\<close>

text \<open>
  What a call of the scanner gives: the token, \<open>yylval\<close> and what the scanner wrote to standard
  error meanwhile; the end of the process with a message; an invalid memory access; no return.
\<close>

datatype 'l lexret = LexTok int cint string 'l | LexExit string | LexBad | LexLoops

record cenv =
  malloc_ok :: "nat \<Rightarrow> bool"
  fresh_ss :: "nat \<Rightarrow> int"
  fresh_vs :: "nat \<Rightarrow> cint"

record 'l yyparser =
  pc :: yylabel
  yychar :: int
  yylval :: cint
  yynerrs :: int
  yystate :: int
  yyn :: int
  yyresult :: int
  yyerrstatus :: int
  yytoken :: int
  yyss :: "int list"
  yyssp :: int
  yyvs :: "cint list"
  yyvsp :: int
  yystacksize :: nat
  yyval :: cint
  yylen :: int
  yyss_moved :: bool \<comment> \<open>\<open>yyss != yyssa\<close>\<close>
  heap_blocks :: nat \<comment> \<open>stack blocks allocated and not freed\<close>
  sym :: "cint list"
  stdout :: string
  stderr :: string
  scanner :: 'l

abbreviation goto :: "yylabel \<Rightarrow> 'l yyparser \<Rightarrow> 'l yyparser" where
  "goto l s \<equiv> s\<lparr>pc := l\<rparr>"

section \<open>Macros and helpers\<close>

definition YYTRANSLATE :: "int \<Rightarrow> int option" where
  "YYTRANSLATE x =
     (if 0 \<le> x \<and> x \<le> YYMAXUTOK then rd yytranslate x else Some YYUNDEFTOK)"

definition YYPOPSTACK :: "int \<Rightarrow> 'l yyparser \<Rightarrow> 'l yyparser" where
  "YYPOPSTACK n s = s\<lparr>yyvsp := yyvsp s - n, yyssp := yyssp s - n\<rparr>"

text \<open>\<open>sizeof (yytype_int16) = 2\<close>, \<open>sizeof (YYSTYPE) = sizeof (union yyalloc) = 4\<close>.\<close>

definition YYSTACK_GAP_MAXIMUM :: nat where
  "YYSTACK_GAP_MAXIMUM = 4 - 1"

definition YYSTACK_BYTES :: "nat \<Rightarrow> nat" where
  "YYSTACK_BYTES n = n * (2 + 4) + YYSTACK_GAP_MAXIMUM"

text \<open>Byte offset of the second stack in the block, after \<open>YYSTACK_RELOCATE (yyss)\<close>.\<close>

definition yyvs_offset :: "nat \<Rightarrow> nat" where
  "yyvs_offset n = ((n * 2 + YYSTACK_GAP_MAXIMUM) div 4) * 4"

definition YYSTACK_RELOCATE :: "(nat \<Rightarrow> 'a) \<Rightarrow> nat \<Rightarrow> nat \<Rightarrow> 'a list \<Rightarrow> 'a list" where
  "YYSTACK_RELOCATE fresh yysize n xs = take yysize xs @ map fresh [yysize..<n]"

definition yyerror :: "string \<Rightarrow> 'l yyparser \<Rightarrow> 'l yyparser" where
  "yyerror msg s = s\<lparr>stderr := stderr s @ msg @ ''\<newline>''\<rparr>"

section \<open>Entering a state\<close>

definition do_yynewstate :: "'l yyparser \<Rightarrow> 'l yyparser" where
  "do_yynewstate s = goto yysetstate (s\<lparr>yyssp := yyssp s + 1\<rparr>)"

definition grow_stacks :: "cenv \<Rightarrow> 'l yyparser \<Rightarrow> 'l yyparser" where
  "grow_stacks env s =
     (let yysize = nat (yyssp s + 1) in
      if YYMAXDEPTH \<le> yystacksize s then goto yyexhaustedlab s
      else
        let n = min YYMAXDEPTH (yystacksize s * 2);
            s1 = s\<lparr>yystacksize := n\<rparr> in
        if \<not> malloc_ok env (YYSTACK_BYTES n) then goto yyexhaustedlab s1
        else
          let s2 = s1\<lparr>yyss := YYSTACK_RELOCATE (fresh_ss env) yysize n (yyss s),
                      yyvs := YYSTACK_RELOCATE (fresh_vs env) yysize n (yyvs s),
                      heap_blocks := heap_blocks s + 1 - (if yyss_moved s then 1 else 0),
                      yyss_moved := True,
                      yyssp := int yysize - 1,
                      yyvsp := int yysize - 1\<rparr> in
          if int n - 1 \<le> yyssp s2 then goto yyabortlab s2 else goto yybackup s2)"

definition do_yysetstate :: "cenv \<Rightarrow> 'l yyparser \<Rightarrow> 'l yyparser" where
  "do_yysetstate env s =
     (case wr (yyss s) (yyssp s) (yystate s) of
        None \<Rightarrow> goto Fault s
      | Some ss \<Rightarrow>
          let s1 = s\<lparr>yyss := ss\<rparr> in
          if int (yystacksize s) - 1 \<le> yyssp s then grow_stacks env s1 else goto yybackup s1)"

section \<open>Deciding on the lookahead\<close>

definition shift_token :: "int \<Rightarrow> 'l yyparser \<Rightarrow> 'l yyparser" where
  "shift_token n s =
     (case wr (yyvs s) (yyvsp s + 1) (yylval s) of
        None \<Rightarrow> goto Fault s
      | Some vs \<Rightarrow>
          goto yynewstate
            (s\<lparr>yyerrstatus := (if yyerrstatus s \<noteq> 0 then yyerrstatus s - 1 else yyerrstatus s),
               yychar := (if yychar s \<noteq> YYEOF then YYEMPTY else yychar s),
               yystate := n,
               yyvs := vs,
               yyvsp := yyvsp s + 1\<rparr>))"

definition use_lookahead :: "int \<Rightarrow> 'l yyparser \<Rightarrow> 'l yyparser" where
  "use_lookahead p s =
     (let n = p + yytoken s; s1 = s\<lparr>yyn := n\<rparr> in
      if n < 0 \<or> YYLAST < n then goto yydefault s1
      else (case rd yycheck n of
        None \<Rightarrow> goto Fault s1
      | Some c \<Rightarrow>
          (if c \<noteq> yytoken s then goto yydefault s1
           else (case rd yytable n of
             None \<Rightarrow> goto Fault s1
           | Some t \<Rightarrow>
               let s2 = s1\<lparr>yyn := t\<rparr> in
               if t \<le> 0 then
                 (if t = 0 \<or> t = YYTABLE_NINF then goto yyerrlab s2
                  else goto yyreduce (s2\<lparr>yyn := - t\<rparr>))
               else if t = YYFINAL then goto yyacceptlab s2
               else shift_token t s2))))"

definition translate_lookahead :: "int \<Rightarrow> 'l yyparser \<Rightarrow> 'l yyparser" where
  "translate_lookahead p s =
     (if yychar s \<le> YYEOF then use_lookahead p (s\<lparr>yychar := YYEOF, yytoken := YYEOF\<rparr>)
      else case YYTRANSLATE (yychar s) of
        None \<Rightarrow> goto Fault s
      | Some t \<Rightarrow> use_lookahead p (s\<lparr>yytoken := t\<rparr>))"

definition do_yybackup :: "('l \<Rightarrow> cint \<Rightarrow> 'l lexret) \<Rightarrow> 'l yyparser \<Rightarrow> 'l yyparser" where
  "do_yybackup yylex s =
     (case rd yypact (yystate s) of
        None \<Rightarrow> goto Fault s
      | Some p \<Rightarrow>
          let s1 = s\<lparr>yyn := p\<rparr> in
          if p = YYPACT_NINF then goto yydefault s1
          else if yychar s = YYEMPTY then
            (case yylex (scanner s) (yylval s) of
               LexExit m \<Rightarrow> goto Exited (s1\<lparr>stderr := stderr s @ m\<rparr>)
             | LexBad \<Rightarrow> goto Fault s1
             | LexLoops \<Rightarrow> s
             | LexTok c v m l \<Rightarrow>
                 translate_lookahead p
                   (s1\<lparr>yychar := c, yylval := v, stderr := stderr s @ m, scanner := l\<rparr>))
          else translate_lookahead p s1)"

definition do_yydefault :: "'l yyparser \<Rightarrow> 'l yyparser" where
  "do_yydefault s =
     (case rd yydefact (yystate s) of
        None \<Rightarrow> goto Fault s
      | Some n \<Rightarrow>
          if n = 0 then goto yyerrlab (s\<lparr>yyn := n\<rparr>) else goto yyreduce (s\<lparr>yyn := n\<rparr>))"

section \<open>Reducing\<close>

text \<open>The actions of \<open>calc.y\<close>, rules 8 to 11: a binary operator on \<open>$1\<close> and \<open>$3\<close>.\<close>

definition arith_action :: "int \<Rightarrow> cint \<Rightarrow> cint \<Rightarrow> cint option" where
  "arith_action r a b =
     (if r = 8 then Some (a + b)
      else if r = 9 then Some (a - b)
      else if r = 10 then Some (a * b)
      else c_div a b)"

definition yy_action :: "'l yyparser \<Rightarrow> yylabel + 'l yyparser" where
  "yy_action s =
     (let r = yyn s; vs = yyvs s; sp = yyvsp s in
      if r = 4 then
        (case rd vs sp of
           None \<Rightarrow> Inl Fault
         | Some v \<Rightarrow> Inr (s\<lparr>stdout := stdout s @ dec_int (sint v) @ ''\<newline>''\<rparr>))
      else if r = 5 then
        (case (rd vs (sp - 2), rd vs sp) of
           (Some i, Some v) \<Rightarrow>
             (case wr (sym s) (sint i) v of
                None \<Rightarrow> Inl Fault
              | Some sy \<Rightarrow> Inr (s\<lparr>sym := sy\<rparr>))
         | _ \<Rightarrow> Inl Fault)
      else if r = 7 then
        (case rd vs sp of
           None \<Rightarrow> Inl Fault
         | Some i \<Rightarrow>
             (case rd (sym s) (sint i) of
                None \<Rightarrow> Inl Fault
              | Some v \<Rightarrow> Inr (s\<lparr>yyval := v\<rparr>)))
      else if r = 8 \<or> r = 9 \<or> r = 10 \<or> r = 11 then
        (case (rd vs (sp - 2), rd vs sp) of
           (Some a, Some b) \<Rightarrow>
             (case arith_action r a b of
                None \<Rightarrow> Inl Trap
              | Some v \<Rightarrow> Inr (s\<lparr>yyval := v\<rparr>))
         | _ \<Rightarrow> Inl Fault)
      else if r = 12 then
        (case rd vs (sp - 1) of
           None \<Rightarrow> Inl Fault
         | Some v \<Rightarrow> Inr (s\<lparr>yyval := v\<rparr>))
      else Inr s)"

text \<open>Pop the right-hand side, push \<open>$$\<close> and find the state to go to.\<close>

definition goto_state :: "int \<Rightarrow> int \<Rightarrow> int option" where
  "goto_state lhs q =
     (case rd yypgoto (lhs - YYNTOKENS) of
        None \<Rightarrow> None
      | Some g \<Rightarrow>
          let k = g + q in
          if 0 \<le> k \<and> k \<le> YYLAST
          then (case rd yycheck k of
                  None \<Rightarrow> None
                | Some c \<Rightarrow> if c = q then rd yytable k else rd yydefgoto (lhs - YYNTOKENS))
          else rd yydefgoto (lhs - YYNTOKENS))"

definition finish_reduction :: "'l yyparser \<Rightarrow> 'l yyparser" where
  "finish_reduction s =
     (let s1 = (YYPOPSTACK (yylen s) s)\<lparr>yylen := 0\<rparr> in
      case (wr (yyvs s1) (yyvsp s1 + 1) (yyval s1), rd yyr1 (yyn s1), rd (yyss s1) (yyssp s1)) of
        (Some vs, Some lhs, Some q0) \<Rightarrow>
          (case goto_state lhs q0 of
             None \<Rightarrow> goto Fault s1
           | Some q \<Rightarrow>
               goto yynewstate
                 (s1\<lparr>yyvs := vs, yyvsp := yyvsp s1 + 1, yyn := lhs, yystate := q\<rparr>))
      | _ \<Rightarrow> goto Fault s1)"

definition do_yyreduce :: "'l yyparser \<Rightarrow> 'l yyparser" where
  "do_yyreduce s =
     (case rd yyr2 (yyn s) of
        None \<Rightarrow> goto Fault s
      | Some len \<Rightarrow>
          (case rd (yyvs s) (yyvsp s + (1 - len)) of
             None \<Rightarrow> goto Fault s
           | Some v \<Rightarrow>
               (case yy_action (s\<lparr>yylen := len, yyval := v\<rparr>) of
                  Inl l \<Rightarrow> goto l s
                | Inr s1 \<Rightarrow> finish_reduction s1)))"

section \<open>Errors\<close>

definition do_yyerrlab :: "'l yyparser \<Rightarrow> 'l yyparser" where
  "do_yyerrlab s =
     (let s1 = (if yyerrstatus s = 0
                then yyerror ''syntax error'' (s\<lparr>yynerrs := yynerrs s + 1\<rparr>)
                else s) in
      if yyerrstatus s1 = 3 then
        (if yychar s1 \<le> YYEOF then
           (if yychar s1 = YYEOF then goto yyabortlab s1 else goto yyerrlab1 s1)
         else goto yyerrlab1 (s1\<lparr>yychar := YYEMPTY\<rparr>))
      else goto yyerrlab1 s1)"

definition do_yyerrorlab :: "'l yyparser \<Rightarrow> 'l yyparser" where
  "do_yyerrorlab s =
     (let s1 = (YYPOPSTACK (yylen s) s)\<lparr>yylen := 0\<rparr> in
      case rd (yyss s1) (yyssp s1) of
        None \<Rightarrow> goto Fault s1
      | Some q \<Rightarrow> goto yyerrlab1 (s1\<lparr>yystate := q\<rparr>))"

definition do_yyerrlab1 :: "'l yyparser \<Rightarrow> 'l yyparser" where
  "do_yyerrlab1 s = goto yyerrloop (s\<lparr>yyerrstatus := 3\<rparr>)"

text \<open>The error token's entry in a state, when that state can shift it.\<close>

definition error_shift :: "int \<Rightarrow> int option" where
  "error_shift p =
     (let k = p + YYTERROR in
      if p \<noteq> YYPACT_NINF \<and> 0 \<le> k \<and> k \<le> YYLAST \<and> rd yycheck k = Some YYTERROR
      then (case rd yytable k of
              None \<Rightarrow> None
            | Some n \<Rightarrow> if 0 < n then Some n else None)
      else None)"

text \<open>One round of the loop after \<open>yyerrlab1\<close>.\<close>

definition do_yyerrloop :: "'l yyparser \<Rightarrow> 'l yyparser" where
  "do_yyerrloop s =
     (case rd yypact (yystate s) of
        None \<Rightarrow> goto Fault s
      | Some p \<Rightarrow>
          (case error_shift p of
             Some n \<Rightarrow>
               (if n = YYFINAL then goto yyacceptlab (s\<lparr>yyn := n\<rparr>)
                else
                  (case wr (yyvs s) (yyvsp s + 1) (yylval s) of
                     None \<Rightarrow> goto Fault s
                   | Some vs \<Rightarrow>
                       goto yynewstate
                         (s\<lparr>yyn := n, yyvs := vs, yyvsp := yyvsp s + 1, yystate := n\<rparr>)))
           | None \<Rightarrow>
               if yyssp s = 0 then goto yyabortlab s
               else
                 let s1 = YYPOPSTACK 1 s in
                 (case (rd yystos (yystate s), rd (yyss s1) (yyssp s1)) of
                    (Some _, Some q) \<Rightarrow> goto yyerrloop (s1\<lparr>yystate := q\<rparr>)
                  | _ \<Rightarrow> goto Fault s1)))"

section \<open>Returning\<close>

text \<open>\<open>while (yyssp != yyss)\<close>: every state popped is looked up in \<open>yystos\<close>.\<close>

fun yycleanup :: "int list \<Rightarrow> nat \<Rightarrow> bool" where
  "yycleanup ss 0 = True"
| "yycleanup ss (Suc k) =
     (case rd ss (int (Suc k)) of
        None \<Rightarrow> False
      | Some q \<Rightarrow> rd yystos q \<noteq> None \<and> yycleanup ss k)"

definition do_yyreturn :: "'l yyparser \<Rightarrow> 'l yyparser" where
  "do_yyreturn s =
     (let s1 = YYPOPSTACK (yylen s) s in
      if 0 \<le> yyssp s1 \<and> yycleanup (yyss s1) (nat (yyssp s1))
      then goto Returned
             (s1\<lparr>yyvsp := yyvsp s1 - yyssp s1, yyssp := 0,
                 heap_blocks := heap_blocks s1 - (if yyss_moved s1 then 1 else 0)\<rparr>)
      else goto Fault s1)"

section \<open>The whole function\<close>

definition yystep :: "('l \<Rightarrow> cint \<Rightarrow> 'l lexret) \<Rightarrow> cenv \<Rightarrow> 'l yyparser \<Rightarrow> 'l yyparser" where
  "yystep yylex env s =
     (case pc s of
        yynewstate \<Rightarrow> do_yynewstate s
      | yysetstate \<Rightarrow> do_yysetstate env s
      | yybackup \<Rightarrow> do_yybackup yylex s
      | yydefault \<Rightarrow> do_yydefault s
      | yyreduce \<Rightarrow> do_yyreduce s
      | yyerrlab \<Rightarrow> do_yyerrlab s
      | yyerrorlab \<Rightarrow> do_yyerrorlab s
      | yyerrlab1 \<Rightarrow> do_yyerrlab1 s
      | yyerrloop \<Rightarrow> do_yyerrloop s
      | yyacceptlab \<Rightarrow> goto yyreturn (s\<lparr>yyresult := 0\<rparr>)
      | yyabortlab \<Rightarrow> goto yyreturn (s\<lparr>yyresult := 1\<rparr>)
      | yyexhaustedlab \<Rightarrow> goto yyreturn ((yyerror ''memory exhausted'' s)\<lparr>yyresult := 2\<rparr>)
      | yyreturn \<Rightarrow> do_yyreturn s
      | _ \<Rightarrow> s)"

definition halted :: "yylabel \<Rightarrow> bool" where
  "halted l \<longleftrightarrow> l \<in> {Returned, Fault, Trap, Exited}"

text \<open>The locals as \<open>yyparse\<close> initialises them; the globals are those of the caller.\<close>

definition yyparse_enter :: "cenv \<Rightarrow> 'l yyparser \<Rightarrow> 'l yyparser" where
  "yyparse_enter env s =
     s\<lparr>pc := yysetstate, yytoken := 0, yystacksize := YYINITDEPTH, yylen := 0, yystate := 0,
       yyerrstatus := 0, yynerrs := 0, yychar := YYEMPTY,
       yyss := map (fresh_ss env) [0..<YYINITDEPTH], yyssp := 0,
       yyvs := map (fresh_vs env) [0..<YYINITDEPTH], yyvsp := 0,
       yyss_moved := False, heap_blocks := 0\<rparr>"

text \<open>\<open>yyparse\<close> run for at most \<open>fuel\<close> blocks; \<open>None\<close> when it has not ended by then.\<close>

definition yyparse ::
  "('l \<Rightarrow> cint \<Rightarrow> 'l lexret) \<Rightarrow> cenv \<Rightarrow> nat \<Rightarrow> 'l yyparser \<Rightarrow> 'l yyparser option" where
  "yyparse yylex env fuel s =
     (let s' = (yystep yylex env ^^ fuel) (yyparse_enter env s) in
      if halted (pc s') then Some s' else None)"

text \<open>The globals of the calculator when \<open>main\<close> starts, and \<open>main\<close> itself.\<close>

definition calc_globals :: "cint \<Rightarrow> 'l \<Rightarrow> 'l yyparser" where
  "calc_globals junk l =
     \<lparr>pc = yysetstate, yychar = 0, yylval = 0, yynerrs = 0, yystate = 0, yyn = 0, yyresult = 0,
      yyerrstatus = 0, yytoken = 0, yyss = [], yyssp = 0, yyvs = [], yyvsp = 0,
      yystacksize = 0, yyval = junk, yylen = 0, yyss_moved = False, heap_blocks = 0,
      sym = replicate 26 0, stdout = '''', stderr = '''', scanner = l\<rparr>"

definition calc_main ::
  "('l \<Rightarrow> cint \<Rightarrow> 'l lexret) \<Rightarrow> cenv \<Rightarrow> nat \<Rightarrow> 'l yyparser \<Rightarrow> 'l yyparser option" where
  "calc_main yylex env fuel s =
     yyparse yylex env fuel (s\<lparr>stdout := stdout s @ ''A simple calculator.\<newline>''\<rparr>)"

end
