(* ===== verification/Scanner_Lex.thy ===== *)
theory Scanner_Lex
  imports Scanner_Buffer Parser_Machine
begin

text \<open>
  \<open>yylex\<close> of \<open>src/packetdrill/lex.yy.c\<close>. Its body is a loop with the labels \<open>yy_match\<close>,
  \<open>yy_find_action\<close> and \<open>do_action\<close>; \<open>yylexer\<close> holds its local variables and the label control
  is at, \<open>lex_step\<close> runs one label (of the matching loop: one character) and \<open>yylex\<close> runs until
  it returns.
\<close>

section \<open>Characters as numbers\<close>

text \<open>The value of a \<open>char\<close>, which is signed.\<close>

definition char_int :: "char \<Rightarrow> int" where
  "char_int c = (let n = int (of_char c) in if 128 \<le> n then n - 256 else n)"

section \<open>Transitions on characters\<close>

text \<open>Remember the state if it accepts, then make the transition on class \<open>c\<close>.\<close>

definition yy_advance :: "int \<Rightarrow> int \<Rightarrow> int \<Rightarrow> yyscan \<Rightarrow> (int \<times> yyscan) outcome" where
  "yy_advance q cp c s =
     checked (rd yy_accept q) (\<lambda>a.
       let s1 = (if a \<noteq> 0 then s\<lparr>yy_last_accepting_state := q, yy_last_accepting_cpos := cp\<rparr> else s) in
       checked (yy_trans q c) (\<lambda>q'. Ok (q', s1)))"

text \<open>The loop of \<open>yy_get_previous_state\<close>, for the next \<open>k\<close> characters.\<close>

fun previous_state :: "nat \<Rightarrow> int \<Rightarrow> int \<Rightarrow> yyscan \<Rightarrow> (int \<times> yyscan) outcome" where
  "previous_state 0 cp q s = Ok (q, s)"
| "previous_state (Suc k) cp q s =
     obind (peek cp s) (\<lambda>ch.
     checked (if ch \<noteq> CHR 0x00 then rd yy_ec (YY_SC_TO_UI ch) else Some 1) (\<lambda>c.
     obind (yy_advance q cp c s) (\<lambda>(q', s1). previous_state k (cp + 1) q' s1)))"

definition yy_get_previous_state :: "yyscan \<Rightarrow> (int \<times> yyscan) outcome" where
  "yy_get_previous_state s =
     previous_state (nat (yy_c_buf_p s - yytext_ptr s)) (yytext_ptr s) (yy_start s) s"

definition yy_try_NUL_trans :: "int \<Rightarrow> yyscan \<Rightarrow> (int \<times> yyscan) outcome" where
  "yy_try_NUL_trans q s =
     obind (yy_advance q (yy_c_buf_p s) 1 s) (\<lambda>(q', s1). Ok (if q' = 11 then 0 else q', s1))"

section \<open>The scanner loop\<close>

datatype lexlabel = Lex_token | yy_match | yy_find_action | do_action | Lex_returned

record yylexer =
  l_pc :: lexlabel
  yy_cp :: int
  yy_bp :: int
  yy_current_state :: int
  yy_act :: int
  l_yylval :: cint
  l_result :: int
  l_scan :: yyscan

definition lex_return :: "int \<Rightarrow> yylexer \<Rightarrow> yylexer" where
  "lex_return tok x = x\<lparr>l_pc := Lex_returned, l_result := tok\<rparr>"

text \<open>The top of \<open>while (1)\<close>.\<close>

definition do_token :: "yylexer \<Rightarrow> yylexer outcome" where
  "do_token x =
     (let s = l_scan x; cp = yy_c_buf_p s in
      obind (poke cp (yy_hold_char s) s) (\<lambda>s1.
        Ok (x\<lparr>l_pc := yy_match, yy_cp := cp, yy_bp := cp, yy_current_state := yy_start s1, l_scan := s1\<rparr>)))"

definition do_yy_match :: "yylexer \<Rightarrow> yylexer outcome" where
  "do_yy_match x =
     obind (peek (yy_cp x) (l_scan x)) (\<lambda>ch.
     checked (rd yy_ec (YY_SC_TO_UI ch)) (\<lambda>c.
     obind (yy_advance (yy_current_state x) (yy_cp x) c (l_scan x)) (\<lambda>(q, s1).
     checked (rd yy_base q) (\<lambda>base.
       Ok (x\<lparr>l_pc := (if base \<noteq> 9 then yy_match else yy_find_action), yy_cp := yy_cp x + 1,
             yy_current_state := q, l_scan := s1\<rparr>)))))"

definition YY_DO_BEFORE_ACTION :: "int \<Rightarrow> int \<Rightarrow> yyscan \<Rightarrow> yyscan outcome" where
  "YY_DO_BEFORE_ACTION cp bp s =
     obind (peek cp s) (\<lambda>h.
     obind (poke cp (CHR 0x00) (s\<lparr>yytext_ptr := bp, yyleng := to_size (cp - bp), yy_hold_char := h\<rparr>)) (\<lambda>s1.
       Ok (s1\<lparr>yy_c_buf_p := cp\<rparr>)))"

definition do_yy_find_action :: "yylexer \<Rightarrow> yylexer outcome" where
  "do_yy_find_action x =
     checked (rd yy_accept (yy_current_state x)) (\<lambda>act.
     obind
       (if act = 0
        then checked (rd yy_accept (yy_last_accepting_state (l_scan x))) (\<lambda>act'.
               Ok (x\<lparr>yy_cp := yy_last_accepting_cpos (l_scan x),
                     yy_current_state := yy_last_accepting_state (l_scan x), yy_act := act'\<rparr>))
        else Ok (x\<lparr>yy_act := act\<rparr>)) (\<lambda>x1.
     obind (YY_DO_BEFORE_ACTION (yy_cp x1) (yy_bp x1) (l_scan x1)) (\<lambda>s1.
       Ok (x1\<lparr>l_pc := do_action, l_scan := s1\<rparr>))))"

text \<open>\<open>case YY_END_OF_BUFFER\<close>, with its two halves: a NUL in the input, and the end of the buffer.\<close>

definition new_file_check :: "yyscan \<Rightarrow> yyscan outcome" where
  "new_file_check s =
     with_current s (\<lambda>b x.
       if yy_buffer_status x = YY_BUFFER_NEW
       then Ok ((put_buf b (x\<lparr>yy_input_file := yyin s, yy_buffer_status := YY_BUFFER_NORMAL\<rparr>) s)
                  \<lparr>yy_n_chars := b_n_chars x\<rparr>)
       else Ok s)"

definition really_a_NUL :: "int \<Rightarrow> yylexer \<Rightarrow> yyscan \<Rightarrow> yylexer outcome" where
  "really_a_NUL amount x s =
     (let s1 = s\<lparr>yy_c_buf_p := yytext_ptr s + amount\<rparr> in
      obind (yy_get_previous_state s1) (\<lambda>(q, s2).
      obind (yy_try_NUL_trans q s2) (\<lambda>(q', s3).
        if q' \<noteq> 0
        then let s4 = s3\<lparr>yy_c_buf_p := yy_c_buf_p s3 + 1\<rparr> in
          Ok (x\<lparr>l_pc := yy_match, yy_cp := yy_c_buf_p s4, yy_bp := yytext_ptr s4,
                yy_current_state := q', l_scan := s4\<rparr>)
        else
          Ok (x\<lparr>l_pc := yy_find_action, yy_cp := yy_c_buf_p s3, yy_bp := yytext_ptr s3,
                yy_current_state := q, l_scan := s3\<rparr>))))"

definition end_of_buffer :: "lexenv \<Rightarrow> int \<Rightarrow> yylexer \<Rightarrow> yyscan \<Rightarrow> yylexer outcome" where
  "end_of_buffer env amount x s =
     obind (yy_get_next_buffer env s) (\<lambda>(act, s1).
       case act of
         EOB_ACT_END_OF_FILE \<Rightarrow>
           Ok (x\<lparr>l_pc := do_action, yy_act := YY_STATE_EOF ((yy_start s1 - 1) div 2),
                 l_scan := s1\<lparr>yy_did_buffer_switch_on_eof := False, yy_c_buf_p := yytext_ptr s1\<rparr>\<rparr>)
       | EOB_ACT_CONTINUE_SCAN \<Rightarrow>
           obind (yy_get_previous_state (s1\<lparr>yy_c_buf_p := yytext_ptr s1 + amount\<rparr>)) (\<lambda>(q, s2).
             Ok (x\<lparr>l_pc := yy_match, yy_cp := yy_c_buf_p s2, yy_bp := yytext_ptr s2,
                   yy_current_state := q, l_scan := s2\<rparr>))
       | EOB_ACT_LAST_MATCH \<Rightarrow>
           obind (yy_get_previous_state (s1\<lparr>yy_c_buf_p := int (yy_n_chars s1)\<rparr>)) (\<lambda>(q, s2).
             Ok (x\<lparr>l_pc := yy_find_action, yy_cp := yy_c_buf_p s2, yy_bp := yytext_ptr s2,
                   yy_current_state := q, l_scan := s2\<rparr>)))"

definition do_end_of_buffer :: "lexenv \<Rightarrow> yylexer \<Rightarrow> yylexer outcome" where
  "do_end_of_buffer env x =
     (let s = l_scan x; amount = to_int (yy_cp x - yytext_ptr s) - 1 in
      obind (poke (yy_cp x) (yy_hold_char s) s) (\<lambda>s1.
      obind (new_file_check s1) (\<lambda>s2.
        if yy_c_buf_p s2 \<le> int (yy_n_chars s2) then really_a_NUL amount x s2
        else end_of_buffer env amount x s2)))"

text \<open>The switch of the actions: the rules of \<open>calc.l\<close>, end-of-file, end-of-buffer.\<close>

definition do_do_action :: "lexenv \<Rightarrow> yylexer \<Rightarrow> yylexer outcome" where
  "do_do_action env x =
     (let s = l_scan x; act = yy_act x in
      if act = 0 then
        obind (poke (yy_cp x) (yy_hold_char s) s) (\<lambda>s1.
          Ok (x\<lparr>l_pc := yy_find_action, yy_cp := yy_last_accepting_cpos s1,
                yy_current_state := yy_last_accepting_state s1, l_scan := s1\<rparr>))
      else if act = 1 then
        obind (peek (yytext_ptr s) s) (\<lambda>c.
          Ok (lex_return VARIABLE (x\<lparr>l_yylval := word_of_int (char_int c - char_int (CHR ''a''))\<rparr>)))
      else if act = 2 then
        with_current s (\<lambda>b y.
          checked (cstring (yytext_ptr s) (yy_ch_buf y)) (\<lambda>str.
            Ok (lex_return INTEGER (x\<lparr>l_yylval := atoi str\<rparr>))))
      else if act = 3 then
        obind (peek (yytext_ptr s) s) (\<lambda>c. Ok (lex_return (char_int c) x))
      else if act = 4 then Ok (x\<lparr>l_pc := Lex_token\<rparr>)
      else if act = 5 then
        Ok (x\<lparr>l_pc := Lex_token, l_scan := s\<lparr>yy_log := yy_log s @ ''invalid input\<newline>''\<rparr>\<rparr>)
      else if act = 6 then
        with_current s (\<lambda>b y.
          if yytext_ptr s < 0 \<or> int (length (yy_ch_buf y)) < yytext_ptr s + int (yyleng s) then Bad
          else Ok (x\<lparr>l_pc := Lex_token,
                l_scan := s\<lparr>yy_echo := yy_echo s @ take (yyleng s) (drop (nat (yytext_ptr s)) (yy_ch_buf y))\<rparr>\<rparr>))
      else if act = YY_STATE_EOF 0 then Ok (lex_return YY_NULL x)
      else if act = YY_END_OF_BUFFER then do_end_of_buffer env x
      else yy_fatal_error ''fatal flex scanner internal error--no action found'' s)"

definition lex_step :: "lexenv \<Rightarrow> yylexer \<Rightarrow> yylexer outcome" where
  "lex_step env x =
     (case l_pc x of
        Lex_token \<Rightarrow> do_token x
      | yy_match \<Rightarrow> do_yy_match x
      | yy_find_action \<Rightarrow> do_yy_find_action x
      | do_action \<Rightarrow> do_do_action env x
      | Lex_returned \<Rightarrow> Ok x)"

text \<open>The start of \<open>yylex\<close>; file 0 is \<open>stdin\<close>, file 1 is \<open>stdout\<close>.\<close>

definition yylex_init :: "lexenv \<Rightarrow> yyscan \<Rightarrow> yyscan outcome" where
  "yylex_init env s =
     (if yy_init s then Ok s
      else
        let s1 = s\<lparr>yy_init := True, yy_start := (if yy_start s = 0 then 1 else yy_start s),
                   yyin := (if yyin s = None then Some 0 else yyin s),
                   yyout := (if yyout s = None then Some 1 else yyout s)\<rparr> in
        obind
          (obind (YY_CURRENT_BUFFER s1) (\<lambda>cur.
           if cur = None then
             obind (yyensure_buffer_stack env s1) (\<lambda>s2.
             obind (yy_create_buffer env (yyin s2) YY_BUF_SIZE s2) (\<lambda>(b, s3). set_current b s3))
           else Ok s1)) yy_load_buffer_state)"

definition lex_run :: "lexenv \<Rightarrow> yylexer \<Rightarrow> yylexer outcome" where
  "lex_run env = owhile (\<lambda>x. l_pc x \<noteq> Lex_returned) (lex_step env)"

definition lex_enter :: "cint \<Rightarrow> yyscan \<Rightarrow> yylexer" where
  "lex_enter v s =
     \<lparr>l_pc = Lex_token, yy_cp = 0, yy_bp = 0, yy_current_state = 0, yy_act = 0, l_yylval = v,
      l_result = 0, l_scan = s\<rparr>"

definition yylex :: "lexenv \<Rightarrow> yyscan \<Rightarrow> cint \<Rightarrow> yyscan lexret" where
  "yylex env s v =
     (case obind (yylex_init env (s\<lparr>yy_log := ''''\<rparr>)) (\<lambda>s1. lex_run env (lex_enter v s1)) of
        Ok x \<Rightarrow> LexTok (l_result x) (l_yylval x) (yy_log (l_scan x)) (l_scan x)
      | Fatal m \<Rightarrow> LexExit m
      | Bad \<Rightarrow> LexBad
      | Loops \<Rightarrow> LexLoops)"

text \<open>The scanner's globals when the program starts, with the given bytes on standard input.\<close>

definition scan_globals :: "string \<Rightarrow> yyscan" where
  "scan_globals inp =
     \<lparr>yy_bufs = (\<lambda>_. None), yy_next_buf = 0, yy_buffer_stack = None, yy_buffer_stack_top = 0,
      yy_buffer_stack_max = 0, yy_hold_char = CHR 0x00, yy_n_chars = 0, yyleng = 0, yy_c_buf_p = 0,
      yytext_ptr = 0, yy_init = False, yy_start = 0, yy_did_buffer_switch_on_eof = False,
      yyin = None, yyout = None, yylineno = 1, yy_flex_debug = 0, yy_last_accepting_state = 0,
      yy_last_accepting_cpos = 0,
      files = (\<lambda>f. \<lparr>s_items = (if f = 0 then map Ch inp else []), s_err = False\<rparr>),
      yy_log = '''', yy_echo = ''''\<rparr>"

end
