(* ===== verification/Scanner_Refill.thy ===== *)
theory Scanner_Refill
  imports Scanner_Buffer
begin

text \<open>
  Refilling a buffer loses and invents nothing: the loops that copy characters, the two ways of
  reading a stream, and \<open>yy_get_next_buffer\<close>, which keeps the text being matched and puts
  the next part of the stream behind it.
\<close>

section \<open>Copying characters\<close>

lemma move_chars_eq:
  "i + d + k \<le> length buf \<Longrightarrow>
     move_chars k (int (i + d)) (int i) buf = Some (take i buf @ take k (drop (i + d) buf) @ drop (i + k) buf)"
proof (induction k arbitrary: i buf)
  case 0
  then show ?case by simp
next
  case (Suc k)
  let ?b = "buf[i := buf ! (i + d)]"
  have "rd buf (int (i + d)) = Some (buf ! (i + d))" "wr buf (int i) (buf ! (i + d)) = Some ?b"
    using Suc.prems by (simp_all only: rd_nat wr_nat) simp_all
  then have "move_chars (Suc k) (int (i + d)) (int i) buf = move_chars k (int (Suc i + d)) (int (Suc i)) ?b"
    by (simp add: algebra_simps)
  also have "\<dots> = Some (take (Suc i) ?b @ take k (drop (Suc i + d) ?b) @ drop (Suc i + k) ?b)"
    using Suc.prems by (intro Suc.IH) simp
  also have "\<dots> = Some (take i buf @ (buf ! (i + d) # take k (drop (Suc (i + d)) buf)) @ drop (i + Suc k) buf)"
    using Suc.prems by (simp add: take_Suc_conv_app_nth)
  also have "buf ! (i + d) # take k (drop (Suc (i + d)) buf) = take (Suc k) (drop (i + d) buf)"
    using Suc.prems by (simp add: Cons_nth_drop_Suc [symmetric])
  finally show ?case .
qed

lemma store_chars_eq:
  "p + length cs \<le> length buf \<Longrightarrow>
     store_chars cs (int p) buf = Some (take p buf @ cs @ drop (p + length cs) buf)"
proof (induction cs arbitrary: p buf)
  case Nil
  then show ?case by simp
next
  case (Cons c cs)
  from Cons.prems Cons.IH [of "Suc p" "buf[p := c]"] show ?case
    by (simp add: take_Suc_conv_app_nth add.commute)
qed

section \<open>Reading a stream\<close>

abbreviation stream_of :: "string \<Rightarrow> stream" where
  "stream_of q \<equiv> \<lparr>s_items = map Ch q, s_err = False\<rparr>"

lemma fread_stream: "fread n (stream_of q) = (take n q, False, stream_of (drop n q))"
proof (induction n arbitrary: q)
  case (Suc n)
  then show ?case by (cases q) simp_all
qed simp

lemma read_block_stream: "read_block n (stream_of q) = Some (take n q, stream_of (drop n q))"
  by (subst read_block.simps) (simp add: fread_stream)

lemma getc_loop_stream:
  "\<exists>cs e. getc_loop n (stream_of q) = (cs, e, stream_of (drop (length cs) q)) \<and> cs = take (length cs) q
            \<and> length cs \<le> n \<and> (0 < n \<and> q \<noteq> [] \<longrightarrow> cs \<noteq> [])"
proof (induction n arbitrary: q)
  case (Suc n)
  show ?case
  proof (cases q)
    case (Cons c r)
    then show ?thesis using Suc.IH [of r] by (cases "c = CHR ''\<newline>''") auto
  qed (auto intro: exI [of _ True])
qed (auto intro: exI [of _ False])

text \<open>Either branch of \<open>YY_INPUT\<close> takes a piece off the front, a non-empty one if there is any.\<close>

lemma read_stream:
  assumes "0 < n"
  obtains cs where
    "(if tty then read_line n (stream_of q) else read_block n (stream_of q))
       = Some (cs, stream_of (drop (length cs) q))"
    "cs = take (length cs) q" "length cs \<le> n" "q \<noteq> [] \<Longrightarrow> cs \<noteq> []"
proof (cases tty)
  case True
  from getc_loop_stream [of n q] obtain cs e where
    "getc_loop n (stream_of q) = (cs, e, stream_of (drop (length cs) q))" "cs = take (length cs) q"
    "length cs \<le> n" "q \<noteq> [] \<Longrightarrow> cs \<noteq> []"
    using assms by blast
  with that [of cs] True show ?thesis by (simp add: read_line_def)
next
  case False
  with that [of "take n q"] assms show ?thesis by (cases "n \<le> length q") (auto simp: read_block_stream)
qed

section \<open>A buffer with its text\<close>

text \<open>
  The current buffer is \<open>b\<close>, at \<open>x\<close>; it holds the text \<open>C\<close> and then two NULs, and \<open>q\<close> is still
  to come from the stream; a buffer in memory (\<open>yy_fill_buffer\<close> is 0) has no stream and is whole.
  \<open>scan_limit\<close> bounds what the \<open>int\<close> arithmetic of the scanner can count.
\<close>

definition scan_limit :: nat where "scan_limit = 2 ^ 29"

definition text_buffer :: "yy_buffer_state \<Rightarrow> string \<Rightarrow> bool" where
  "text_buffer x C \<longleftrightarrow>
     (\<exists>junk. yy_ch_buf x = C @ CHR 0x00 # CHR 0x00 # junk)
     \<and> length (yy_ch_buf x) = yy_buf_size x + 2 \<and> length C \<le> yy_buf_size x
     \<and> yy_buf_size x \<le> 2 * scan_limit + 2
     \<and> (yy_fill_buffer x \<longrightarrow> length C < yy_buf_size x \<and> yy_is_our_buffer x)"

definition filled :: "nat \<Rightarrow> yy_buffer_state \<Rightarrow> string \<Rightarrow> string \<Rightarrow> yyscan \<Rightarrow> bool" where
  "filled b x C q s \<longleftrightarrow>
     current_buffer s = Some b \<and> yy_bufs s b = Some x \<and> text_buffer x C
     \<and> yy_n_chars s = length C
     \<and> (if yy_fill_buffer x then yy_input_file x = yyin s \<and> (\<exists>f. yyin s = Some f \<and> files s f = stream_of q) else q = [])
     \<and> (yy_buffer_status x = YY_BUFFER_NEW \<longrightarrow> b_n_chars x = length C)
     \<and> (yy_buffer_status x = YY_BUFFER_EOF_PENDING \<longrightarrow> q = [])"

text \<open>The variables that working on the buffers leaves alone.\<close>

definition same_scan :: "yyscan \<Rightarrow> yyscan \<Rightarrow> bool" where
  "same_scan s t \<longleftrightarrow> yy_start t = yy_start s \<and> yy_init t = yy_init s \<and> yy_log t = yy_log s"

lemma filled_peek:
  "filled b x C q s \<Longrightarrow> p < length C + 2 \<Longrightarrow> peek (int p) s = Ok ((C @ [CHR 0x00, CHR 0x00]) ! p)"
  by (auto simp: filled_def peek_def with_buf_def text_buffer_def nth_append nth_Cons' split: if_splits)

lemma put_buf_simps [simp]:
  "current_buffer (put_buf b x s) = current_buffer s"
  "yy_bufs (put_buf b x s) = (yy_bufs s)(b \<mapsto> x)"
  "yy_n_chars (put_buf b x s) = yy_n_chars s" "yyin (put_buf b x s) = yyin s"
  "files (put_buf b x s) = files s" "yy_log (put_buf b x s) = yy_log s"
  "yy_c_buf_p (put_buf b x s) = yy_c_buf_p s" "yytext_ptr (put_buf b x s) = yytext_ptr s"
  "yy_start (put_buf b x s) = yy_start s" "yy_init (put_buf b x s) = yy_init s"
  "yy_hold_char (put_buf b x s) = yy_hold_char s" "yy_buffer_stack (put_buf b x s) = yy_buffer_stack s"
  "yy_buffer_stack_top (put_buf b x s) = yy_buffer_stack_top s"
  by (simp_all add: put_buf_def current_buffer_def cong: option.case_cong)

lemma current_simps [simp]:
  "current_buffer (s\<lparr>yy_n_chars := n\<rparr>) = current_buffer s"
  "current_buffer (s\<lparr>yy_c_buf_p := p\<rparr>) = current_buffer s"
  "current_buffer (s\<lparr>yytext_ptr := p\<rparr>) = current_buffer s"
  "current_buffer (s\<lparr>yy_hold_char := c\<rparr>) = current_buffer s"
  "current_buffer (s\<lparr>yyleng := n\<rparr>) = current_buffer s"
  "current_buffer (s\<lparr>files := fs\<rparr>) = current_buffer s"
  "current_buffer (s\<lparr>yyin := f\<rparr>) = current_buffer s"
  "current_buffer (s\<lparr>yy_log := m\<rparr>) = current_buffer s"
  "current_buffer (s\<lparr>yy_bufs := bs\<rparr>) = current_buffer s"
  "current_buffer (s\<lparr>yy_last_accepting_state := q\<rparr>) = current_buffer s"
  "current_buffer (s\<lparr>yy_last_accepting_cpos := p\<rparr>) = current_buffer s"
  "current_buffer (s\<lparr>yy_did_buffer_switch_on_eof := d\<rparr>) = current_buffer s"
  "current_buffer (s\<lparr>yy_init := i\<rparr>) = current_buffer s"
  "current_buffer (s\<lparr>yy_start := k\<rparr>) = current_buffer s"
  "current_buffer (s\<lparr>yyout := f\<rparr>) = current_buffer s"
  "current_buffer (s\<lparr>yy_next_buf := b\<rparr>) = current_buffer s"
  by (simp_all add: current_buffer_def cong: option.case_cong)

lemma with_buf_simps [simp]:
  "with_buf None s k = Bad" "with_buf (Some b) s k = checked (yy_bufs s b) (k b)"
  by (simp_all add: with_buf_def)

lemma poke_eq:
  "current_buffer s = Some b \<Longrightarrow> yy_bufs s b = Some x \<Longrightarrow> p < length (yy_ch_buf x) \<Longrightarrow>
     poke (int p) c s = Ok (put_buf b (x\<lparr>yy_ch_buf := (yy_ch_buf x)[p := c]\<rparr>) s)"
  by (simp add: poke_def)

text \<open>Two NULs written behind a text make it a buffer's text.\<close>

lemma end_of_text:
  assumes "buf = C @ junk" "length C + 2 \<le> length buf"
  shows "\<exists>junk'. buf[length C := NUL, Suc (length C) := NUL] = C @ NUL # NUL # junk'"
proof -
  obtain a b j where "junk = a # b # j"
    using assms by (cases junk rule: remdups_adj.cases) auto
  with assms(1) show ?thesis by (simp add: list_update_append)
qed

section \<open>Refilling\<close>

text \<open>The state in which a refill reads: the text being matched, \<open>t\<close>, is at the start of the buffer.\<close>

definition refilling :: "nat \<Rightarrow> yy_buffer_state \<Rightarrow> string \<Rightarrow> nat \<Rightarrow> string \<Rightarrow> yyscan \<Rightarrow> bool" where
  "refilling b x t f q s \<longleftrightarrow>
     current_buffer s = Some b \<and> yy_bufs s b = Some x \<and> yyin s = Some f \<and> yy_input_file x = Some f
     \<and> files s f = stream_of q
     \<and> (\<exists>junk. yy_ch_buf x = t @ junk) \<and> length (yy_ch_buf x) = yy_buf_size x + 2
     \<and> length t < yy_buf_size x \<and> yy_buf_size x \<le> 2 * scan_limit + 2
     \<and> yy_fill_buffer x \<and> yy_is_our_buffer x"

lemma refilling_num_to_read:
  "refilling b x t f q s \<Longrightarrow> num_to_read (int (length t)) s = Ok (yy_buf_size x - length t - 1)"
  by (auto simp: refilling_def num_to_read_def to_size_id scan_limit_def nat_diff_distrib')

lemma grow_buffer_grows:
  assumes "refilling b x t f q s" "length t = yy_buf_size x - 1" "length t \<le> scan_limit"
    and "\<And>n. alloc_ok env n"
  shows "\<exists>x' s'. grow_buffer env s = Ok s' \<and> refilling b x' t f q s' \<and> same_scan s s'
           \<and> yy_buf_size x' = 2 * yy_buf_size x \<and> yy_buffer_status x' = yy_buffer_status x"
proof -
  let ?sz = "2 * yy_buf_size x"
  let ?buf = "take (?sz + 2) (yy_ch_buf x) @ map (fresh_ch env) [length (yy_ch_buf x)..<?sz + 2]"
  let ?x = "x\<lparr>yy_buf_size := ?sz, yy_ch_buf := ?buf\<rparr>"
  let ?s = "(put_buf b ?x s)\<lparr>yy_c_buf_p := to_int (yy_c_buf_p s)\<rparr>"
  have x: "current_buffer s = Some b" "yy_bufs s b = Some x" "yy_is_our_buffer x"
    "length (yy_ch_buf x) = yy_buf_size x + 2" "0 < yy_buf_size x"
    using assms(1) by (auto simp: refilling_def)
  have sz: "to_size (int (yy_buf_size x) * 2) = ?sz" "to_size (int ?sz + 2) = ?sz + 2" "?sz \<noteq> 0"
    using assms(2,3) x(5) by (auto simp: to_size_def scan_limit_def nat_mod_distrib nat_mult_distrib)
  have "grow_buffer env s = Ok ?s"
    using x sz assms(4) by (simp add: grow_buffer_def yyrealloc_def Let_def)
  moreover have "refilling b ?x t f q ?s"
    using assms(1-3) x by (auto simp: refilling_def)
  moreover have "same_scan s ?s" by (simp add: same_scan_def)
  ultimately show ?thesis by (intro exI [of _ ?x] exI [of _ ?s]) simp
qed

text \<open>After the loop there is room to read.\<close>

lemma grow_loop:
  assumes "refilling b x t f q s" "length t \<le> scan_limit" "\<And>n. alloc_ok env n"
  shows "\<exists>x' s'. owhile (\<lambda>s. num_to_read (int (length t)) s = Ok 0) (grow_buffer env) s = Ok s'
           \<and> refilling b x' t f q s' \<and> same_scan s s' \<and> length t + 1 < yy_buf_size x'
           \<and> yy_buffer_status x' = yy_buffer_status x"
proof (cases "length t = yy_buf_size x - 1")
  case True
  from grow_buffer_grows [OF assms(1) True assms(2,3)] obtain x' s' where
    g: "grow_buffer env s = Ok s'" "refilling b x' t f q s'" "same_scan s s'"
      "yy_buf_size x' = 2 * yy_buf_size x" "yy_buffer_status x' = yy_buffer_status x" by blast
  have "1 \<le> yy_buf_size x" using assms(1) by (auto simp: refilling_def)
  then have "num_to_read (int (length t)) s = Ok 0" "num_to_read (int (length t)) s' \<noteq> Ok 0"
    "length t + 1 < yy_buf_size x'"
    using refilling_num_to_read [OF assms(1)] refilling_num_to_read [OF g(2)] True g(4) by auto
  then show ?thesis
    using g by (intro exI [of _ x'] exI [of _ s']) (simp add: owhile_step owhile_done)
next
  case False
  then have "length t + 1 < yy_buf_size x" using assms(1) by (auto simp: refilling_def)
  then show ?thesis
    using assms(1) refilling_num_to_read [OF assms(1)]
    by (intro exI [of _ x] exI [of _ s]) (simp add: owhile_done same_scan_def)
qed

lemma read_more_reads:
  assumes "refilling b x t f q s" "length t \<le> scan_limit" "\<And>n. alloc_ok env n"
  shows "\<exists>x' s' cs. read_more env (int (length t)) s = Ok s'
           \<and> refilling b x' (t @ cs) f (drop (length cs) q) s' \<and> same_scan s s'
           \<and> yy_buffer_status x' = yy_buffer_status x \<and> b_n_chars x' = length cs
           \<and> yy_n_chars s' = length cs \<and> cs = take (length cs) q \<and> (q \<noteq> [] \<longrightarrow> cs \<noteq> [])"
proof -
  from grow_loop [OF assms] obtain x1 s1 where
    loop: "owhile (\<lambda>s. num_to_read (int (length t)) s = Ok 0) (grow_buffer env) s = Ok s1"
      "refilling b x1 t f q s1" "same_scan s s1" "length t + 1 < yy_buf_size x1"
      "yy_buffer_status x1 = yy_buffer_status x" by blast
  define n where "n = min (yy_buf_size x1 - length t - 1) YY_READ_BUF_SIZE"
  have "0 < n" using loop(4) by (simp add: YY_READ_BUF_SIZE_def n_def)
  from read_stream [OF this, of "yy_is_interactive x1" q] obtain cs where
    cs: "(if yy_is_interactive x1 then read_line n (stream_of q) else read_block n (stream_of q))
           = Some (cs, stream_of (drop (length cs) q))"
      "cs = take (length cs) q" "length cs \<le> n" "q \<noteq> [] \<Longrightarrow> cs \<noteq> []" by blast
  obtain junk where x1: "current_buffer s1 = Some b" "yy_bufs s1 b = Some x1" "yyin s1 = Some f"
    "files s1 f = stream_of q" "yy_ch_buf x1 = t @ junk" "length (yy_ch_buf x1) = yy_buf_size x1 + 2"
    using loop(2) by (auto simp: refilling_def)
  have room: "length t + length cs \<le> length (yy_ch_buf x1)" using cs(3) x1(6) loop(4) by (auto simp: n_def)
  let ?buf = "take (length t) (yy_ch_buf x1) @ cs @ drop (length t + length cs) (yy_ch_buf x1)"
  let ?x = "x1\<lparr>yy_ch_buf := ?buf, b_n_chars := length cs\<rparr>"
  let ?s2 = "(put_buf b (x1\<lparr>yy_ch_buf := ?buf\<rparr>) s1)
               \<lparr>files := (files s1)(f := stream_of (drop (length cs) q)), yy_n_chars := length cs\<rparr>"
  let ?s = "put_buf b ?x ?s2"
  have "YY_INPUT (int (length t)) n s1 = Ok ?s2"
    using x1(1-4) cs(1)
    by (cases "yy_is_interactive x1") (simp_all add: YY_INPUT_def store_chars_eq [OF room])
  then have "read_more env (int (length t)) s = Ok ?s"
    using loop(1) refilling_num_to_read [OF loop(2)] x1(1) by (simp add: read_more_def n_def)
  moreover have "refilling b ?x (t @ cs) f (drop (length cs) q) ?s"
    using loop(2) cs(3) x1 room by (auto simp: refilling_def n_def)
  moreover have "same_scan s ?s" using loop(3) by (simp add: same_scan_def)
  ultimately show ?thesis
    using cs loop(5) by (intro exI [of _ ?x] exI [of _ ?s] exI [of _ cs]) simp
qed

section \<open>After the read\<close>

text \<open>The tail of \<open>yy_get_next_buffer\<close>: nothing to enlarge, two NULs, the text at offset 0.\<close>

definition finish_refill :: "lexenv \<Rightarrow> int \<Rightarrow> eob_act \<times> yyscan \<Rightarrow> (eob_act \<times> yyscan) outcome" where
  "finish_refill env number_to_move = (\<lambda>(ret_val, s1).
     obind
       (with_current s1 (\<lambda>b x.
          if yy_buf_size x < to_size (int (yy_n_chars s1) + number_to_move) then
            (case yyrealloc env (yy_ch_buf x)
                    (to_size (int (yy_n_chars s1) + number_to_move + int (yy_n_chars s1 div 2))) of
               None \<Rightarrow> yy_fatal_error ''out of dynamic memory in yy_get_next_buffer()'' s1
             | Some buf \<Rightarrow> Ok (put_buf b (x\<lparr>yy_ch_buf := buf\<rparr>) s1))
          else Ok s1)) (\<lambda>s2.
     let s3 = s2\<lparr>yy_n_chars := to_size (int (yy_n_chars s2) + number_to_move)\<rparr> in
     obind (poke (int (yy_n_chars s3)) YY_END_OF_BUFFER_CHAR s3) (\<lambda>s4.
     obind (poke (int (yy_n_chars s4) + 1) YY_END_OF_BUFFER_CHAR s4) (\<lambda>s5.
       Ok (ret_val, s5\<lparr>yytext_ptr := 0\<rparr>)))))"

lemma finish_refill_filled:
  assumes "refilling b x C f q s" "length C = k + yy_n_chars s"
    and "yy_buffer_status x = YY_BUFFER_NEW \<longrightarrow> b_n_chars x = length C"
    and "yy_buffer_status x = YY_BUFFER_EOF_PENDING \<longrightarrow> q = []"
  shows "\<exists>x' s'. finish_refill env (int k) (act, s) = Ok (act, s') \<and> filled b x' C q s' \<and> same_scan s s'
           \<and> yytext_ptr s' = 0 \<and> yy_c_buf_p s' = yy_c_buf_p s \<and> yy_hold_char s' = yy_hold_char s
           \<and> yy_buffer_status x' = yy_buffer_status x"
proof -
  let ?n = "length C"
  let ?buf = "(yy_ch_buf x)[?n := CHR 0x00, Suc ?n := CHR 0x00]"
  let ?x = "x\<lparr>yy_ch_buf := ?buf\<rparr>"
  let ?s = "(put_buf b ?x (put_buf b (x\<lparr>yy_ch_buf := (yy_ch_buf x)[?n := CHR 0x00]\<rparr>) (s\<lparr>yy_n_chars := ?n\<rparr>)))
              \<lparr>yytext_ptr := 0\<rparr>"
  obtain junk where x: "current_buffer s = Some b" "yy_bufs s b = Some x" "yyin s = Some f"
    "files s f = stream_of q" "yy_ch_buf x = C @ junk" "length (yy_ch_buf x) = yy_buf_size x + 2"
    "?n < yy_buf_size x" "yy_buf_size x \<le> 2 * scan_limit + 2" "yy_fill_buffer x" "yy_is_our_buffer x" "yy_input_file x = Some f"
    using assms(1) by (auto simp: refilling_def)
  have n: "to_size (int (yy_n_chars s) + int k) = ?n"
    using assms(2) x(7,8) by (simp add: to_size_id scan_limit_def nat_int_add add.commute)
  have poke2: "poke (int ?n + 1) c t = poke (int (Suc ?n)) c t" for c t by (simp add: add.commute)
  have "finish_refill env (int k) (act, s) = Ok (act, ?s)"
    using x n by (simp add: finish_refill_def Let_def poke_eq poke2 YY_END_OF_BUFFER_CHAR_def
        del: of_nat_Suc)
  moreover have "text_buffer ?x C"
    using end_of_text [of "yy_ch_buf x" C junk] x(5-10) by (simp add: text_buffer_def)
  ultimately show ?thesis
    using x assms(3,4)
    by (intro exI [of _ ?x] exI [of _ ?s]) (auto simp: filled_def same_scan_def)
qed

lemma after_read_finish:
  "after_read env k s =
     obind
       (if yy_n_chars s = 0 then
          (if k = 0
           then obind (yyrestart env (yyin s) s) (\<lambda>s1. Ok (EOB_ACT_END_OF_FILE, s1))
           else with_current s (\<lambda>b x.
             Ok (EOB_ACT_LAST_MATCH, put_buf b (x\<lparr>yy_buffer_status := YY_BUFFER_EOF_PENDING\<rparr>) s)))
        else Ok (EOB_ACT_CONTINUE_SCAN, s)) (finish_refill env k)"
  by (simp add: after_read_def finish_refill_def)

text \<open>At the end of the input the buffer is restarted, empty.\<close>

lemma yyrestart_empties:
  assumes "refilling b x [] f [] s"
  shows "\<exists>x' s'. yyrestart env (yyin s) s = Ok s' \<and> refilling b x' [] f [] s' \<and> same_scan s s'
           \<and> yy_n_chars s' = 0 \<and> b_n_chars x' = 0 \<and> yy_buffer_status x' = YY_BUFFER_NEW
           \<and> yy_c_buf_p s' = 0 \<and> yy_hold_char s' = CHR 0x00"
proof -
  have x: "current_buffer s = Some b" "yy_bufs s b = Some x" "yyin s = Some f" "files s f = stream_of []"
    "length (yy_ch_buf x) = yy_buf_size x + 2" "0 < yy_buf_size x" "yy_buf_size x \<le> 2 * scan_limit + 2"
    "yy_is_our_buffer x"
    using assms by (auto simp: refilling_def)
  then obtain a c j where buf: "yy_ch_buf x = a # c # j"
    by (cases "yy_ch_buf x" rule: remdups_adj.cases) auto
  let ?x = "x\<lparr>yy_ch_buf := CHR 0x00 # CHR 0x00 # j, yy_buf_pos := 0, b_n_chars := 0, yy_at_bol := True,
              yy_buffer_status := YY_BUFFER_NEW, yy_input_file := Some f, yy_fill_buffer := True,
              yy_is_interactive := isatty env f\<rparr>"
  have "\<exists>s'. yyrestart env (yyin s) s = Ok s' \<and> current_buffer s' = Some b \<and> yy_bufs s' b = Some ?x
      \<and> yyin s' = Some f \<and> files s' = files s \<and> same_scan s s' \<and> yy_n_chars s' = 0 \<and> yy_c_buf_p s' = 0
      \<and> yy_hold_char s' = CHR 0x00"
    using x(1-3) buf
    by (simp add: yyrestart_def yy_init_buffer_def yy_flush_buffer_def yy_load_buffer_state_def wr_def rd_def
        YY_END_OF_BUFFER_CHAR_def Let_def same_scan_def)
  then obtain s' where s': "yyrestart env (yyin s) s = Ok s'" "current_buffer s' = Some b"
    "yy_bufs s' b = Some ?x" "yyin s' = Some f" "files s' = files s" "same_scan s s'" "yy_n_chars s' = 0"
    "yy_c_buf_p s' = 0" "yy_hold_char s' = CHR 0x00" by blast
  then show ?thesis
    using x buf by (intro exI [of _ ?x] exI [of _ s']) (simp add: refilling_def)
qed

section \<open>The whole refill\<close>

text \<open>
  The outcome of a refill with the text \<open>t\<close> being matched and \<open>q\<close> to come: more text behind \<open>t\<close>;
  at the end of the input, \<open>t\<close> alone as a last match, or end-of-file when there is no \<open>t\<close>.
\<close>

definition refilled :: "nat \<Rightarrow> string \<Rightarrow> string \<Rightarrow> yyscan \<Rightarrow> eob_act \<times> yyscan \<Rightarrow> bool" where
  "refilled b t q s r \<longleftrightarrow>
     (\<exists>x cs. filled b x (t @ cs) (drop (length cs) q) (snd r) \<and> cs = take (length cs) q
        \<and> same_scan s (snd r) \<and> yytext_ptr (snd r) = 0
        \<and> (if q \<noteq> [] then fst r = EOB_ACT_CONTINUE_SCAN \<and> cs \<noteq> []
           else if t = [] then fst r = EOB_ACT_END_OF_FILE \<and> cs = [] \<and> yy_c_buf_p (snd r) = 0
                               \<and> yy_hold_char (snd r) = CHR 0x00
           else fst r = EOB_ACT_LAST_MATCH \<and> cs = []))"

lemma after_read_refills:
  assumes "refilling b x (t @ cs) f (drop (length cs) q) s" "yy_n_chars s = length cs"
    and "cs = take (length cs) q" "q \<noteq> [] \<Longrightarrow> cs \<noteq> []" "yy_buffer_status x \<noteq> YY_BUFFER_NEW"
    and "yy_buffer_status x = YY_BUFFER_EOF_PENDING \<Longrightarrow> q = []"
  shows "\<exists>r. after_read env (int (length t)) s = Ok r \<and> refilled b t q s r"
proof (cases "q = []")
  case False
  have "\<exists>x' s'. finish_refill env (int (length t)) (EOB_ACT_CONTINUE_SCAN, s) = Ok (EOB_ACT_CONTINUE_SCAN, s')
      \<and> filled b x' (t @ cs) (drop (length cs) q) s' \<and> same_scan s s' \<and> yytext_ptr s' = 0"
    using finish_refill_filled [OF assms(1), of "length t" env EOB_ACT_CONTINUE_SCAN] assms(2,5,6) False
    by auto
  then show ?thesis
    using assms(2-4) False by (auto simp: after_read_finish refilled_def)
next
  case True
  then have cs: "cs = []" using assms(3) by simp
  show ?thesis
  proof (cases "t = []")
    case True
    from yyrestart_empties [of b x f s env] assms(1) \<open>q = []\<close> cs True obtain x1 s1 where
      r: "yyrestart env (yyin s) s = Ok s1" "refilling b x1 [] f [] s1" "same_scan s s1" "yy_n_chars s1 = 0"
        "b_n_chars x1 = 0" "yy_buffer_status x1 = YY_BUFFER_NEW" "yy_c_buf_p s1 = 0" "yy_hold_char s1 = CHR 0x00"
      by auto
    from finish_refill_filled [OF r(2), of 0 env EOB_ACT_END_OF_FILE] r(4-6) obtain x2 s2 where
      f: "finish_refill env 0 (EOB_ACT_END_OF_FILE, s1) = Ok (EOB_ACT_END_OF_FILE, s2)" "filled b x2 [] [] s2"
        "same_scan s1 s2" "yytext_ptr s2 = 0" "yy_c_buf_p s2 = yy_c_buf_p s1" "yy_hold_char s2 = yy_hold_char s1"
      by auto
    have "same_scan s s2" using r(3) f(3) by (simp add: same_scan_def)
    then show ?thesis
      using r(1,7,8) f assms(2) cs True \<open>q = []\<close> by (simp add: after_read_finish refilled_def) auto
  next
    case False
    let ?x = "x\<lparr>yy_buffer_status := YY_BUFFER_EOF_PENDING\<rparr>"
    have x: "refilling b ?x t f [] (put_buf b ?x s)" "current_buffer s = Some b" "yy_bufs s b = Some x"
      using assms(1) cs \<open>q = []\<close> by (auto simp: refilling_def)
    from finish_refill_filled [OF x(1), of "length t" env EOB_ACT_LAST_MATCH] assms(2) cs obtain x2 s2 where
      "finish_refill env (int (length t)) (EOB_ACT_LAST_MATCH, put_buf b ?x s) = Ok (EOB_ACT_LAST_MATCH, s2)"
      "filled b x2 t [] s2" "same_scan (put_buf b ?x s) s2" "yytext_ptr s2 = 0"
      by auto
    then show ?thesis
      using x assms(2) cs False \<open>q = []\<close> by (auto simp: after_read_finish refilled_def same_scan_def)
  qed
qed

lemma yy_get_next_buffer_refills:
  assumes "filled b x C q s" "yy_buffer_status x \<noteq> YY_BUFFER_NEW"
    and "yytext_ptr s = int p" "p \<le> length C" "yy_c_buf_p s = int (length C) + 1"
    and "length C - p + length q \<le> scan_limit" "\<And>n. alloc_ok env n" "yy_fill_buffer x"
  shows "\<exists>r. yy_get_next_buffer env s = Ok r \<and> refilled b (drop p C) q s r"
proof -
  let ?t = "drop p C"
  let ?buf = "?t @ drop (length ?t) (yy_ch_buf x)"
  obtain f junk where x: "current_buffer s = Some b" "yy_bufs s b = Some x" "text_buffer x C"
    "yy_n_chars s = length C" "yyin s = Some f" "files s f = stream_of q"
    "yy_ch_buf x = C @ CHR 0x00 # CHR 0x00 # junk" "yy_fill_buffer x" "yy_input_file x = Some f"
    using assms(1,8) by (auto simp: filled_def text_buffer_def)
  have small: "length C \<le> 2 * scan_limit + 2" using x(3) by (auto simp: text_buffer_def)
  have ntm: "to_int (yy_c_buf_p s - yytext_ptr s) - 1 = int (length ?t)"
    using assms(3-5) small by (simp add: to_int_id scan_limit_def of_nat_diff)
  have move: "move_chars (length ?t) (yytext_ptr s) 0 (yy_ch_buf x) = Some ?buf"
    using move_chars_eq [of 0 p "length ?t" "yy_ch_buf x"] assms(3,4) x(7) by simp
  let ?x1 = "x\<lparr>yy_ch_buf := ?buf\<rparr>"
  have ref: "refilling b (?x1\<lparr>b_n_chars := m\<rparr>) ?t f q ((put_buf b (?x1\<lparr>b_n_chars := m\<rparr>) s)\<lparr>yy_n_chars := n\<rparr>)"
    "refilling b ?x1 ?t f q (put_buf b ?x1 s)" for m n
    using x by (auto simp: refilling_def text_buffer_def)
  have start: "yy_get_next_buffer env s =
      obind (if yy_buffer_status x = YY_BUFFER_EOF_PENDING
             then Ok ((put_buf b (?x1\<lparr>b_n_chars := 0\<rparr>) s)\<lparr>yy_n_chars := 0\<rparr>)
             else read_more env (int (length ?t)) (put_buf b ?x1 s)) (after_read env (int (length ?t)))"
    using x assms(5) ntm move by (simp add: yy_get_next_buffer_def Let_def)
  show ?thesis
  proof (cases "yy_buffer_status x = YY_BUFFER_EOF_PENDING")
    case True
    then have q: "q = []" using assms(1) by (simp add: filled_def)
    have "\<exists>r. after_read env (int (length ?t)) ((put_buf b (?x1\<lparr>b_n_chars := 0\<rparr>) s)\<lparr>yy_n_chars := 0\<rparr>) = Ok r
        \<and> refilled b ?t q ((put_buf b (?x1\<lparr>b_n_chars := 0\<rparr>) s)\<lparr>yy_n_chars := 0\<rparr>) r"
      using ref(1) [of 0 0] q True by (intro after_read_refills [where cs = "[]"]) auto
    then show ?thesis using True start by (auto simp: refilled_def same_scan_def)
  next
    case False
    have "length ?t \<le> scan_limit" using assms(6) by simp
    from read_more_reads [OF ref(2) this assms(7)] obtain x2 s2 cs where
      m: "read_more env (int (length ?t)) (put_buf b ?x1 s) = Ok s2"
        "refilling b x2 (?t @ cs) f (drop (length cs) q) s2" "same_scan (put_buf b ?x1 s) s2"
        "yy_buffer_status x2 = yy_buffer_status x" "yy_n_chars s2 = length cs" "cs = take (length cs) q"
        "q \<noteq> [] \<longrightarrow> cs \<noteq> []" by auto
    have "\<exists>r. after_read env (int (length ?t)) s2 = Ok r \<and> refilled b ?t q s2 r"
      using m(4,7) assms(2) False by (intro after_read_refills [OF m(2,5,6)]) auto
    then obtain r where "after_read env (int (length ?t)) s2 = Ok r" "refilled b ?t q s2 r" by blast
    then show ?thesis using start m(1,3) False by (auto simp: refilled_def same_scan_def)
  qed
qed

text \<open>
  The same for any buffer, with a buffer in memory among them, which stays as it is: where the text
  being matched is now, \<open>p\<close>, and what the scanner is told.
\<close>

definition resumes :: "nat \<Rightarrow> string \<Rightarrow> string \<Rightarrow> yyscan \<Rightarrow> eob_act \<times> yyscan \<Rightarrow> bool" where
  "resumes b t q s r \<longleftrightarrow>
     (\<exists>x C p cs. filled b x C (drop (length cs) q) (snd r) \<and> cs = take (length cs) q
        \<and> drop p C = t @ cs \<and> p \<le> length C \<and> same_scan s (snd r) \<and> yytext_ptr (snd r) = int p
        \<and> (if q \<noteq> [] then fst r = EOB_ACT_CONTINUE_SCAN \<and> cs \<noteq> []
           else if t = [] then fst r = EOB_ACT_END_OF_FILE \<and> yy_hold_char (snd r) = CHR 0x00
           else fst r = EOB_ACT_LAST_MATCH))"

lemma refilled_resumes: "refilled b t q s r \<Longrightarrow> resumes b t q s r"
proof -
  assume "refilled b t q s r"
  then obtain x cs where "filled b x (t @ cs) (drop (length cs) q) (snd r)" "cs = take (length cs) q" "same_scan s (snd r)"
    "yytext_ptr (snd r) = 0"
    "if q \<noteq> [] then fst r = EOB_ACT_CONTINUE_SCAN \<and> cs \<noteq> []
     else if t = [] then fst r = EOB_ACT_END_OF_FILE \<and> cs = [] \<and> yy_c_buf_p (snd r) = 0 \<and> yy_hold_char (snd r) = CHR 0x00
     else fst r = EOB_ACT_LAST_MATCH \<and> cs = []"
    unfolding refilled_def by blast
  then show ?thesis
    unfolding resumes_def
    by (intro exI [of _ x] exI [of _ "t @ cs"] exI [of _ 0] exI [of _ cs]) (auto split: if_splits)
qed

lemma yy_get_next_buffer_memory:
  assumes "filled b x C q s" "\<not> yy_fill_buffer x" "yytext_ptr s = int p" "p \<le> length C"
    and "yy_c_buf_p s = int (length C) + 1" "yy_hold_char s = CHR 0x00"
  shows "\<exists>r. yy_get_next_buffer env s = Ok r \<and> resumes b (drop p C) q s r"
proof -
  have "yy_get_next_buffer env s = Ok (if p = length C then EOB_ACT_END_OF_FILE else EOB_ACT_LAST_MATCH, s)"
    using assms by (auto simp: yy_get_next_buffer_def filled_def)
  moreover have "resumes b (drop p C) q s (if p = length C then EOB_ACT_END_OF_FILE else EOB_ACT_LAST_MATCH, s)"
    unfolding resumes_def
    by (rule exI [of _ x], rule exI [of _ C], rule exI [of _ p], rule exI [of _ "[]"])
      (use assms in \<open>auto simp: filled_def same_scan_def\<close>)
  ultimately show ?thesis by blast
qed

lemma yy_get_next_buffer_resumes:
  assumes "filled b x C q s" "yy_buffer_status x \<noteq> YY_BUFFER_NEW"
    and "yytext_ptr s = int p" "p \<le> length C" "yy_c_buf_p s = int (length C) + 1" "yy_hold_char s = CHR 0x00"
    and "length C - p + length q \<le> scan_limit" "\<And>n. alloc_ok env n"
  shows "\<exists>r. yy_get_next_buffer env s = Ok r \<and> resumes b (drop p C) q s r"
proof (cases "yy_fill_buffer x")
  case True
  then show ?thesis using yy_get_next_buffer_refills [OF assms(1-5,7,8)] refilled_resumes by blast
next
  case False
  then show ?thesis using yy_get_next_buffer_memory [OF assms(1) _ assms(3-6)] by blast
qed

end
