(* ===== verification/Scanner_Match.thy ===== *)
theory Scanner_Match
  imports Scanner_Lex Scanner_Refill
begin

text \<open>
  Matching: from a position in the buffer, the loop of \<open>yylex\<close> finds the longest token, across
  refills and NUL characters in the input, and arrives at the action of its rule.
\<close>

section \<open>Texts the automaton can extend\<close>

text \<open>A NUL byte in the input counts as a character of class 1, an invalid one.\<close>

definition rule_class :: "char \<Rightarrow> int" where
  "rule_class c = (if c = CHR 0x00 then 1 else class_of (of_char c))"

definition open_text :: "string \<Rightarrow> bool" where
  "open_text t \<longleftrightarrow> t = [CHR 0x00] \<or> list_all is_digit t"

definition text_state :: "string \<Rightarrow> int" where
  "text_state t =
     (if t = [] then 1 else if t = [CHR 0x00] then 4 else if length t = 1 then 8 else 10)"

lemma class_of_NUL: "class_of (of_char c) = 0 \<longleftrightarrow> c = CHR 0x00"
proof -
  have "of_char c = (0 :: nat) \<longleftrightarrow> c = CHR 0x00" by (cases c) (auto simp: of_char_def horner_sum_simps)
  then show ?thesis by (simp add: class_of_def)
qed

lemma class_of_digit: "class_of (of_char c) = 5 \<longleftrightarrow> is_digit c"
  by (auto simp: class_of_def is_digit_def Let_def)

lemma rule_class_digit: "rule_class c = 5 \<longleftrightarrow> is_digit c"
  by (auto simp: rule_class_def class_of_digit) (simp add: is_digit_def)

lemma rule_class_range: "1 \<le> rule_class c \<and> rule_class c \<le> 6"
  using class_of_range [of "of_char c"] class_of_NUL [of c] by (auto simp: rule_class_def)

lemma not_digit_NUL [simp]: "\<not> is_digit (CHR 0x00)"
  by (simp add: is_digit_def)

lemma text_state_dfa: "dfa_state (text_state t)"
  by (simp add: text_state_def dfa_state_def)

lemma text_state_accept:
  "open_text t \<Longrightarrow> t \<noteq> [] \<Longrightarrow> dfa_accept (text_state t) = (if t = [CHR 0x00] then 5 else 2)"
  by (simp add: text_state_def dfa_accept_def)

text \<open>What the automaton does after an open text.\<close>

lemma text_state_snoc:
  "open_text t \<Longrightarrow> is_digit c \<Longrightarrow> t \<noteq> [CHR 0x00] \<Longrightarrow>
     open_text (t @ [c]) \<and> dfa (text_state t) 5 = text_state (t @ [c])"
  by (auto simp: open_text_def text_state_def dfa_def)

lemma text_state_jam:
  "open_text t \<Longrightarrow> t \<noteq> [] \<Longrightarrow> 1 \<le> k \<Longrightarrow> k = 5 \<longrightarrow> t = [CHR 0x00] \<Longrightarrow> dfa (text_state t) k = 11"
  by (auto simp: open_text_def text_state_def dfa_def)

lemma dfa_NUL: "dfa (text_state t) 0 = 3"
  by (simp add: dfa_def text_state_def)

section \<open>Transitions\<close>

text \<open>Transitions only touch the accepting state and position last seen.\<close>

definition last_seen :: "yyscan \<Rightarrow> yyscan \<Rightarrow> bool" where
  "last_seen s s' \<longleftrightarrow> (\<exists>a p. s' = s\<lparr>yy_last_accepting_state := a, yy_last_accepting_cpos := p\<rparr>)"

lemma last_seen_refl: "last_seen s s"
  unfolding last_seen_def by (intro exI [of _ "yy_last_accepting_state s"] exI [of _ "yy_last_accepting_cpos s"]) simp

lemma last_seen_trans: "last_seen s t \<Longrightarrow> last_seen t u \<Longrightarrow> last_seen s u"
  unfolding last_seen_def by (elim exE) (hypsubst, intro exI, simp)

lemma filled_simps [simp]:
  "filled b x C q (s\<lparr>yy_last_accepting_state := a\<rparr>) = filled b x C q s"
  "filled b x C q (s\<lparr>yy_last_accepting_cpos := p\<rparr>) = filled b x C q s"
  "filled b x C q (s\<lparr>yytext_ptr := p\<rparr>) = filled b x C q s"
  "filled b x C q (s\<lparr>yy_c_buf_p := p\<rparr>) = filled b x C q s"
  "filled b x C q (s\<lparr>yyleng := n\<rparr>) = filled b x C q s"
  "filled b x C q (s\<lparr>yy_hold_char := c\<rparr>) = filled b x C q s"
  "filled b x C q (s\<lparr>yy_log := m\<rparr>) = filled b x C q s"
  "filled b x C q (s\<lparr>yy_did_buffer_switch_on_eof := d\<rparr>) = filled b x C q s"
  by (simp_all add: filled_def)

lemma last_seen_filled: "last_seen s s' \<Longrightarrow> filled b x C q s' = filled b x C q s"
  by (auto simp: last_seen_def)

lemma last_seen_same:
  "last_seen s s' \<Longrightarrow> same_scan s s' \<and> yytext_ptr s' = yytext_ptr s \<and> yy_c_buf_p s' = yy_c_buf_p s"
  by (auto simp: last_seen_def same_scan_def)

lemma yy_advance_eq:
  assumes "dfa_state q" "0 \<le> c" "c \<le> 6"
  shows "yy_advance q cp c s =
    Ok (dfa q c, if dfa_accept q \<noteq> 0
                 then s\<lparr>yy_last_accepting_state := q, yy_last_accepting_cpos := cp\<rparr> else s)"
  using assms by (simp add: yy_advance_def table_simps Let_def)

lemma yy_advance_last_seen:
  assumes "dfa_state q" "0 \<le> c" "c \<le> 6"
  obtains s' where "yy_advance q cp c s = Ok (dfa q c, s')" "last_seen s s'"
proof
  show "yy_advance q cp c s = Ok (dfa q c, if dfa_accept q \<noteq> 0
                 then s\<lparr>yy_last_accepting_state := q, yy_last_accepting_cpos := cp\<rparr> else s)"
    by (rule yy_advance_eq [OF assms])
qed (auto simp: last_seen_refl, auto simp: last_seen_def)

text \<open>\<open>yy_get_previous_state\<close> recomputes the state of an open text.\<close>

lemma previous_state_open:
  assumes "filled b x C q s" "p + length u + length r \<le> length C" "take (length r) (drop (p + length u) C) = r"
    and "open_text (u @ r)"
  shows "\<exists>s'. previous_state (length r) (int (p + length u)) (text_state u) s = Ok (text_state (u @ r), s')
           \<and> last_seen s s'"
  using assms
proof (induction r arbitrary: u s)
  case Nil
  then show ?case by (simp add: last_seen_refl)
next
  case (Cons c r)
  have c: "C ! (p + length u) = c" "take (length r) (drop (p + length (u @ [c])) C) = r"
    using Cons.prems(2,3) by (auto simp: take_Suc_conv_app_nth Cons_nth_drop_Suc [symmetric])
  have pk: "peek (int (p + length u)) s = Ok c"
    using filled_peek [OF Cons.prems(1), of "p + length u"] Cons.prems(2) c(1) by (simp add: nth_append)
  have cl: "(if c \<noteq> CHR 0x00 then rd yy_ec (YY_SC_TO_UI c) else Some 1) = Some (rule_class c)"
    by (simp add: rule_class_def table_simps)
  have u: "dfa (text_state u) (rule_class c) = text_state (u @ [c])"
  proof (cases "is_digit c")
    case True
    then have "open_text u" "u \<noteq> [CHR 0x00]"
      using Cons.prems(4) by (auto simp: open_text_def append_eq_Cons_conv)
    with text_state_snoc True rule_class_digit [of c] show ?thesis by simp
  next
    case False
    then have "u = []" "c = CHR 0x00" using Cons.prems(4) by (auto simp: open_text_def Cons_eq_append_conv append_eq_Cons_conv)
    then show ?thesis by (simp add: text_state_def dfa_def rule_class_def)
  qed
  obtain s1 where s1: "yy_advance (text_state u) (int (p + length u)) (rule_class c) s = Ok (text_state (u @ [c]), s1)"
    "last_seen s s1"
    using yy_advance_last_seen [OF text_state_dfa, of "rule_class c" u "int (p + length u)" s] rule_class_range [of c] u
    by auto
  have "\<exists>s'. previous_state (length r) (int (p + length (u @ [c]))) (text_state (u @ [c])) s1
      = Ok (text_state ((u @ [c]) @ r), s') \<and> last_seen s1 s'"
    using Cons.prems last_seen_filled [OF s1(2)] c(2) by (intro Cons.IH) auto
  moreover have "previous_state (length (c # r)) (int (p + length u)) (text_state u) s
      = previous_state (length r) (int (p + length (u @ [c]))) (text_state (u @ [c])) s1"
    using pk cl s1(1) by (simp add: ac_simps)
  ultimately show ?case using s1(2) last_seen_trans by auto
qed

section \<open>Before and after an action\<close>

text \<open>
  The scanner with a token set up: the text \<open>C\<close> of the buffer with a NUL at \<open>e\<close>, the
  character it replaced in \<open>yy_hold_char\<close>, the token from \<open>p\<close> on.
\<close>

definition held :: "nat \<Rightarrow> yy_buffer_state \<Rightarrow> string \<Rightarrow> string \<Rightarrow> nat \<Rightarrow> nat \<Rightarrow> yyscan \<Rightarrow> bool" where
  "held b x C q p e s \<longleftrightarrow>
     e \<le> length C + 1 \<and> (\<exists>s0. filled b x C q s0 \<and> same_scan s0 s \<and> YY_DO_BEFORE_ACTION (int e) (int p) s0 = Ok s)"

lemma before_action_eq:
  assumes "filled b x C q s" "e \<le> length C + 1"
  shows "YY_DO_BEFORE_ACTION (int e) (int p) s =
    Ok ((put_buf b (x\<lparr>yy_ch_buf := (yy_ch_buf x)[e := CHR 0x00]\<rparr>)
          (s\<lparr>yytext_ptr := int p, yyleng := to_size (int e - int p), yy_hold_char := yy_ch_buf x ! e\<rparr>))
        \<lparr>yy_c_buf_p := int e\<rparr>)"
proof -
  have "current_buffer s = Some b" "yy_bufs s b = Some x" "e < length (yy_ch_buf x)"
    using assms by (auto simp: filled_def text_buffer_def)
  then show ?thesis by (simp add: YY_DO_BEFORE_ACTION_def peek_def poke_eq)
qed

lemma held_before_action:
  assumes "filled b x C q s" "e \<le> length C + 1"
  shows "\<exists>s1. YY_DO_BEFORE_ACTION (int e) (int p) s = Ok s1 \<and> held b x C q p e s1 \<and> same_scan s s1"
  using before_action_eq [OF assms] assms unfolding held_def by (fastforce simp: same_scan_def)

lemma held_eq:
  assumes "held b x C q p e s"
  shows "yytext_ptr s = int p \<and> yy_c_buf_p s = int e \<and> current_buffer s = Some b
    \<and> yy_bufs s b = Some (x\<lparr>yy_ch_buf := (yy_ch_buf x)[e := CHR 0x00]\<rparr>)
    \<and> yy_hold_char s = yy_ch_buf x ! e"
  using assms before_action_eq unfolding held_def by (fastforce simp: filled_def)

lemma held_poke:
  assumes "held b x C q p e s"
  shows "\<exists>s'. poke (int e) (yy_hold_char s) s = Ok s' \<and> filled b x C q s' \<and> same_scan s s'
           \<and> yytext_ptr s' = int p \<and> yy_c_buf_p s' = int e \<and> yy_hold_char s' = yy_hold_char s"
proof -
  obtain s0 where s0: "filled b x C q s0" "e \<le> length C + 1"
    "s = (put_buf b (x\<lparr>yy_ch_buf := (yy_ch_buf x)[e := CHR 0x00]\<rparr>)
          (s0\<lparr>yytext_ptr := int p, yyleng := to_size (int e - int p), yy_hold_char := yy_ch_buf x ! e\<rparr>))
        \<lparr>yy_c_buf_p := int e\<rparr>"
    using assms before_action_eq by (auto simp: held_def)
  have e: "e < length (yy_ch_buf x)" using s0(1,2) by (auto simp: filled_def text_buffer_def)
  then have "poke (int e) (yy_hold_char s) s = Ok (put_buf b x s)"
    using held_eq [OF assms] by (simp add: poke_eq)
  moreover have "filled b x C q (put_buf b x s)"
    using s0(1) unfolding s0(3) by (auto simp: filled_def)
  ultimately show ?thesis using held_eq [OF assms] by (simp add: same_scan_def)
qed

lemma held_peek:
  assumes "held b x C q p e s" "p < e" "p < length C"
  shows "peek (int p) s = Ok (C ! p)"
proof -
  obtain junk where "yy_ch_buf x = C @ junk" using assms(1) by (auto simp: held_def filled_def text_buffer_def)
  then show ?thesis using held_eq [OF assms(1)] assms(2,3) by (simp add: peek_def nth_append)
qed

lemma held_cstring:
  assumes "held b x C q p e s" "p \<le> e" "e \<le> length C" "CHR 0x00 \<notin> set (take (e - p) (drop p C))"
  shows "cstring (int p) ((yy_ch_buf x)[e := CHR 0x00]) = Some (take (e - p) (drop p C))"
proof -
  obtain c junk where buf: "yy_ch_buf x = take e C @ c # junk"
  proof -
    obtain j where "yy_ch_buf x = C @ CHR 0x00 # j"
      using assms(1) by (auto simp: held_def filled_def text_buffer_def)
    then have "yy_ch_buf x = take e C @ (drop e C @ CHR 0x00 # j)"
      by (simp only: append_assoc [symmetric] append_take_drop_id)
    with that show thesis by (cases "drop e C") auto
  qed
  have "drop p ((yy_ch_buf x)[e := CHR 0x00]) = take (e - p) (drop p C) @ CHR 0x00 # junk"
    using assms(2,3) by (simp add: buf list_update_append drop_take)
  then show ?thesis
    using assms(4) by (auto simp: cstring_def takeWhile_append takeWhile_eq_all_conv)
qed

section \<open>The matching loop\<close>

definition lexing :: "cint \<Rightarrow> string \<Rightarrow> yylexer \<Rightarrow> bool" where
  "lexing v m x \<longleftrightarrow> l_yylval x = v \<and> yy_log (l_scan x) = m \<and> yy_start (l_scan x) = 1 \<and> yy_init (l_scan x)"

text \<open>In the loop: the open text from \<open>p\<close> to \<open>e\<close> has been read.\<close>

definition matching ::
  "nat \<Rightarrow> yy_buffer_state \<Rightarrow> string \<Rightarrow> string \<Rightarrow> nat \<Rightarrow> nat \<Rightarrow> cint \<Rightarrow> string \<Rightarrow> yylexer \<Rightarrow> bool" where
  "matching b B C q p e v m x \<longleftrightarrow>
     l_pc x = yy_match \<and> filled b B C q (l_scan x) \<and> lexing v m x
     \<and> yy_bp x = int p \<and> yy_cp x = int e \<and> p \<le> e \<and> e \<le> length C
     \<and> open_text (take (e - p) (drop p C)) \<and> yy_current_state x = text_state (take (e - p) (drop p C))"

text \<open>At the action of a rule, for the text from \<open>p\<close> to \<open>e\<close>.\<close>

definition acting ::
  "nat \<Rightarrow> yy_buffer_state \<Rightarrow> string \<Rightarrow> string \<Rightarrow> nat \<Rightarrow> nat \<Rightarrow> int \<Rightarrow> cint \<Rightarrow> string \<Rightarrow> yylexer \<Rightarrow> bool" where
  "acting b B C q p e act v m x \<longleftrightarrow>
     l_pc x = do_action \<and> yy_act x = act \<and> yy_cp x = int e \<and> held b B C q p e (l_scan x) \<and> lexing v m x"

definition gets_to :: "lexenv \<Rightarrow> yylexer \<Rightarrow> (yylexer \<Rightarrow> bool) \<Rightarrow> bool" where
  "gets_to env x P \<longleftrightarrow> (\<exists>y. lex_run env x = lex_run env y \<and> P y)"

lemma gets_to_refl: "P x \<Longrightarrow> gets_to env x P"
  by (auto simp: gets_to_def)

lemma gets_to_step: "l_pc x \<noteq> Lex_returned \<Longrightarrow> lex_step env x = Ok y \<Longrightarrow> gets_to env y P \<Longrightarrow> gets_to env x P"
  by (auto simp: gets_to_def lex_run_def owhile_step)

lemma gets_to_trans: "gets_to env x Q \<Longrightarrow> (\<And>y. Q y \<Longrightarrow> gets_to env y P) \<Longrightarrow> gets_to env x P"
  unfolding gets_to_def by metis

lemma same_scan_lexing:
  "same_scan (l_scan x) s \<Longrightarrow> l_scan y = s \<Longrightarrow> l_yylval y = l_yylval x \<Longrightarrow> lexing v m x \<Longrightarrow> lexing v m y"
  by (auto simp: lexing_def same_scan_def)

lemma find_action_acts:
  assumes "l_pc x = yy_find_action" "filled b B C q (l_scan x)" "lexing v m x" "yy_bp x = int p" "e \<le> length C + 1"
    and "dfa_state (yy_current_state x)"
    and "(if dfa_accept (yy_current_state x) = 0
          then dfa_state (yy_last_accepting_state (l_scan x)) \<and> yy_last_accepting_cpos (l_scan x) = int e
               \<and> act = dfa_accept (yy_last_accepting_state (l_scan x))
          else yy_cp x = int e \<and> act = dfa_accept (yy_current_state x))"
  shows "gets_to env x (acting b B C q p e act v m)"
proof -
  obtain s1 where s1: "YY_DO_BEFORE_ACTION (int e) (int p) (l_scan x) = Ok s1" "held b B C q p e s1"
    "same_scan (l_scan x) s1"
    using held_before_action [OF assms(2,5)] by blast
  let ?y = "if dfa_accept (yy_current_state x) = 0
    then x\<lparr>yy_cp := int e, yy_current_state := yy_last_accepting_state (l_scan x), yy_act := act,
           l_pc := do_action, l_scan := s1\<rparr>
    else x\<lparr>yy_act := act, l_pc := do_action, l_scan := s1\<rparr>"
  have "lex_step env x = Ok ?y"
    using assms(1,4,6,7) s1(1) by (simp add: lex_step_def do_yy_find_action_def table_simps)
  moreover have "acting b B C q p e act v m ?y"
    using s1 assms(3,7) by (simp add: acting_def lexing_def same_scan_def)
  ultimately show ?thesis
    using assms(1) by (intro gets_to_step [OF _ _ gets_to_refl]) auto
qed

lemma match_step:
  assumes "l_pc x = yy_match" "filled b B C q (l_scan x)" "dfa_state (yy_current_state x)"
    and "yy_cp x = int i" "i < length C + 2" "k = class_of (of_char ((C @ [CHR 0x00, CHR 0x00]) ! i))"
  shows "lex_step env x =
    Ok (x\<lparr>l_pc := (if dfa (yy_current_state x) k \<in> {1, 3, 8, 10} then yy_match else yy_find_action),
          yy_cp := int i + 1, yy_current_state := dfa (yy_current_state x) k,
          l_scan := (if dfa_accept (yy_current_state x) \<noteq> 0
                     then (l_scan x)\<lparr>yy_last_accepting_state := yy_current_state x,
                                     yy_last_accepting_cpos := int i\<rparr> else l_scan x)\<rparr>)"
proof -
  have k: "0 \<le> k" "k \<le> 6" using class_of_range assms(6) by simp_all
  have pk: "peek (int i) (l_scan x) = Ok ((C @ [CHR 0x00, CHR 0x00]) ! i)"
    by (rule filled_peek [OF assms(2,5)])
  show ?thesis
    using assms(1,4) pk yy_advance_eq [OF assms(3) k, of "int i" "l_scan x"]
      yy_base_dfa [OF dfa_state_dfa [OF assms(3) k]]
    unfolding lex_step_def do_yy_match_def by (simp add: table_simps assms(6))
qed

text \<open>The character after the text read so far decides.\<close>

lemma matching_dfa: "matching b B C q p e v m x \<Longrightarrow> dfa_state (yy_current_state x)"
  by (simp add: matching_def text_state_dfa)

lemma take_snoc: "p \<le> e \<Longrightarrow> e < length C \<Longrightarrow> take (Suc e - p) (drop p C) = take (e - p) (drop p C) @ [C ! e]"
  by (simp add: Suc_diff_le take_Suc_conv_app_nth)

lemma match_digit:
  assumes "matching b B C q p e v m x" "e < length C" "is_digit (C ! e)" "take (e - p) (drop p C) \<noteq> [CHR 0x00]"
  shows "gets_to env x (matching b B C q p (Suc e) v m)"
proof -
  let ?t = "take (e - p) (drop p C)"
  have x: "l_pc x = yy_match" "filled b B C q (l_scan x)" "yy_cp x = int e" "p \<le> e" "lexing v m x"
    "yy_current_state x = text_state ?t" "open_text ?t" "yy_bp x = int p"
    using assms(1) by (simp_all add: matching_def)
  have k: "(5 :: int) = class_of (of_char ((C @ [CHR 0x00, CHR 0x00]) ! e))"
    using assms(2,3) class_of_digit by (simp add: nth_append)
  have next1: "open_text (?t @ [C ! e])" "dfa (text_state ?t) 5 = text_state (?t @ [C ! e])"
    using text_state_snoc [OF x(7) assms(3,4)] by simp_all
  have loop: "text_state (?t @ [C ! e]) \<in> {1, 3, 8, 10}"
    using assms(3) by (auto simp: text_state_def append_eq_Cons_conv)
  show ?thesis
    by (rule gets_to_step [OF _ match_step [OF x(1,2) matching_dfa [OF assms(1)] x(3) _ k] gets_to_refl])
      (use x assms(2) next1 loop take_snoc [OF x(4) assms(2)] in
        \<open>auto simp: matching_def lexing_def\<close>)
qed

lemma match_single:
  assumes "matching b B C q p p v m x" "p < length C" "\<not> is_digit (C ! p)" "C ! p \<noteq> CHR 0x00"
  shows "gets_to env x (acting b B C q p (Suc p) (dfa_accept (rule_class (C ! p) + 3)) v m)"
proof -
  let ?k = "rule_class (C ! p)"
  have x: "l_pc x = yy_match" "filled b B C q (l_scan x)" "yy_cp x = int p" "lexing v m x"
    "yy_current_state x = 1" "yy_bp x = int p"
    using assms(1) by (simp_all add: matching_def text_state_def)
  have k: "?k = class_of (of_char ((C @ [CHR 0x00, CHR 0x00]) ! p))"
    using assms(2,4) by (simp add: nth_append rule_class_def)
  have r: "1 \<le> ?k" "?k \<le> 6" "?k \<noteq> 5" using rule_class_range rule_class_digit assms(3) by auto
  let ?y = "x\<lparr>l_pc := yy_find_action, yy_cp := int p + 1, yy_current_state := ?k + 3\<rparr>"
  have dfa: "dfa 1 ?k = ?k + 3" "\<not> dfa 1 ?k \<in> {1, 3, 8, 10}" "dfa_accept 1 = 0" "dfa_state (?k + 3)"
    using r by (auto simp: dfa_def dfa_accept_def dfa_state_def)
  have step: "lex_step env x = Ok ?y"
    using match_step [OF x(1,2) matching_dfa [OF assms(1)] x(3) _ k] assms(2) x(5) dfa
    by (simp del: insert_iff)
  have "\<not> dfa_accept (?k + 3) = 0" using r by (auto simp: dfa_accept_def)
  then have "gets_to env ?y (acting b B C q p (Suc p) (dfa_accept (?k + 3)) v m)"
    using x dfa(4) assms(2) by (intro find_action_acts) (auto simp: lexing_def)
  then show ?thesis using gets_to_step [OF _ step] x(1) by simp
qed

lemma match_stop:
  assumes "matching b B C q p e v m x" "e < length C" "C ! e \<noteq> CHR 0x00"
    and "take (e - p) (drop p C) \<noteq> []" "is_digit (C ! e) \<Longrightarrow> take (e - p) (drop p C) = [CHR 0x00]"
  shows "gets_to env x (acting b B C q p e (dfa_accept (text_state (take (e - p) (drop p C)))) v m)"
proof -
  let ?t = "take (e - p) (drop p C)"
  let ?k = "class_of (of_char (C ! e))"
  have x: "l_pc x = yy_match" "filled b B C q (l_scan x)" "yy_cp x = int e" "lexing v m x"
    "yy_current_state x = text_state ?t" "open_text ?t" "yy_bp x = int p"
    using assms(1) by (simp_all add: matching_def)
  have k: "?k = class_of (of_char ((C @ [CHR 0x00, CHR 0x00]) ! e))" using assms(2) by (simp add: nth_append)
  have "1 \<le> ?k" using class_of_range [of "of_char (C ! e)"] class_of_NUL [of "C ! e"] assms(3) by auto
  then have jam: "dfa (text_state ?t) ?k = 11"
    using text_state_jam [OF x(6) assms(4)] assms(5) class_of_digit by blast
  have acc: "dfa_accept (text_state ?t) \<noteq> 0" using text_state_accept [OF x(6) assms(4)] by simp
  let ?y = "x\<lparr>l_pc := yy_find_action, yy_cp := int e + 1, yy_current_state := 11,
     l_scan := (l_scan x)\<lparr>yy_last_accepting_state := text_state ?t, yy_last_accepting_cpos := int e\<rparr>\<rparr>"
  have step: "lex_step env x = Ok ?y"
    using match_step [OF x(1,2) matching_dfa [OF assms(1)] x(3) _ k] assms(2) x(5) jam acc by simp
  have "gets_to env ?y (acting b B C q p e (dfa_accept (text_state ?t)) v m)"
    using x assms(2) text_state_dfa
    by (intro find_action_acts) (auto simp: lexing_def dfa_state_def dfa_accept_def)
  then show ?thesis using gets_to_step [OF _ step] x(1) by simp
qed

lemma match_NUL:
  assumes "matching b B C q p e v m x" "(C @ [CHR 0x00, CHR 0x00]) ! e = CHR 0x00"
  shows "gets_to env x (acting b B C q p (Suc e) 7 v m)"
proof -
  let ?t = "take (e - p) (drop p C)"
  let ?k = "class_of (of_char ((C @ [CHR 0x00, CHR 0x00]) ! Suc e))"
  have x: "l_pc x = yy_match" "filled b B C q (l_scan x)" "yy_cp x = int e" "lexing v m x" "e \<le> length C"
    "yy_current_state x = text_state ?t" "yy_bp x = int p"
    using assms(1) by (simp_all add: matching_def)
  have k: "0 = class_of (of_char ((C @ [CHR 0x00, CHR 0x00]) ! e))" using assms(2) by (simp add: class_of_def)
  let ?s1 = "if dfa_accept (text_state ?t) \<noteq> 0
     then (l_scan x)\<lparr>yy_last_accepting_state := text_state ?t, yy_last_accepting_cpos := int e\<rparr> else l_scan x"
  let ?x1 = "x\<lparr>yy_cp := int (Suc e), yy_current_state := 3, l_scan := ?s1\<rparr>"
  let ?x2 = "x\<lparr>l_pc := yy_find_action, yy_cp := int (Suc e) + 1, yy_current_state := 11,
     l_scan := ?s1\<lparr>yy_last_accepting_state := 3, yy_last_accepting_cpos := int (Suc e)\<rparr>\<rparr>"
  have step1: "lex_step env x = Ok ?x1"
    using match_step [OF x(1,2) matching_dfa [OF assms(1)] x(3) _ k] x dfa_NUL [of ?t] by (simp add: add.commute)
  have x1: "l_pc ?x1 = yy_match" "filled b B C q (l_scan ?x1)" "dfa_state (yy_current_state ?x1)"
    "yy_cp ?x1 = int (Suc e)" using x by (auto simp: dfa_state_def)
  have jam: "dfa 3 k = 11" for k by (simp add: dfa_def)
  have step2: "lex_step env ?x1 = Ok ?x2"
    using match_step [OF x1 _ refl] x(5) jam by (simp add: dfa_accept_def)
  have "gets_to env ?x2 (acting b B C q p (Suc e) 7 v m)"
    using x by (intro find_action_acts) (auto simp: lexing_def dfa_state_def dfa_accept_def)
  then have "gets_to env ?x1 (acting b B C q p (Suc e) 7 v m)"
    using gets_to_step [OF _ step2] x(1) by simp
  then show ?thesis using gets_to_step [OF _ step1] x(1) by simp
qed

section \<open>The end of the buffer\<close>

lemma new_file_check_filled:
  assumes "filled b B C q s"
  shows "\<exists>B' s'. new_file_check s = Ok s' \<and> filled b B' C q s' \<and> yy_buffer_status B' \<noteq> YY_BUFFER_NEW
           \<and> same_scan s s' \<and> yytext_ptr s' = yytext_ptr s \<and> yy_c_buf_p s' = yy_c_buf_p s
           \<and> yy_hold_char s' = yy_hold_char s"
proof (cases "yy_buffer_status B = YY_BUFFER_NEW")
  case True
  let ?B = "B\<lparr>yy_input_file := yyin s, yy_buffer_status := YY_BUFFER_NORMAL\<rparr>"
  let ?s = "(put_buf b ?B s)\<lparr>yy_n_chars := b_n_chars B\<rparr>"
  have "new_file_check s = Ok ?s" "filled b ?B C q ?s"
    using assms True by (auto simp: new_file_check_def filled_def text_buffer_def)
  then show ?thesis by (intro exI [of _ ?B] exI [of _ ?s]) (simp add: same_scan_def)
next
  case False
  then have "new_file_check s = Ok s" using assms by (simp add: new_file_check_def filled_def)
  then show ?thesis using assms False by (intro exI [of _ B] exI [of _ s]) (simp add: same_scan_def)
qed

lemma previous_state_text:
  assumes "filled b B C q s" "yytext_ptr s = int p" "yy_c_buf_p s = int e" "p \<le> e" "e \<le> length C"
    and "open_text (take (e - p) (drop p C))" "yy_start s = 1"
  shows "\<exists>s'. yy_get_previous_state s = Ok (text_state (take (e - p) (drop p C)), s') \<and> last_seen s s'"
proof -
  let ?t = "take (e - p) (drop p C)"
  have "length ?t = e - p" "nat (yy_c_buf_p s - yytext_ptr s) = e - p" "text_state [] = yy_start s"
    using assms(2-5,7) by (simp_all add: text_state_def nat_diff_distrib')
  then show ?thesis
    using previous_state_open [OF assms(1), of p "[]" ?t] assms(2,4-6)
    by (simp add: yy_get_previous_state_def)
qed

text \<open>Up to the test of the position: the buffer is whole again and its status is not ``new''.\<close>

lemma do_end_of_buffer_enters:
  assumes "acting b B C q p (Suc e) 7 v m x" "p \<le> e" "e \<le> length C"
  shows "\<exists>B' s. lex_step env x =
             (if Suc e \<le> length C then really_a_NUL (int (e - p)) x s else end_of_buffer env (int (e - p)) x s)
           \<and> filled b B' C q s \<and> yy_buffer_status B' \<noteq> YY_BUFFER_NEW \<and> same_scan (l_scan x) s
           \<and> yytext_ptr s = int p \<and> yy_c_buf_p s = int (Suc e)
           \<and> yy_hold_char s = (C @ [CHR 0x00, CHR 0x00]) ! Suc e"
proof -
  have x: "l_pc x = do_action" "yy_act x = 7" "yy_cp x = int (Suc e)" "held b B C q p (Suc e) (l_scan x)"
    using assms(1) by (simp_all add: acting_def)
  obtain s1 where s1: "poke (int (Suc e)) (yy_hold_char (l_scan x)) (l_scan x) = Ok s1" "filled b B C q s1"
    "same_scan (l_scan x) s1" "yytext_ptr s1 = int p" "yy_c_buf_p s1 = int (Suc e)"
    "yy_hold_char s1 = yy_hold_char (l_scan x)"
    using held_poke [OF x(4)] by blast
  obtain B' s2 where s2: "new_file_check s1 = Ok s2" "filled b B' C q s2" "yy_buffer_status B' \<noteq> YY_BUFFER_NEW"
    "same_scan s1 s2" "yytext_ptr s2 = yytext_ptr s1" "yy_c_buf_p s2 = yy_c_buf_p s1"
    "yy_hold_char s2 = yy_hold_char s1"
    using new_file_check_filled [OF s1(2)] by blast
  have small: "length C \<le> 2 * scan_limit + 2" using s1(2) by (auto simp: filled_def text_buffer_def)
  have amount: "to_int (yy_cp x - yytext_ptr (l_scan x)) - 1 = int (e - p)"
    using held_eq [OF x(4)] x(3) assms(2,3) small by (simp add: to_int_id scan_limit_def of_nat_diff)
  have n: "yy_n_chars s2 = length C" using s2(2) by (simp add: filled_def)
  have "lex_step env x =
      (if Suc e \<le> length C then really_a_NUL (int (e - p)) x s2 else end_of_buffer env (int (e - p)) x s2)"
    using x(1-3) amount s1(1,5) s2(1,6) n
    by (simp add: lex_step_def do_do_action_def do_end_of_buffer_def YY_STATE_EOF_def YY_END_OF_BUFFER_def Let_def
        del: of_nat_Suc)
  moreover have "same_scan (l_scan x) s2" using s1(3) s2(4) by (simp add: same_scan_def)
  moreover have "yy_hold_char (l_scan x) = (C @ [CHR 0x00, CHR 0x00]) ! Suc e"
  proof -
    obtain junk where "yy_ch_buf B = (C @ [CHR 0x00, CHR 0x00]) @ junk"
      using s1(2) by (auto simp: filled_def text_buffer_def)
    moreover have "Suc e < length (C @ [CHR 0x00, CHR 0x00])" using assms(3) by simp
    ultimately show ?thesis using held_eq [OF x(4)] nth_append_left by metis
  qed
  ultimately show ?thesis using s1 s2 by (intro exI [of _ B'] exI [of _ s2]) simp
qed

text \<open>A NUL that is part of the input.\<close>

lemma eob_real_NUL:
  assumes "acting b B C q p (Suc e) 7 v m x" "p \<le> e" "e < length C" "C ! e = CHR 0x00"
    and t: "t = take (e - p) (drop p C)" "open_text t"
  shows "\<exists>B'. if t = [] then gets_to env x (matching b B' C q p (Suc e) v m)
              else gets_to env x (acting b B' C q p e (dfa_accept (text_state t)) v m)"
proof -
  have lx: "l_pc x \<noteq> Lex_returned" "lexing v m x" using assms(1) by (simp_all add: acting_def)
  obtain B' s where s: "lex_step env x = really_a_NUL (int (e - p)) x s" "filled b B' C q s"
    "same_scan (l_scan x) s" "yytext_ptr s = int p"
    using do_end_of_buffer_enters [OF assms(1,2), of env] assms(3) by auto
  let ?s1 = "s\<lparr>yy_c_buf_p := int p + int (e - p)\<rparr>"
  have st: "yy_start s = 1" "yy_log s = m" "yy_init s" using lx(2) s(3) by (simp_all add: lexing_def same_scan_def)
  have cp: "yy_c_buf_p ?s1 = int e" using assms(2) by (simp add: of_nat_diff)
  obtain s2 where s2: "yy_get_previous_state ?s1 = Ok (text_state t, s2)" "last_seen ?s1 s2"
    using previous_state_text [of b B' C q ?s1 p e] s(2,4) cp assms(2,3) t st by auto
  obtain s3 where s3: "yy_advance (text_state t) (int e) 1 s2 = Ok (dfa (text_state t) 1, s3)" "last_seen s2 s3"
    using yy_advance_last_seen [OF text_state_dfa] by (metis zero_le_one one_le_numeral)
  have f3: "filled b B' C q s3" "same_scan ?s1 s3" "yytext_ptr s3 = int p" "yy_c_buf_p s3 = int e"
    using last_seen_trans [OF s2(2) s3(2)] last_seen_filled [of ?s1 s3] last_seen_same [of ?s1 s3] s(2,4) cp by auto
  have nul: "yy_try_NUL_trans (text_state t) s2 = Ok (if t = [] then 4 else 0, s3)"
  proof -
    have "dfa (text_state t) 1 = (if t = [] then 4 else 11)"
      using text_state_jam [OF t(2), of 1] by (auto simp: text_state_def dfa_def)
    then show ?thesis using s3(1) last_seen_same [OF s2(2)] cp by (simp add: yy_try_NUL_trans_def)
  qed
  show ?thesis
  proof (cases "t = []")
    case True
    then have ep: "e = p" using t(1) assms(2,3) by simp
    let ?y = "x\<lparr>l_pc := yy_match, yy_cp := int (Suc e), yy_bp := int p, yy_current_state := 4,
               l_scan := s3\<lparr>yy_c_buf_p := int (Suc e)\<rparr>\<rparr>"
    have "lex_step env x = Ok ?y"
      using s(1,4) s2(1) nul f3 True by (simp add: really_a_NUL_def Let_def add.commute)
    moreover have "matching b B' C q p (Suc e) v m ?y"
      using f3 lx(2) st assms(3,4) ep
      by (simp add: matching_def lexing_def same_scan_def take_Suc_conv_app_nth open_text_def text_state_def)
    ultimately show ?thesis using True lx(1) gets_to_step gets_to_refl by metis
  next
    case False
    let ?y = "x\<lparr>l_pc := yy_find_action, yy_cp := int e, yy_bp := int p, yy_current_state := text_state t,
               l_scan := s3\<rparr>"
    have step: "lex_step env x = Ok ?y"
      using s(1,4) s2(1) nul f3 False by (simp add: really_a_NUL_def Let_def)
    have "gets_to env ?y (acting b B' C q p e (dfa_accept (text_state t)) v m)"
      using f3 lx(2) st assms(3) text_state_dfa text_state_accept [OF t(2) False]
      by (intro find_action_acts) (auto simp: lexing_def same_scan_def)
    then show ?thesis using gets_to_step [OF lx(1) step] False by auto
  qed
qed

text \<open>The end of the text in the buffer.\<close>

definition at_eof :: "nat \<Rightarrow> yy_buffer_state \<Rightarrow> cint \<Rightarrow> string \<Rightarrow> yylexer \<Rightarrow> bool" where
  "at_eof b B v m x \<longleftrightarrow>
     l_pc x = do_action \<and> yy_act x = 8 \<and> lexing v m x
     \<and> (\<exists>C. filled b B C [] (l_scan x) \<and> yy_c_buf_p (l_scan x) = int (length C))
     \<and> yy_hold_char (l_scan x) = CHR 0x00"

text \<open>What the scanner goes on with after the end of the buffer, with the text \<open>t\<close> read and \<open>q\<close> to come.\<close>

definition goes_on :: "lexenv \<Rightarrow> nat \<Rightarrow> string \<Rightarrow> string \<Rightarrow> cint \<Rightarrow> string \<Rightarrow> yylexer \<Rightarrow> bool" where
  "goes_on env b t q v m x \<longleftrightarrow>
     (\<exists>B C p cs. cs = take (length cs) q \<and> drop p C = t @ cs \<and> p \<le> length C
        \<and> (if q \<noteq> [] then cs \<noteq> [] \<and> gets_to env x (matching b B C (drop (length cs) q) p (p + length t) v m)
           else if t = [] then gets_to env x (at_eof b B v m)
           else gets_to env x (acting b B C [] p (length C) (dfa_accept (text_state t)) v m)))"

text \<open>The state recomputed for the text after a refill.\<close>

lemma drop_prefix_le: "drop p C = t @ cs \<Longrightarrow> p \<le> length C \<Longrightarrow> p + length t \<le> length C"
  using length_drop [of p C] by simp

lemma resumes_previous_state:
  assumes "filled b B C q s" "drop p C = t @ cs" "p \<le> length C" "yytext_ptr s = int p" "yy_start s = 1" "open_text t"
  shows "\<exists>s2. yy_get_previous_state (s\<lparr>yy_c_buf_p := int (p + length t)\<rparr>) = Ok (text_state t, s2) \<and> filled b B C q s2
           \<and> same_scan s s2 \<and> yytext_ptr s2 = int p \<and> yy_c_buf_p s2 = int (p + length t)"
proof -
  let ?s = "s\<lparr>yy_c_buf_p := int (p + length t)\<rparr>"
  have t: "take (p + length t - p) (drop p C) = t" "p + length t \<le> length C"
    using assms(2) drop_prefix_le [OF assms(2,3)] by simp_all
  then obtain s2 where "yy_get_previous_state ?s = Ok (text_state t, s2)" "last_seen ?s s2"
    using previous_state_text [of b B C q ?s p "p + length t"] assms by auto
  then show ?thesis
    using last_seen_filled [of ?s s2] last_seen_same [of ?s s2] assms(1,4) by (auto simp: same_scan_def)
qed

lemma eob_resumes:
  assumes "lexing v m x" "l_pc x \<noteq> Lex_returned" "open_text t"
    and "lex_step env x = end_of_buffer env (int (length t)) x s" "same_scan (l_scan x) s"
    and "yy_get_next_buffer env s = Ok (act, s1)" "resumes b t q s (act, s1)"
  shows "goes_on env b t q v m x"
proof -
  obtain B C p cs where cs: "filled b B C (drop (length cs) q) s1" "cs = take (length cs) q" "drop p C = t @ cs"
    "p \<le> length C" "same_scan s s1" "yytext_ptr s1 = int p"
    "if q \<noteq> [] then act = EOB_ACT_CONTINUE_SCAN \<and> cs \<noteq> []
     else if t = [] then act = EOB_ACT_END_OF_FILE \<and> yy_hold_char s1 = CHR 0x00 else act = EOB_ACT_LAST_MATCH"
    using assms(7) unfolding resumes_def fst_conv snd_conv by blast
  have st: "yy_start s1 = 1" "yy_log s1 = m" "yy_init s1" "l_yylval x = v"
    using assms(1,5) cs(5) by (simp_all add: lexing_def same_scan_def)
  obtain s2 where s2: "yy_get_previous_state (s1\<lparr>yy_c_buf_p := int (p + length t)\<rparr>) = Ok (text_state t, s2)"
    "filled b B C (drop (length cs) q) s2" "same_scan s1 s2" "yytext_ptr s2 = int p" "yy_c_buf_p s2 = int (p + length t)"
    using resumes_previous_state [OF cs(1,3,4,6) st(1) assms(3)] by blast
  have step: "gets_to env x P" if "lex_step env x = Ok y" "gets_to env y P" for y P
    using gets_to_step [OF assms(2) that] .
  consider "q \<noteq> []" | "q = []" "t = []" | "q = []" "t \<noteq> []" by blast
  then have "if q \<noteq> [] then cs \<noteq> [] \<and> gets_to env x (matching b B C (drop (length cs) q) p (p + length t) v m)
           else if t = [] then gets_to env x (at_eof b B v m)
           else gets_to env x (acting b B C [] p (length C) (dfa_accept (text_state t)) v m)"
  proof cases
    case 1
    let ?y = "x\<lparr>l_pc := yy_match, yy_cp := int (p + length t), yy_bp := int p, yy_current_state := text_state t, l_scan := s2\<rparr>"
    have "matching b B C (drop (length cs) q) p (p + length t) v m ?y"
      using s2 st assms(3) cs(3) drop_prefix_le [OF cs(3,4)] by (auto simp: matching_def lexing_def same_scan_def)
    moreover have "lex_step env x = Ok ?y" using assms(4,6) cs(6,7) s2(1,4,5) 1 by (simp add: end_of_buffer_def)
    ultimately show ?thesis using 1 cs(7) step gets_to_refl by metis
  next
    case 2
    let ?y = "x\<lparr>l_pc := do_action, yy_act := YY_STATE_EOF 0,
               l_scan := s1\<lparr>yy_did_buffer_switch_on_eof := False, yy_c_buf_p := int p\<rparr>\<rparr>"
    have "p = length C" using cs(2-4) 2 by auto
    then have "at_eof b B v m ?y"
      using cs(1,2,7) st 2 by (auto simp: at_eof_def lexing_def YY_STATE_EOF_def YY_END_OF_BUFFER_def)
    moreover have "lex_step env x = Ok ?y" using assms(4,6) cs(6,7) 2 st(1) by (simp add: end_of_buffer_def)
    ultimately show ?thesis using 2 step gets_to_refl by metis
  next
    case 3
    let ?y = "x\<lparr>l_pc := yy_find_action, yy_cp := int (p + length t), yy_bp := int p, yy_current_state := text_state t,
               l_scan := s2\<rparr>"
    have n: "yy_n_chars s1 = length C" "length C = p + length t" "cs = []"
      using cs(1-4) 3 by (auto simp: filled_def dest: arg_cong [where f = length])
    then have "lex_step env x = Ok ?y" using assms(4,6) cs(6,7) s2(1,4,5) 3 by (simp add: end_of_buffer_def)
    moreover have "gets_to env ?y (acting b B C [] p (length C) (dfa_accept (text_state t)) v m)"
      using s2 st n 3 text_state_dfa text_state_accept [OF assms(3) 3(2)]
      by (intro find_action_acts) (auto simp: lexing_def same_scan_def)
    ultimately show ?thesis using 3 step by metis
  qed
  then show ?thesis unfolding goes_on_def using cs(2-4) by blast
qed

lemma eob_refill:
  assumes "acting b B C q p (Suc (length C)) 7 v m x" "p \<le> length C" "t = drop p C" "open_text t"
    and "length t + length q \<le> scan_limit" "\<And>n. alloc_ok env n"
  shows "goes_on env b t q v m x"
proof -
  have lx: "l_pc x \<noteq> Lex_returned" "lexing v m x" using assms(1) by (simp_all add: acting_def)
  have amount: "int (length C - p) = int (length t)" using assms(3) by simp
  obtain B1 s where s: "lex_step env x = end_of_buffer env (int (length t)) x s" "filled b B1 C q s"
    "yy_buffer_status B1 \<noteq> YY_BUFFER_NEW" "same_scan (l_scan x) s" "yytext_ptr s = int p"
    "yy_c_buf_p s = int (length C) + 1" "yy_hold_char s = CHR 0x00"
    using do_end_of_buffer_enters [OF assms(1,2) order.refl, of env] amount by (auto simp: add.commute nth_append)
  have "length C - p + length q \<le> scan_limit" using assms(3,5) by simp
  from yy_get_next_buffer_resumes [OF s(2,3,5) assms(2) s(6,7) this assms(6)] obtain act s1 where
    "yy_get_next_buffer env s = Ok (act, s1)" "resumes b t q s (act, s1)" using assms(3) by fastforce
  from eob_resumes [OF lx(2,1) assms(4) s(1,4) this] show ?thesis .
qed

end
