(* ===== verification/Calc_Spec.thy ===== *)
theory Calc_Spec
  imports Prelude
begin

text \<open>
  What the calculator promises, said without an automaton: the tokens, and an evaluator by
  precedence climbing that runs a token list directly (the grammar and the precedences of
  \<open>src/packetdrill/calc.y\<close>: \<open>*\<close> and \<open>/\<close> bind tighter than \<open>+\<close> and \<open>-\<close>, all four
  associate to the left). \<open>d\<close> is the number of entries the parser stack holds when an
  operand starts, since the stack of \<open>yyparse\<close> is limited: a token that would become entry
  number \<open>lim\<close> (counted from 0) ends the run with \<open>NoMem\<close>.
\<close>

datatype tok =
  TInt cint | TVar nat | TPlus | TMinus | TTimes | TDiv | TNl | TEq | TLp | TRp

datatype pres = Val cint "tok list" | SyntaxErr | TrapErr | NoMem

fun mul_op :: "tok \<Rightarrow> (cint \<Rightarrow> cint \<Rightarrow> cint option) option" where
  "mul_op TTimes = Some (\<lambda>a b. Some (a * b))"
| "mul_op TDiv = Some c_div"
| "mul_op _ = None"

fun add_op :: "tok \<Rightarrow> (cint \<Rightarrow> cint \<Rightarrow> cint option) option" where
  "add_op TPlus = Some (\<lambda>a b. Some (a + b))"
| "add_op TMinus = Some (\<lambda>a b. Some (a - b))"
| "add_op _ = None"

text \<open>Continue with a value, unless the run has already ended.\<close>

fun pbind :: "pres \<Rightarrow> (cint \<Rightarrow> tok list \<Rightarrow> pres) \<Rightarrow> pres" where
  "pbind (Val v ts) k = k v ts"
| "pbind SyntaxErr k = SyntaxErr"
| "pbind TrapErr k = TrapErr"
| "pbind NoMem k = NoMem"

lemma pbind_cong [fundef_cong]:
  "p = q \<Longrightarrow> (\<And>v ts. q = Val v ts \<Longrightarrow> k v ts = k' v ts) \<Longrightarrow> pbind p k = pbind q k'"
  by (cases q) auto

text \<open>Apply an operator and go on, or trap.\<close>

definition apply_op :: "cint option \<Rightarrow> (cint \<Rightarrow> pres) \<Rightarrow> pres" where
  "apply_op r k = (case r of None \<Rightarrow> TrapErr | Some v \<Rightarrow> k v)"

lemma apply_op_cong [fundef_cong]:
  "r = r' \<Longrightarrow> (\<And>v. r' = Some v \<Longrightarrow> k v = k' v) \<Longrightarrow> apply_op r k = apply_op r' k'"
  by (auto simp: apply_op_def split: option.split)

lemma pbind_assoc: "pbind (pbind p k) k' = pbind p (\<lambda>v ts. pbind (k v ts) k')"
  by (cases p) simp_all

lemma pbind_Val: "pbind p k = Val w r \<longleftrightarrow> (\<exists>v ts. p = Val v ts \<and> k v ts = Val w r)"
  by (cases p) auto

lemma apply_op_Val: "apply_op o1 k = Val w r \<longleftrightarrow> (\<exists>v. o1 = Some v \<and> k v = Val w r)"
  by (auto simp: apply_op_def split: option.split)

definition guard_depth :: "nat \<Rightarrow> nat \<Rightarrow> pres \<Rightarrow> pres" where
  "guard_depth lim d p = (if d < lim then p else NoMem)"

lemma guard_depth_cong [fundef_cong]:
  "d = d' \<Longrightarrow> (d' < lim \<Longrightarrow> p = p') \<Longrightarrow> guard_depth lim d p = guard_depth lim d' p'"
  by (simp add: guard_depth_def)

lemma guard_depth_Val: "guard_depth lim d p = Val w r \<longleftrightarrow> d < lim \<and> p = Val w r"
  by (simp add: guard_depth_def)

text \<open>After the expression in parentheses, the closing one is stack entry \<open>d\<close>.\<close>

fun close_paren :: "nat \<Rightarrow> nat \<Rightarrow> cint \<Rightarrow> tok list \<Rightarrow> pres" where
  "close_paren lim d w (TRp # ts) = guard_depth lim d (Val w ts)"
| "close_paren lim d w ts = SyntaxErr"

lemma close_paren_Val:
  "close_paren lim d w ts = Val w' r \<longleftrightarrow> ts = TRp # r \<and> w' = w \<and> d < lim"
  by (cases "(lim, d, w, ts)" rule: close_paren.cases) (auto simp: guard_depth_Val)

lemmas pres_Val = pbind_Val apply_op_Val guard_depth_Val close_paren_Val

function (domintros)
      operand :: "nat \<Rightarrow> cint list \<Rightarrow> nat \<Rightarrow> tok list \<Rightarrow> pres"
  and term_rest :: "nat \<Rightarrow> cint list \<Rightarrow> nat \<Rightarrow> cint \<Rightarrow> tok list \<Rightarrow> pres"
  and expr_rest :: "nat \<Rightarrow> cint list \<Rightarrow> nat \<Rightarrow> cint \<Rightarrow> tok list \<Rightarrow> pres"
where
  "operand lim sy d ts =
     (case ts of
        TInt n # r \<Rightarrow> guard_depth lim d (Val n r)
      | TVar i # r \<Rightarrow> guard_depth lim d (Val (sy ! i) r)
      | TLp # r \<Rightarrow>
          guard_depth lim d
            (pbind (operand lim sy (d + 1) r)
               (\<lambda>v r1. pbind (expr_rest lim sy (d + 1) v r1)
                  (close_paren lim (d + 2))))
      | _ \<Rightarrow> SyntaxErr)"
| "term_rest lim sy d v ts =
     (case ts of
        [] \<Rightarrow> Val v ts
      | t # r \<Rightarrow>
          (case mul_op t of
             None \<Rightarrow> Val v ts
           | Some f \<Rightarrow>
               guard_depth lim (d + 1)
                 (pbind (operand lim sy (d + 2) r)
                    (\<lambda>b r1. apply_op (f v b) (\<lambda>w. term_rest lim sy d w r1)))))"
| "expr_rest lim sy d v ts =
     (case ts of
        [] \<Rightarrow> Val v ts
      | t # r \<Rightarrow>
          (case mul_op t of
             Some f \<Rightarrow>
               guard_depth lim (d + 1)
                 (pbind (operand lim sy (d + 2) r)
                    (\<lambda>b r1. apply_op (f v b) (\<lambda>w. expr_rest lim sy d w r1)))
           | None \<Rightarrow>
               (case add_op t of
                  None \<Rightarrow> Val v ts
                | Some f \<Rightarrow>
                    guard_depth lim (d + 1)
                      (pbind (operand lim sy (d + 2) r)
                         (\<lambda>b r1. pbind (term_rest lim sy (d + 2) b r1)
                            (\<lambda>c r2. apply_op (f v c) (\<lambda>w. expr_rest lim sy d w r2)))))))"
  by pat_completeness auto

text \<open>How a value can come about, wherever the functions are defined.\<close>

lemma operand_ValE:
  assumes "operand_term_rest_expr_rest_dom (Inl (lim, sy, d, ts))" "operand lim sy d ts = Val w r"
  obtains (leaf) t where "ts = t # r" "d < lim" "t = TInt w \<or> (\<exists>i. t = TVar i \<and> w = sy ! i)"
    | (paren) q v r1 where "ts = TLp # q" "d < lim" "operand lim sy (d + 1) q = Val v r1"
      "expr_rest lim sy (d + 1) v r1 = Val w (TRp # r)" "d + 2 < lim"
  using assms by (auto simp: operand.psimps pres_Val split: list.splits tok.splits)

lemma term_rest_ValE:
  assumes "operand_term_rest_expr_rest_dom (Inr (Inl (lim, sy, d, v, ts)))" "term_rest lim sy d v ts = Val w r"
  obtains (stop) "w = v" "r = ts"
    | (mul) t q f b r1 x where "ts = t # q" "mul_op t = Some f" "d + 1 < lim" "operand lim sy (d + 2) q = Val b r1"
      "f v b = Some x" "term_rest lim sy d x r1 = Val w r"
  using assms by (auto simp: term_rest.psimps pres_Val split: list.splits option.splits)

lemma expr_rest_ValE:
  assumes "operand_term_rest_expr_rest_dom (Inr (Inr (lim, sy, d, v, ts)))" "expr_rest lim sy d v ts = Val w r"
  obtains (stop) "w = v" "r = ts"
    | (mul) t q f b r1 x where "ts = t # q" "mul_op t = Some f" "d + 1 < lim" "operand lim sy (d + 2) q = Val b r1"
      "f v b = Some x" "expr_rest lim sy d x r1 = Val w r"
    | (add) t q f b r1 c r2 x where "ts = t # q" "mul_op t = None" "add_op t = Some f" "d + 1 < lim"
      "operand lim sy (d + 2) q = Val b r1" "term_rest lim sy (d + 2) b r1 = Val c r2" "f v c = Some x"
      "expr_rest lim sy d x r2 = Val w r"
  using assms by (auto simp: expr_rest.psimps pres_Val split: list.splits option.splits)

lemma rest_shorter_dom:
  "operand_term_rest_expr_rest_dom (Inl (lim, sy, d, ts)) \<Longrightarrow>
     operand lim sy d ts = Val w r \<Longrightarrow> length r < length ts"
  "operand_term_rest_expr_rest_dom (Inr (Inl (lim, sy, d, v, ts))) \<Longrightarrow>
     term_rest lim sy d v ts = Val w r \<Longrightarrow> length r \<le> length ts"
  "operand_term_rest_expr_rest_dom (Inr (Inr (lim, sy, d, v, ts))) \<Longrightarrow>
     expr_rest lim sy d v ts = Val w r \<Longrightarrow> length r \<le> length ts"
proof (induction arbitrary: w r and w r and w r rule: operand_term_rest_expr_rest.pinduct)
  case (1 lim sy d ts)
  from "1.hyps" "1.prems" show ?case
  proof (cases rule: operand_ValE)
    case paren
    then show ?thesis using "1.IH"(1) [OF paren(1) refl paren(2,3)] "1.IH"(2) [OF paren(1) refl paren(2,3,4)] by simp
  qed simp
next
  case (2 lim sy d v ts)
  from "2.hyps" "2.prems" show ?case
  proof (cases rule: term_rest_ValE)
    case mul
    then show ?thesis using "2.IH"(1) [OF mul(1-4)] "2.IH"(2) [OF mul(1-6)] by simp
  qed simp
next
  case (3 lim sy d v ts)
  from "3.hyps" "3.prems" show ?case
  proof (cases rule: expr_rest_ValE)
    case mul
    then show ?thesis using "3.IH"(4) [OF mul(1-4)] "3.IH"(5) [OF mul(1-6)] by simp
  next
    case add
    then show ?thesis using "3.IH"(1) [OF add(1-5)] "3.IH"(2) [OF add(1-6)] "3.IH"(3) [OF add(1-8)] by simp
  qed simp
qed

definition parse_size where
  "parse_size x = (case x of
          Inl (lim :: nat, sy :: cint list, d :: nat, ts :: tok list) \<Rightarrow> length ts
        | Inr (Inl (lim :: nat, sy :: cint list, d :: nat, v :: cint, ts :: tok list)) \<Rightarrow> length ts
        | Inr (Inr (lim :: nat, sy :: cint list, d :: nat, v :: cint, ts :: tok list)) \<Rightarrow> length ts)"

lemma parse_dom: "operand_term_rest_expr_rest_dom x"
proof -
  have "All operand_term_rest_expr_rest_dom"
    by (rule "operand_term_rest_expr_rest.termination" [of "measure parse_size"])
      (fastforce simp: parse_size_def dest: rest_shorter_dom)+
  then show ?thesis ..
qed

termination operand
  using parse_dom by blast

declare operand.simps [simp del] term_rest.simps [simp del] expr_rest.simps [simp del]

lemma operand_simps [simp]:
  "operand lim sy d (TInt n # r) = guard_depth lim d (Val n r)"
  "operand lim sy d (TVar i # r) = guard_depth lim d (Val (sy ! i) r)"
  "operand lim sy d (TLp # r) =
     guard_depth lim d
       (pbind (operand lim sy (d + 1) r)
          (\<lambda>v r1. pbind (expr_rest lim sy (d + 1) v r1) (close_paren lim (d + 2))))"
  by (simp_all add: operand.simps [of lim sy d "_ # _"])

text \<open>The tokens an operand can start with.\<close>

fun starts_operand :: "tok list \<Rightarrow> bool" where
  "starts_operand (TInt n # r) = True"
| "starts_operand (TVar i # r) = True"
| "starts_operand (TLp # r) = True"
| "starts_operand _ = False"

lemma operand_SyntaxErr [simp]: "\<not> starts_operand ts \<Longrightarrow> operand lim sy d ts = SyntaxErr"
  by (cases ts rule: starts_operand.cases) (simp_all add: operand.simps [of lim sy d "_ # _"] operand.simps [of lim sy d "[]"])

lemma term_rest_simps [simp]:
  "term_rest lim sy d v [] = Val v []"
  "mul_op t = None \<Longrightarrow> term_rest lim sy d v (t # r) = Val v (t # r)"
  "mul_op t = Some f \<Longrightarrow> term_rest lim sy d v (t # r) =
     guard_depth lim (d + 1)
       (pbind (operand lim sy (d + 2) r)
          (\<lambda>b r1. apply_op (f v b) (\<lambda>w. term_rest lim sy d w r1)))"
  by (simp_all add: term_rest.simps [of lim sy d v "_ # _"] term_rest.simps [of lim sy d v "[]"])

lemma expr_rest_simps [simp]:
  "expr_rest lim sy d v [] = Val v []"
  "mul_op t = None \<Longrightarrow> add_op t = None \<Longrightarrow> expr_rest lim sy d v (t # r) = Val v (t # r)"
  "mul_op t = Some f \<Longrightarrow> expr_rest lim sy d v (t # r) =
     guard_depth lim (d + 1)
       (pbind (operand lim sy (d + 2) r)
          (\<lambda>b r1. apply_op (f v b) (\<lambda>w. expr_rest lim sy d w r1)))"
  "mul_op t = None \<Longrightarrow> add_op t = Some f \<Longrightarrow> expr_rest lim sy d v (t # r) =
     guard_depth lim (d + 1)
       (pbind (operand lim sy (d + 2) r)
          (\<lambda>b r1. pbind (term_rest lim sy (d + 2) b r1)
             (\<lambda>c r2. apply_op (f v c) (\<lambda>w. expr_rest lim sy d w r2))))"
  by (simp_all add: expr_rest.simps [of lim sy d v "_ # _"] expr_rest.simps [of lim sy d v "[]"])

lemma operand_shorter: "operand lim sy d ts = Val w r \<Longrightarrow> length r < length ts"
  by (rule rest_shorter_dom(1) [OF parse_dom])

lemma expr_rest_shorter: "expr_rest lim sy d v ts = Val w r \<Longrightarrow> length r \<le> length ts"
  by (rule rest_shorter_dom(3) [OF parse_dom])

section \<open>Statements and programs\<close>

definition expr :: "nat \<Rightarrow> cint list \<Rightarrow> nat \<Rightarrow> tok list \<Rightarrow> pres" where
  "expr lim sy d ts = pbind (operand lim sy d ts) (expr_rest lim sy d)"

lemma expr_shorter: "expr lim sy d ts = Val w r \<Longrightarrow> length r < length ts"
  by (fastforce simp: expr_def pbind_Val dest: operand_shorter expr_rest_shorter)

text \<open>How a run ends: what \<open>yyparse\<close> returns, the variables, standard output and error.\<close>

datatype calc_end =
    Returns int "cint list" string string
  | Traps "cint list" string

definition syntax_error_end :: "cint list \<Rightarrow> string \<Rightarrow> calc_end" where
  "syntax_error_end sy out = Returns 1 sy out ''syntax error\<newline>''"

definition no_memory_end :: "cint list \<Rightarrow> string \<Rightarrow> calc_end" where
  "no_memory_end sy out = Returns 2 sy out ''memory exhausted\<newline>''"

text \<open>A statement leaves new variables, new output and the tokens after its newline.\<close>

datatype stmt_end = Goes_on "cint list" string "tok list" | Ends calc_end

fun end_of_line :: "cint list \<Rightarrow> string \<Rightarrow> tok list \<Rightarrow> stmt_end" where
  "end_of_line sy out (TNl # ts) = Goes_on sy out ts"
| "end_of_line sy out ts = Ends (syntax_error_end sy out)"

fun with_value ::
  "cint list \<Rightarrow> string \<Rightarrow> pres \<Rightarrow> (cint \<Rightarrow> tok list \<Rightarrow> stmt_end) \<Rightarrow> stmt_end" where
  "with_value sy out (Val v ts) k = k v ts"
| "with_value sy out SyntaxErr k = Ends (syntax_error_end sy out)"
| "with_value sy out TrapErr k = Ends (Traps sy out)"
| "with_value sy out NoMem k = Ends (no_memory_end sy out)"

definition printed :: "cint \<Rightarrow> string" where
  "printed v = dec_int (sint v) @ ''\<newline>''"

text \<open>
  \<open>VARIABLE '=' expr\<close> stores, any other statement is an expression and prints. Two entries
  are below a statement on the parser stack; an assignment's expression has two more.
\<close>

fun statement :: "nat \<Rightarrow> cint list \<Rightarrow> string \<Rightarrow> tok list \<Rightarrow> stmt_end" where
  "statement lim sy out (TVar i # TEq # ts) =
     with_value sy out (expr lim sy 4 ts) (\<lambda>v r. end_of_line (sy[i := v]) out r)"
| "statement lim sy out ts =
     with_value sy out (expr lim sy 2 ts) (\<lambda>v r. end_of_line sy (out @ printed v) r)"

lemma end_of_line_Goes_on:
  "end_of_line sy out ts = Goes_on sy' out' r \<longleftrightarrow> ts = TNl # r \<and> sy' = sy \<and> out' = out"
  by (cases "(sy, out, ts)" rule: end_of_line.cases) auto

lemma with_value_Goes_on:
  "with_value sy out p k = Goes_on sy' out' r
     \<longleftrightarrow> (\<exists>v ts. p = Val v ts \<and> k v ts = Goes_on sy' out' r)"
  by (cases p) auto

lemma statement_shorter: "statement lim sy out ts = Goes_on sy' out' r \<Longrightarrow> length r < length ts"
  by (cases "(lim, sy, out, ts)" rule: statement.cases)
    (fastforce simp: with_value_Goes_on end_of_line_Goes_on dest: expr_shorter)+

function program :: "nat \<Rightarrow> cint list \<Rightarrow> string \<Rightarrow> tok list \<Rightarrow> calc_end" where
  "program lim sy out ts =
     (if ts = [] then Returns 0 sy out ''''
      else case statement lim sy out ts of
             Ends e \<Rightarrow> e
           | Goes_on sy' out' r \<Rightarrow> program lim sy' out' r)"
  by pat_completeness auto
termination
  by (relation "measure (\<lambda>(lim, sy, out, ts). length ts)") (auto dest: statement_shorter)

declare program.simps [simp del]

end
