(* ===== verification/Parser_Stack.thy ===== *)
theory Parser_Stack
  imports Parser_Machine Calc_Spec
begin

text \<open>
  The stack discipline of \<open>yyparse\<close>: how many entries the stacks can hold in a given memory
  environment, the relation between the parser's arrays and the abstract stacks they hold, and
  the runs of the blocks that push a state, pop everything after a syntax error and return.
\<close>

section \<open>How deep the stacks grow\<close>

text \<open>
  The stacks start at \<open>YYINITDEPTH\<close> cells and double up to \<open>YYMAXDEPTH\<close>, as long as
  \<open>malloc\<close> gives the memory. From \<open>sz\<close> cells, the run ends when entry \<open>limit_from env sz\<close>
  is pushed.
\<close>

function limit_from :: "cenv \<Rightarrow> nat \<Rightarrow> nat" where
  "limit_from env sz =
     (let n = min YYMAXDEPTH (sz * 2) in
      if sz = 0 \<or> YYMAXDEPTH \<le> sz \<or> \<not> malloc_ok env (YYSTACK_BYTES n) then sz - 1
      else limit_from env n)"
  by pat_completeness auto
termination
  by (relation "measure (\<lambda>(env, sz). YYMAXDEPTH - sz)") auto

declare limit_from.simps [simp del]

definition stack_limit :: "cenv \<Rightarrow> nat" where
  "stack_limit env = limit_from env YYINITDEPTH"

lemma limit_from_ge: "sz - 1 \<le> limit_from env sz"
proof (induction env sz rule: limit_from.induct)
  case (1 env sz)
  show ?case
  proof (cases "sz = 0 \<or> YYMAXDEPTH \<le> sz \<or> \<not> malloc_ok env (YYSTACK_BYTES (min YYMAXDEPTH (sz * 2)))")
    case True
    then show ?thesis by (subst limit_from.simps) (auto simp: Let_def)
  next
    case False
    with "1.IH" [OF refl] have "min YYMAXDEPTH (sz * 2) - 1 \<le> limit_from env (min YYMAXDEPTH (sz * 2))"
      by blast
    with False show ?thesis by (subst limit_from.simps) (auto simp: Let_def)
  qed
qed

lemma limit_from_le: "sz \<le> YYMAXDEPTH \<Longrightarrow> limit_from env sz < YYMAXDEPTH"
proof (induction env sz rule: limit_from.induct)
  case (1 env sz)
  show ?case
  proof (cases "sz = 0 \<or> YYMAXDEPTH \<le> sz \<or> \<not> malloc_ok env (YYSTACK_BYTES (min YYMAXDEPTH (sz * 2)))")
    case True
    with "1.prems" show ?thesis by (subst limit_from.simps) (auto simp: Let_def YYMAXDEPTH_def)
  next
    case False
    with "1.IH" [OF refl] show ?thesis by (subst limit_from.simps) (auto simp: Let_def)
  qed
qed

lemma stack_limit_ge: "199 \<le> stack_limit env"
  using limit_from_ge [of YYINITDEPTH env] by (simp add: stack_limit_def YYINITDEPTH_def)

lemma stack_limit_le: "stack_limit env < YYMAXDEPTH"
  unfolding stack_limit_def by (rule limit_from_le) (simp add: YYINITDEPTH_def YYMAXDEPTH_def)

lemma limit_from_malloc:
  "(\<And>n. malloc_ok env n) \<Longrightarrow> 0 < sz \<Longrightarrow> sz \<le> YYMAXDEPTH \<Longrightarrow> limit_from env sz = YYMAXDEPTH - 1"
proof (induction env sz rule: limit_from.induct)
  case (1 env sz)
  show ?case
  proof (cases "YYMAXDEPTH \<le> sz")
    case True
    with "1.prems" show ?thesis by (subst limit_from.simps) (simp add: Let_def)
  next
    case False
    with "1.IH" [OF refl] "1.prems" show ?thesis
      by (subst limit_from.simps) (auto simp: Let_def YYMAXDEPTH_def)
  qed
qed

section \<open>Arrays and the stacks they hold\<close>

definition good_states :: "int list \<Rightarrow> bool" where
  "good_states ss \<longleftrightarrow> (\<forall>q \<in> set ss. 0 \<le> q \<and> q \<le> 21)"

text \<open>What every block keeps.\<close>

definition frame :: "cenv \<Rightarrow> 'l yyparser \<Rightarrow> bool" where
  "frame env s \<longleftrightarrow>
     yylen s = 0 \<and> yyerrstatus s = 0
     \<and> heap_blocks s = (if yyss_moved s then 1 else 0)
     \<and> length (yyss s) = yystacksize s \<and> length (yyvs s) = yystacksize s
     \<and> YYINITDEPTH \<le> yystacksize s \<and> yystacksize s \<le> YYMAXDEPTH
     \<and> limit_from env (yystacksize s) = stack_limit env"

text \<open>The arrays hold the states \<open>ss\<close> and the values \<open>vs\<close>, bottom first.\<close>

definition on_stack :: "'l yyparser \<Rightarrow> int list \<Rightarrow> cint list \<Rightarrow> bool" where
  "on_stack s ss vs \<longleftrightarrow>
     ss \<noteq> [] \<and> length vs = length ss \<and> good_states ss
     \<and> take (length ss) (yyss s) = ss \<and> take (length ss) (yyvs s) = vs
     \<and> yyssp s = int (length ss) - 1 \<and> yyvsp s = int (length ss) - 1
     \<and> length ss < yystacksize s \<and> yystate s = last ss"

text \<open>The value \<open>v\<close> is pushed and the state \<open>q\<close> is about to be.\<close>

definition pushing :: "'l yyparser \<Rightarrow> int list \<Rightarrow> cint list \<Rightarrow> int \<Rightarrow> cint \<Rightarrow> bool" where
  "pushing s ss vs q v \<longleftrightarrow>
     ss \<noteq> [] \<and> length vs = length ss \<and> good_states (ss @ [q])
     \<and> take (length ss) (yyss s) = ss \<and> take (Suc (length ss)) (yyvs s) = vs @ [v]
     \<and> yyssp s = int (length ss) - 1 \<and> yyvsp s = int (length ss)
     \<and> length ss < yystacksize s \<and> yystate s = q"

text \<open>What a run has to show in the end.\<close>

definition returned :: "int \<Rightarrow> cint list \<Rightarrow> string \<Rightarrow> string \<Rightarrow> 'l \<Rightarrow> 'l yyparser \<Rightarrow> bool" where
  "returned r sy out err l s \<longleftrightarrow>
     pc s = Returned \<and> yyresult s = r \<and> sym s = sy \<and> stdout s = out \<and> stderr s = err
     \<and> scanner s = l \<and> heap_blocks s = 0"

definition trapped :: "cint list \<Rightarrow> string \<Rightarrow> 'l yyparser \<Rightarrow> bool" where
  "trapped sy out s \<longleftrightarrow> pc s = Trap \<and> sym s = sy \<and> stdout s = out"

text \<open>
  \<open>linv l e\<close> is what is known of the scanner in state \<open>l\<close> when \<open>e\<close> has been written to
  standard error. The parser's own message comes last.
\<close>

definition ended :: "('l \<Rightarrow> string \<Rightarrow> bool) \<Rightarrow> calc_end \<Rightarrow> 'l yyparser \<Rightarrow> bool" where
  "ended linv e s =
     (case e of
        Returns r sy out err \<Rightarrow> \<exists>log l. linv l log \<and> returned r sy out (log @ err) l s
      | Traps sy out \<Rightarrow> trapped sy out s \<and> linv (scanner s) (stderr s))"

text \<open>The parts of the state that moving between blocks does not touch.\<close>

definition same_rest :: "'l yyparser \<Rightarrow> 'l yyparser \<Rightarrow> bool" where
  "same_rest s t \<longleftrightarrow>
     yychar t = yychar s \<and> yylval t = yylval s \<and> scanner t = scanner s \<and> sym t = sym s
     \<and> stdout t = stdout s \<and> stderr t = stderr s"

lemma runs_to_ended:
  "linv l log \<Longrightarrow> runs_to f s (returned r sy out (log @ err) l) \<Longrightarrow> runs_to f s (ended linv (Returns r sy out err))"
  by (auto simp: ended_def runs_to_def)

lemma good_states_append [simp]:
  "good_states (xs @ ys) \<longleftrightarrow> good_states xs \<and> good_states ys"
  by (auto simp: good_states_def)

lemma good_states_Cons [simp]:
  "good_states (q # qs) \<longleftrightarrow> 0 \<le> q \<and> q \<le> 21 \<and> good_states qs"
  by (auto simp: good_states_def)

lemma good_states_Nil [simp]: "good_states []"
  by (simp add: good_states_def)

lemma good_states_last: "ss \<noteq> [] \<Longrightarrow> good_states ss \<Longrightarrow> 0 \<le> last ss \<and> last ss \<le> 21"
  by (simp add: good_states_def)

section \<open>Returning\<close>

lemma rd_yystos: "0 \<le> q \<Longrightarrow> q \<le> 21 \<Longrightarrow> \<exists>x. rd yystos q = Some x"
  by (simp add: rd_def yystos_def)

lemma yycleanup_good:
  "k < length ss \<Longrightarrow> good_states (take (Suc k) ss) \<Longrightarrow> yycleanup ss k"
proof (induction k)
  case 0
  then show ?case by simp
next
  case (Suc k)
  from Suc.prems have "good_states (take (Suc k) ss @ [ss ! Suc k])"
    by (simp add: take_Suc_conv_app_nth)
  then have "good_states (take (Suc k) ss)" and q: "0 \<le> ss ! Suc k" "ss ! Suc k \<le> 21" by simp_all
  with Suc.IH Suc.prems(1) have "yycleanup ss k" by simp
  moreover from Suc.prems(1) have "rd ss (int (Suc k)) = Some (ss ! Suc k)"
    by (simp only: rd_nat) simp
  ultimately show ?case using rd_yystos [OF q] by auto
qed

text \<open>From \<open>yyreturn\<close> with a stack of good states, the function returns and frees its block.\<close>

lemma do_yyreturn_good:
  assumes "yylen s = 0" "yyssp s = int k" "k < length (yyss s)" "good_states (take (Suc k) (yyss s))"
    and "heap_blocks s = (if yyss_moved s then 1 else 0)"
  shows "returned (yyresult s) (sym s) (stdout s) (stderr s) (scanner s) (do_yyreturn s)"
  using assms yycleanup_good [of k "yyss s"]
  by (simp add: do_yyreturn_def YYPOPSTACK_def returned_def)

lemma on_stack_take:
  "on_stack s ss vs \<Longrightarrow> frame env s \<Longrightarrow>
     \<exists>k. yyssp s = int k \<and> k < length (yyss s) \<and> take (Suc k) (yyss s) = ss"
  by (rule exI [of _ "length ss - 1"], cases ss) (auto simp: on_stack_def frame_def)

lemma accept_returns:
  assumes "pc s = yyacceptlab" "frame env s" "on_stack s ss vs"
  shows "runs_to (yystep yylex env) s (returned 0 (sym s) (stdout s) (stderr s) (scanner s))"
proof (rule runs_to_step, rule runs_to_step, rule runs_to_refl)
  obtain k where k: "yyssp s = int k" "k < length (yyss s)" "take (Suc k) (yyss s) = ss"
    using on_stack_take assms(2,3) by blast
  with assms do_yyreturn_good [of "goto yyreturn (s\<lparr>yyresult := 0\<rparr>)" k]
  show "returned 0 (sym s) (stdout s) (stderr s) (scanner s) (yystep yylex env (yystep yylex env s))"
    by (simp add: yystep_def frame_def on_stack_def)
qed

lemma abort_returns:
  assumes "pc s = yyabortlab" "yylen s = 0" "yyssp s = int k" "k < length (yyss s)"
    "good_states (take (Suc k) (yyss s))" "heap_blocks s = (if yyss_moved s then 1 else 0)"
  shows "runs_to (yystep yylex env) s (returned 1 (sym s) (stdout s) (stderr s) (scanner s))"
  using assms do_yyreturn_good [of "goto yyreturn (s\<lparr>yyresult := 1\<rparr>)" k]
  by (intro runs_to_step [of _ s] runs_to_step [of _ "yystep yylex env s"] runs_to_refl)
    (simp add: yystep_def)

lemma exhausted_returns:
  assumes "pc s = yyexhaustedlab" "yylen s = 0" "yyssp s = int k" "k < length (yyss s)"
    "good_states (take (Suc k) (yyss s))" "heap_blocks s = (if yyss_moved s then 1 else 0)"
  shows "runs_to (yystep yylex env) s
           (returned 2 (sym s) (stdout s) (stderr s @ ''memory exhausted\<newline>'') (scanner s))"
  using assms
    do_yyreturn_good [of "goto yyreturn ((yyerror ''memory exhausted'' s)\<lparr>yyresult := 2\<rparr>)" k]
  by (intro runs_to_step [of _ s] runs_to_step [of _ "yystep yylex env s"] runs_to_refl)
    (simp add: yystep_def yyerror_def)

section \<open>Pushing a state\<close>

text \<open>Growing copies the live cells and keeps everything a block relies on.\<close>

lemma take_relocate: "k \<le> m \<Longrightarrow> take k (YYSTACK_RELOCATE f m n xs) = take k xs" if "m \<le> length xs"
  using that by (simp add: YYSTACK_RELOCATE_def)

lemma length_relocate: "m \<le> length xs \<Longrightarrow> m \<le> n \<Longrightarrow> length (YYSTACK_RELOCATE f m n xs) = n"
  by (simp add: YYSTACK_RELOCATE_def)

lemma grow_stacks_grows:
  assumes "yyssp s = int d" "Suc d < n" "n = min YYMAXDEPTH (yystacksize s * 2)"
    and "\<not> YYMAXDEPTH \<le> yystacksize s" "malloc_ok env (YYSTACK_BYTES n)"
  shows "grow_stacks env s =
           goto yybackup
             (s\<lparr>yystacksize := n,
                yyss := YYSTACK_RELOCATE (fresh_ss env) (Suc d) n (yyss s),
                yyvs := YYSTACK_RELOCATE (fresh_vs env) (Suc d) n (yyvs s),
                heap_blocks := heap_blocks s + 1 - (if yyss_moved s then 1 else 0),
                yyss_moved := True, yyssp := int d, yyvsp := int d\<rparr>)"
proof -
  have size: "nat (yyssp s + 1) = Suc d" using assms(1) by simp
  show ?thesis
    unfolding grow_stacks_def size assms(3) [symmetric] using assms(2,4,5) by (simp add: Let_def)
qed

lemma pushing_enters_state:
  assumes "pc s = yynewstate" "frame env s" "pushing s ss vs q v" "length ss < stack_limit env"
  shows "runs_to (yystep yylex env) s
           (\<lambda>t. pc t = yybackup \<and> frame env t \<and> on_stack t (ss @ [q]) (vs @ [v]) \<and> same_rest s t)"
    (is "runs_to _ _ ?P")
proof (rule runs_to_step, rule runs_to_step, rule runs_to_refl)
  let ?d = "length ss"
  let ?sz = "yystacksize s"
  let ?ss = "(yyss s)[?d := q]"
  let ?s1 = "(goto yysetstate (s\<lparr>yyssp := int ?d\<rparr>))\<lparr>yyss := ?ss\<rparr>"
  have ss: "take (Suc ?d) ?ss = ss @ [q]" and d: "?d < ?sz" "length ?ss = ?sz"
    using assms by (auto simp: pushing_def frame_def take_update_prefix)
  have step: "yystep yylex env (yystep yylex env s) =
      (if int ?sz - 1 \<le> int ?d then grow_stacks env ?s1 else goto yybackup ?s1)"
    using assms d by (auto simp: yystep_def do_yynewstate_def do_yysetstate_def pushing_def frame_def
        Let_def)
  have vs: "take (Suc ?d) (yyvs s) = vs @ [v]" "length (yyvs s) = ?sz" "length vs = ?d"
    "yyvsp s = int ?d" "good_states (ss @ [q])" "yystate s = q"
    using assms(2,3) by (auto simp: pushing_def frame_def)
  have lim: "limit_from env ?sz = stack_limit env" "0 < ?sz"
    using assms(2) by (auto simp: frame_def YYINITDEPTH_def)
  show "pc (yystep yylex env (yystep yylex env s)) = yybackup
    \<and> frame env (yystep yylex env (yystep yylex env s))
    \<and> on_stack (yystep yylex env (yystep yylex env s)) (ss @ [q]) (vs @ [v])
    \<and> same_rest s (yystep yylex env (yystep yylex env s))"
    unfolding step
  proof (cases "?sz - 1 \<le> ?d")
    case False
    with d have "Suc ?d < ?sz" by simp
    moreover have "frame env (goto yybackup ?s1)"
      using assms(2) d by (simp add: frame_def)
    ultimately show "?P (if int ?sz - 1 \<le> int ?d then grow_stacks env ?s1 else goto yybackup ?s1)"
      using ss vs by (simp add: on_stack_def same_rest_def)
  next
    case True
    let ?n = "min YYMAXDEPTH (?sz * 2)"
    from True d have sz: "Suc ?d = ?sz" by simp
    have no: "\<not> (YYMAXDEPTH \<le> ?sz \<or> \<not> malloc_ok env (YYSTACK_BYTES ?n))"
    proof
      assume "YYMAXDEPTH \<le> ?sz \<or> \<not> malloc_ok env (YYSTACK_BYTES ?n)"
      with lim have "stack_limit env = ?sz - 1" by (subst (asm) limit_from.simps) (auto simp: Let_def)
      with sz assms(4) show False by simp
    qed
    with lim have n: "limit_from env ?n = stack_limit env"
      by (subst (asm) limit_from.simps) (auto simp: Let_def)
    from no sz lim have big: "Suc ?d < ?n" by auto
    have "grow_stacks env ?s1 = goto yybackup
             (?s1\<lparr>yystacksize := ?n,
                yyss := YYSTACK_RELOCATE (fresh_ss env) (Suc ?d) ?n ?ss,
                yyvs := YYSTACK_RELOCATE (fresh_vs env) (Suc ?d) ?n (yyvs s),
                heap_blocks := heap_blocks s + 1 - (if yyss_moved s then 1 else 0),
                yyss_moved := True, yyssp := int ?d, yyvsp := int ?d\<rparr>)" (is "_ = ?t")
      using no big by (subst grow_stacks_grows [where d = ?d and n = ?n]) simp_all
    moreover have "frame env ?t"
      using assms(2) n big d vs lim no sz
      by (simp add: frame_def length_relocate YYINITDEPTH_def YYMAXDEPTH_def)
    moreover have "on_stack ?t (ss @ [q]) (vs @ [v])"
      using ss vs d big by (simp add: on_stack_def take_relocate)
    ultimately show "?P (if int ?sz - 1 \<le> int ?d then grow_stacks env ?s1 else goto yybackup ?s1)"
      using sz by (simp add: same_rest_def)
  qed
qed

lemma pushing_exhausts:
  assumes "pc s = yynewstate" "frame env s" "pushing s ss vs q v" "\<not> length ss < stack_limit env"
  shows "runs_to (yystep yylex env) s
           (returned 2 (sym s) (stdout s) (stderr s @ ''memory exhausted\<newline>'') (scanner s))"
proof -
  let ?d = "length ss"
  let ?sz = "yystacksize s"
  let ?n = "min YYMAXDEPTH (?sz * 2)"
  let ?s1 = "(goto yysetstate (s\<lparr>yyssp := int ?d\<rparr>))\<lparr>yyss := (yyss s)[?d := q]\<rparr>"
  have d: "?d < ?sz" "length (yyss s) = ?sz" and lim: "limit_from env ?sz = stack_limit env" "0 < ?sz"
    using assms(2,3) by (auto simp: pushing_def frame_def YYINITDEPTH_def)
  with assms(4) limit_from_ge [of ?sz env] have sz: "Suc ?d = ?sz" "stack_limit env = ?sz - 1" by auto
  have no: "YYMAXDEPTH \<le> ?sz \<or> \<not> malloc_ok env (YYSTACK_BYTES ?n)"
  proof (rule ccontr)
    assume *: "\<not> ?thesis"
    with lim have "limit_from env ?n = stack_limit env"
      by (subst (asm) limit_from.simps) (auto simp: Let_def)
    with limit_from_ge [of ?n env] * sz lim show False by auto
  qed
  have "\<exists>n. grow_stacks env ?s1 = goto yyexhaustedlab (?s1\<lparr>yystacksize := n\<rparr>)"
  proof (cases "YYMAXDEPTH \<le> ?sz")
    case True
    then have "grow_stacks env ?s1 = goto yyexhaustedlab (?s1\<lparr>yystacksize := ?sz\<rparr>)"
      by (simp add: grow_stacks_def)
    then show ?thesis by (rule exI)
  next
    case False
    with no have "grow_stacks env ?s1 = goto yyexhaustedlab (?s1\<lparr>yystacksize := ?n\<rparr>)"
      by (simp add: grow_stacks_def Let_def)
    then show ?thesis by (rule exI)
  qed
  moreover have "yystep yylex env (yystep yylex env s) = grow_stacks env ?s1"
    using assms(1,3) d sz
    by (simp add: yystep_def do_yynewstate_def do_yysetstate_def pushing_def Let_def)
  ultimately obtain n where step:
    "yystep yylex env (yystep yylex env s) = goto yyexhaustedlab (?s1\<lparr>yystacksize := n\<rparr>)" (is "_ = ?t")
    by metis
  have "take (Suc ?d) ((yyss s)[?d := q]) = ss @ [q]"
    using assms(3) d by (auto simp: pushing_def take_update_prefix)
  then have "runs_to (yystep yylex env) ?t
      (returned 2 (sym ?t) (stdout ?t) (stderr ?t @ ''memory exhausted\<newline>'') (scanner ?t))"
    using assms(2,3) d by (intro exhausted_returns [where k = ?d]) (auto simp: frame_def pushing_def)
  then have "runs_to (yystep yylex env) (yystep yylex env (yystep yylex env s))
      (returned 2 (sym s) (stdout s) (stderr s @ ''memory exhausted\<newline>'') (scanner s))"
    using assms(2) unfolding step by (simp add: frame_def)
  then show ?thesis by (rule runs_to_step [OF runs_to_step])
qed

section \<open>Syntax errors\<close>

text \<open>
  No state of this grammar shifts the error token, so error recovery pops the whole stack and
  \<open>yyparse\<close> returns 1 at the first syntax error.
\<close>

lemma error_shift_table: "list_all (\<lambda>q. error_shift (yypact ! nat q) = None) [0..21]"
  by code_simp

lemma error_shift_None: "0 \<le> q \<Longrightarrow> q \<le> 21 \<Longrightarrow> \<exists>p. rd yypact q = Some p \<and> error_shift p = None"
  using error_shift_table by (simp add: list_all_iff rd_def yypact_def)

lemma error_loop_returns:
  assumes "pc s = yyerrloop" "ss \<noteq> []" "good_states ss" "take (length ss) (yyss s) = ss"
    and "yyssp s = int (length ss) - 1" "yystate s = last ss" "length ss \<le> length (yyss s)"
    and "yylen s = 0" "heap_blocks s = (if yyss_moved s then 1 else 0)"
  shows "runs_to (yystep yylex env) s (returned 1 (sym s) (stdout s) (stderr s) (scanner s))"
  using assms
proof (induction ss arbitrary: s rule: rev_induct)
  case Nil
  then show ?case by simp
next
  case (snoc q ss)
  then obtain p where p: "rd yypact q = Some p" "error_shift p = None"
    using error_shift_None [of q] by auto
  show ?case
  proof (cases "ss = []")
    case True
    with snoc.prems p have step: "yystep yylex env s = goto yyabortlab s"
      by (simp add: yystep_def do_yyerrloop_def)
    have "runs_to (yystep yylex env) (goto yyabortlab s)
        (returned 1 (sym (goto yyabortlab s)) (stdout (goto yyabortlab s)) (stderr (goto yyabortlab s)) (scanner (goto yyabortlab s)))"
      using snoc.prems True by (intro abort_returns [where k = 0]) (auto simp: Suc_le_eq)
    then show ?thesis by (intro runs_to_stepI [where f = "yystep yylex env", OF step]) simp
  next
    case False
    let ?t = "goto yyerrloop ((YYPOPSTACK 1 s)\<lparr>yystate := last ss\<rparr>)"
    have tk: "take (length ss) (yyss s) = ss"
      using snoc.prems(4) take_mono_prefix [of "length (ss @ [q])" "yyss s" ss "[q]"] by simp
    then have "rd (yyss s) (yyssp s - 1) = Some (last ss)"
    proof -
      have "yyss s ! (length ss - 1) = last ss"
        using take_nth_prefix [OF tk, of "length ss - 1"] False by (simp add: last_conv_nth)
      moreover have "nat (yyssp s - 1) = length ss - 1" using snoc.prems(5) False by (cases ss) auto
      ultimately show ?thesis using snoc.prems(5,7) False by (cases ss) (auto simp: rd_def)
    qed
    moreover obtain x where "rd yystos q = Some x" using rd_yystos [of q] snoc.prems by auto
    ultimately have step: "yystep yylex env s = ?t"
      using snoc.prems p False by (simp add: yystep_def do_yyerrloop_def YYPOPSTACK_def)
    have "runs_to (yystep yylex env) ?t (returned 1 (sym ?t) (stdout ?t) (stderr ?t) (scanner ?t))"
      using snoc.prems False tk by (intro snoc.IH) (auto simp: YYPOPSTACK_def)
    then show ?thesis by (intro runs_to_stepI [where f = "yystep yylex env", OF step]) (simp add: YYPOPSTACK_def)
  qed
qed

lemma syntax_error_returns:
  assumes "pc s = yyerrlab" "frame env s" "on_stack s ss vs"
  shows "runs_to (yystep yylex env) s (returned 1 (sym s) (stdout s) (stderr s @ ''syntax error\<newline>'') (scanner s))"
proof (rule runs_to_step, rule runs_to_step)
  let ?t = "yystep yylex env (yystep yylex env s)"
  have t: "?t = goto yyerrloop
      ((goto yyerrlab1 (yyerror ''syntax error'' (s\<lparr>yynerrs := yynerrs s + 1\<rparr>)))\<lparr>yyerrstatus := 3\<rparr>)"
    using assms(1,2) by (simp add: yystep_def do_yyerrlab_def do_yyerrlab1_def yyerror_def frame_def)
  have "runs_to (yystep yylex env) ?t (returned 1 (sym ?t) (stdout ?t) (stderr ?t) (scanner ?t))"
    using assms unfolding t
    by (intro error_loop_returns [of _ ss]) (auto simp: frame_def on_stack_def yyerror_def)
  then show "runs_to (yystep yylex env) ?t (returned 1 (sym s) (stdout s) (stderr s @ ''syntax error\<newline>'') (scanner s))"
    using assms(2) unfolding t by (simp add: yyerror_def frame_def)
qed

end
