(* ===== verification/Parser_Correct.thy ===== *)
theory Parser_Correct
  imports Parser_Stack
begin

text \<open>
  \<open>yyparse\<close> against its specification. The scanner enters through the locale \<open>token_source\<close>:
  a \<open>yylex\<close> whose calls deliver a list of tokens and then end-of-file for ever. Inside it, the
  parser's blocks are run symbolically: a shift, a reduction, a syntax error and acceptance are
  one lemma each, and the evaluator of \<open>Calc_Spec\<close> is followed function by function.
\<close>

section \<open>Tokens as the parser sees them\<close>

fun tok_code :: "tok \<Rightarrow> int" where
  "tok_code (TInt _) = INTEGER"
| "tok_code (TVar _) = VARIABLE"
| "tok_code TPlus = 43"
| "tok_code TMinus = 45"
| "tok_code TTimes = 42"
| "tok_code TDiv = 47"
| "tok_code TNl = 10"
| "tok_code TEq = 61"
| "tok_code TLp = 40"
| "tok_code TRp = 41"

fun tok_sym :: "tok \<Rightarrow> int" where
  "tok_sym (TInt _) = 3"
| "tok_sym (TVar _) = 4"
| "tok_sym TPlus = 5"
| "tok_sym TMinus = 6"
| "tok_sym TTimes = 7"
| "tok_sym TDiv = 8"
| "tok_sym TNl = 9"
| "tok_sym TEq = 10"
| "tok_sym TLp = 11"
| "tok_sym TRp = 12"

text \<open>\<open>yylval\<close> after the token, given \<open>yylval\<close> before it.\<close>

fun tok_lval :: "tok \<Rightarrow> cint \<Rightarrow> cint" where
  "tok_lval (TInt n) v = n"
| "tok_lval (TVar i) v = of_nat i"
| "tok_lval _ v = v"

lemma sint_variable: "i < 26 \<Longrightarrow> sint (of_nat i :: cint) = int i"
  by (simp add: signed_of_nat signed_take_bit_int_eq_self)

fun tok_ok :: "tok \<Rightarrow> bool" where
  "tok_ok (TVar i) = (i < 26)"
| "tok_ok _ = True"

definition next_sym :: "tok list \<Rightarrow> int" where
  "next_sym ts = (case ts of [] \<Rightarrow> YYEOF | t # _ \<Rightarrow> tok_sym t)"

lemma tok_code_pos: "\<not> tok_code t \<le> YYEOF" "tok_code t \<noteq> YYEMPTY"
  by (cases t; simp add: YYEOF_def YYEMPTY_def INTEGER_def VARIABLE_def)+

lemma yytranslate_table:
  "map (\<lambda>c. yytranslate ! c) [258, 259, 43, 45, 42, 47, 10, 61, 40, 41]
     = [3, 4, 5, 6, 7, 8, 9, 10, 11, 12] \<and> length yytranslate = 260"
  by code_simp

lemma YYTRANSLATE_tok: "YYTRANSLATE (tok_code t) = Some (tok_sym t)"
  using yytranslate_table
  by (cases t) (simp_all add: YYTRANSLATE_def YYMAXUTOK_def rd_def INTEGER_def VARIABLE_def)

lemma tok_sym_range: "3 \<le> tok_sym t" "tok_sym t \<le> 12"
  by (cases t; simp)+

lemma next_sym_range: "0 \<le> next_sym ts" "next_sym ts \<le> 12"
  using tok_sym_range [of "hd ts"] by (cases ts; simp add: next_sym_def YYEOF_def)+

lemma tok_lval_idem: "tok_lval t (tok_lval t v) = tok_lval t v"
  by (cases t) simp_all

section \<open>Configurations\<close>

text \<open>
  The tokens not yet shifted are \<open>ts\<close>, whether or not the first of them has already been
  read into \<open>yychar\<close>.
\<close>

definition looked :: "('l \<Rightarrow> tok list) \<Rightarrow> 'l yyparser \<Rightarrow> tok list \<Rightarrow> bool" where
  "looked toks s ts \<longleftrightarrow>
     (case ts of
        [] \<Rightarrow> yychar s = YYEOF \<and> toks (scanner s) = []
      | t # r \<Rightarrow> yychar s = tok_code t \<and> yylval s = tok_lval t (yylval s) \<and> tok_ok t
                 \<and> toks (scanner s) = r)"

definition pending :: "('l \<Rightarrow> tok list) \<Rightarrow> 'l yyparser \<Rightarrow> tok list \<Rightarrow> bool" where
  "pending toks s ts \<longleftrightarrow> yychar s = YYEMPTY \<and> toks (scanner s) = ts \<or> looked toks s ts"

definition core ::
  "('l \<Rightarrow> tok list) \<Rightarrow> ('l \<Rightarrow> string \<Rightarrow> bool) \<Rightarrow> cenv \<Rightarrow> int list \<Rightarrow> cint list \<Rightarrow> tok list
     \<Rightarrow> cint list \<Rightarrow> string \<Rightarrow> 'l yyparser \<Rightarrow> bool" where
  "core toks linv env ss vs ts sy out s \<longleftrightarrow>
     frame env s \<and> on_stack s ss vs \<and> pending toks s ts \<and> linv (scanner s) (stderr s)
     \<and> sym s = sy \<and> stdout s = out \<and> length sy = 26"

text \<open>At the start of a decision.\<close>

definition cfg ::
  "('l \<Rightarrow> tok list) \<Rightarrow> ('l \<Rightarrow> string \<Rightarrow> bool) \<Rightarrow> cenv \<Rightarrow> int list \<Rightarrow> cint list \<Rightarrow> tok list
     \<Rightarrow> cint list \<Rightarrow> string \<Rightarrow> 'l yyparser \<Rightarrow> bool" where
  "cfg toks linv env ss vs ts sy out s \<longleftrightarrow>
     pc s = yybackup \<and> core toks linv env ss vs ts sy out s"

text \<open>The block a decision of the tables leads to.\<close>

definition decides ::
  "('l \<Rightarrow> tok list) \<Rightarrow> ('l \<Rightarrow> string \<Rightarrow> bool) \<Rightarrow> cenv \<Rightarrow> int list \<Rightarrow> cint list \<Rightarrow> tok list
     \<Rightarrow> cint list \<Rightarrow> string \<Rightarrow> lr_act \<Rightarrow> 'l yyparser \<Rightarrow> bool" where
  "decides toks linv env ss vs ts sy out act t =
     (case act of
        Reduce r \<Rightarrow> pc t = yyreduce \<and> yyn t = r \<and> core toks linv env ss vs ts sy out t
      | SyntaxError \<Rightarrow> pc t = yyerrlab \<and> core toks linv env ss vs ts sy out t
      | Accept \<Rightarrow> pc t = yyacceptlab \<and> core toks linv env ss vs ts sy out t
      | Shift q \<Rightarrow>
          pc t = yynewstate \<and> frame env t \<and> linv (scanner t) (stderr t) \<and> sym t = sy \<and> stdout t = out
          \<and> length sy = 26
          \<and> (case ts of
                [] \<Rightarrow> False
              | k # r \<Rightarrow> tok_ok k \<and> pending toks t r
                         \<and> (\<exists>v. pushing t ss vs q v \<and> tok_lval k v = v)))"

locale token_source =
  fixes yylex :: "'l \<Rightarrow> cint \<Rightarrow> 'l lexret"
    and toks :: "'l \<Rightarrow> tok list"
    and linv :: "'l \<Rightarrow> string \<Rightarrow> bool"
  assumes yylex_eof:
      "linv l e \<Longrightarrow> toks l = [] \<Longrightarrow>
         \<exists>v' m l'. yylex l v = LexTok YYEOF v' m l' \<and> linv l' (e @ m) \<and> toks l' = []"
    and yylex_tok:
      "linv l e \<Longrightarrow> toks l = t # ts \<Longrightarrow>
         \<exists>m l'. yylex l v = LexTok (tok_code t) (tok_lval t v) m l' \<and> linv l' (e @ m) \<and> toks l' = ts"
    and toks_ok: "linv l e \<Longrightarrow> list_all tok_ok (toks l)"
begin

lemma looked_pending: "looked toks s ts \<Longrightarrow> pending toks s ts"
  by (simp add: pending_def)

section \<open>One decision\<close>

text \<open>With a lookahead needed, \<open>yybackup\<close> has it in \<open>yychar\<close> and \<open>yytoken\<close>, reading it if need be.\<close>

lemma yybackup_reads:
  assumes "core toks linv env ss vs ts sy out s" "rd yypact (last ss) = Some p" "p \<noteq> YYPACT_NINF"
  shows "\<exists>t. do_yybackup yylex s = use_lookahead p t \<and> core toks linv env ss vs ts sy out t
               \<and> looked toks t ts \<and> yytoken t = next_sym ts"
proof -
  have st: "yystate s = last ss" using assms(1) by (simp add: core_def on_stack_def)
  show ?thesis
  proof (cases "yychar s = YYEMPTY")
    case True
    then have ts: "toks (scanner s) = ts" and inv: "linv (scanner s) (stderr s)"
      using assms(1) tok_code_pos(2)
      by (auto simp: core_def pending_def looked_def YYEMPTY_def YYEOF_def split: list.splits)
    show ?thesis
    proof (cases ts)
      case Nil
      with yylex_eof [OF inv, of "yylval s"] ts obtain v m l where
        lex: "yylex (scanner s) (yylval s) = LexTok YYEOF v m l" "linv l (stderr s @ m)" "toks l = []" by auto
      let ?t = "s\<lparr>yyn := p, yylval := v, stderr := stderr s @ m, scanner := l, yychar := YYEOF, yytoken := YYEOF\<rparr>"
      have "do_yybackup yylex s = use_lookahead p ?t"
        using lex assms(2,3) st True by (simp add: do_yybackup_def translate_lookahead_def)
      moreover have "core toks linv env ss vs ts sy out ?t" "looked toks ?t ts"
        using assms(1) lex Nil
        by (auto simp: core_def frame_def on_stack_def pending_def looked_def)
      ultimately show ?thesis by (intro exI [of _ ?t]) (simp add: Nil next_sym_def)
    next
      case (Cons t r)
      with yylex_tok [OF inv, of t r "yylval s"] ts obtain m l where
        lex: "yylex (scanner s) (yylval s) = LexTok (tok_code t) (tok_lval t (yylval s)) m l"
          "linv l (stderr s @ m)" "toks l = r" by auto
      let ?t = "s\<lparr>yyn := p, yychar := tok_code t, yylval := tok_lval t (yylval s), stderr := stderr s @ m, scanner := l,
                 yytoken := tok_sym t\<rparr>"
      have "tok_ok t" using toks_ok [OF inv] ts Cons by simp
      then have "core toks linv env ss vs ts sy out ?t" "looked toks ?t ts"
        using assms(1) lex Cons
        by (auto simp: core_def frame_def on_stack_def pending_def looked_def tok_lval_idem)
      moreover have "do_yybackup yylex s = use_lookahead p ?t"
        using lex assms(2,3) st True tok_code_pos [of t] YYTRANSLATE_tok [of t]
        by (simp add: do_yybackup_def translate_lookahead_def)
      ultimately show ?thesis by (intro exI [of _ ?t]) (simp add: Cons next_sym_def)
    qed
  next
    case False
    then have lk: "looked toks s ts" using assms(1) by (simp add: core_def pending_def)
    show ?thesis
    proof (cases ts)
      case Nil
      let ?t = "s\<lparr>yyn := p, yychar := YYEOF, yytoken := YYEOF\<rparr>"
      have "do_yybackup yylex s = use_lookahead p ?t" "core toks linv env ss vs ts sy out ?t"
        "looked toks ?t ts"
        using lk assms st False Nil
        by (auto simp: do_yybackup_def translate_lookahead_def looked_def core_def frame_def
            on_stack_def pending_def)
      then show ?thesis by (intro exI [of _ ?t]) (simp add: Nil next_sym_def)
    next
      case (Cons k r)
      let ?t = "s\<lparr>yyn := p, yytoken := tok_sym k\<rparr>"
      have "do_yybackup yylex s = use_lookahead p ?t"
        using lk assms(2,3) st False tok_code_pos [of k] YYTRANSLATE_tok [of k] Cons
        by (simp add: do_yybackup_def translate_lookahead_def looked_def)
      moreover have "core toks linv env ss vs ts sy out ?t" "looked toks ?t ts"
        using assms(1) lk Cons
        by (auto simp: core_def frame_def on_stack_def pending_def looked_def)
      ultimately show ?thesis by (intro exI [of _ ?t]) (simp add: Cons next_sym_def)
    qed
  qed
qed

text \<open>The value of the lookahead goes onto the stack.\<close>

lemma shift_token_pushes:
  assumes "core toks linv env ss vs (k # r) sy out s" "looked toks s (k # r)" "0 \<le> q" "q \<le> 21"
  shows "decides toks linv env ss vs (k # r) sy out (Shift q) (shift_token q (s\<lparr>yyn := n\<rparr>))"
proof -
  have d: "length ss < length (yyvs s)" "yyvsp s + 1 = int (length ss)" "yyerrstatus s = 0"
    using assms(1) by (auto simp: core_def on_stack_def frame_def)
  have "take (Suc (length ss)) ((yyvs s)[length ss := yylval s]) = vs @ [yylval s]"
    using assms(1) d by (intro take_update_prefix) (auto simp: core_def on_stack_def)
  moreover have "yychar s \<noteq> YYEOF" "yylval s = tok_lval k (yylval s)"
    using assms(2) tok_code_pos [of k] by (auto simp: looked_def YYEOF_def)
  ultimately show ?thesis
    using assms d
    by (auto simp: decides_def shift_token_def core_def frame_def on_stack_def pushing_def
        looked_def pending_def)
qed

lemma default_decides:
  assumes "core toks linv env ss vs ts sy out s" "pc s = yydefault"
  shows "runs_to (yystep yylex env) s (decides toks linv env ss vs ts sy out (lr_default (last ss)))"
proof (rule runs_to_step, rule runs_to_refl)
  have q: "0 \<le> last ss" "last ss \<le> 21" "yystate s = last ss"
    using assms(1) good_states_last by (auto simp: core_def on_stack_def)
  then have "rd yydefact (yystate s) = Some (yydefact ! nat (last ss))"
    by (simp add: rd_def table_simps)
  with assms q
  show "decides toks linv env ss vs ts sy out (lr_default (last ss)) (yystep yylex env s)"
    by (auto simp: yystep_def do_yydefault_def decides_def lr_default_def Let_def core_def
        frame_def on_stack_def pending_def looked_def split: list.splits)
qed

lemma lookahead_decides:
  assumes "core toks linv env ss vs ts sy out s" "looked toks s ts" "yytoken s = next_sym ts"
    and "rd yypact (last ss) = Some p" "p \<noteq> YYPACT_NINF"
  shows "runs_to (yystep yylex env) (use_lookahead p s)
           (decides toks linv env ss vs ts sy out (lr_action (last ss) (next_sym ts)))"
proof -
  let ?n = "p + next_sym ts"
  have q: "0 \<le> last ss" "last ss \<le> 21" and p: "yypact ! nat (last ss) = p"
    using assms(1,4) good_states_last by (auto simp: core_def on_stack_def rd_Some_iff)
  have core: "core toks linv env ss vs ts sy out (goto l (s\<lparr>yyn := m\<rparr>))" for l m
    using assms(1) by (auto simp: core_def frame_def on_stack_def pending_def looked_def split: list.splits)
  show ?thesis
  proof (cases "?n < 0 \<or> YYLAST < ?n \<or> yycheck ! nat ?n \<noteq> next_sym ts")
    case True
    then have "lr_action (last ss) (next_sym ts) = lr_default (last ss)"
      by (simp add: lr_action_def p Let_def)
    moreover have "use_lookahead p s = goto yydefault (s\<lparr>yyn := ?n\<rparr>)"
      using True assms(3) by (auto simp: use_lookahead_def Let_def rd_def table_simps YYLAST_def)
    ultimately show ?thesis using default_decides [OF core] by simp
  next
    case False
    let ?a = "yytable ! nat ?n"
    have n: "nat ?n < 32" "rd yycheck ?n = Some (next_sym ts)" "rd yytable ?n = Some ?a"
      using False by (auto simp: rd_def table_simps YYLAST_def)
    have act: "lr_action (last ss) (next_sym ts) =
        (if ?a = 0 then SyntaxError else if ?a = YYFINAL then Accept else Shift ?a)"
      using False assms(5) by (simp add: lr_action_def p Let_def)
    have use: "use_lookahead p s =
        (if ?a = 0 then goto yyerrlab (s\<lparr>yyn := ?a\<rparr>)
         else if ?a = YYFINAL then goto yyacceptlab (s\<lparr>yyn := ?a\<rparr>)
         else shift_token ?a (s\<lparr>yyn := ?a\<rparr>))"
      using False n yytable_nonneg [OF n(1)] assms(3) by (simp add: use_lookahead_def Let_def)
    have "decides toks linv env ss vs ts sy out (lr_action (last ss) (next_sym ts)) (use_lookahead p s)"
    proof (cases "?a = 0 \<or> ?a = YYFINAL")
      case True
      with core show ?thesis unfolding act use by (auto simp: decides_def)
    next
      case False
      then have sh: "grammar_action (last ss) (next_sym ts) = Shift ?a"
        using act lr_action_grammar [OF q next_sym_range] by simp
      have "next_sym ts \<noteq> 0" "0 \<le> ?a" "?a \<le> 21"
        using grammar_action_Shift [OF sh q next_sym_range(1)] by simp_all
      moreover from this(1) obtain k r where "ts = k # r"
        by (auto simp: next_sym_def YYEOF_def split: list.splits)
      ultimately show ?thesis
        using False shift_token_pushes [of env ss vs k r sy out s ?a ?a] assms(1,2)
        unfolding act use by simp
    qed
    then show ?thesis by (rule runs_to_refl)
  qed
qed

lemma yybackup_decides:
  assumes "core toks linv env ss vs ts sy out s" "pc s = yybackup"
  shows "runs_to (yystep yylex env) s
           (decides toks linv env ss vs ts sy out (lr_action (last ss) (next_sym ts)))"
proof -
  have q: "0 \<le> last ss" "last ss \<le> 21" "yystate s = last ss"
    using assms(1) good_states_last by (auto simp: core_def on_stack_def)
  define p where "p = yypact ! nat (last ss)"
  have p: "rd yypact (last ss) = Some p" using q by (simp add: p_def rd_def table_simps)
  show ?thesis
  proof (cases "p = YYPACT_NINF")
    case True
    let ?t = "goto yydefault (s\<lparr>yyn := p\<rparr>)"
    have "core toks linv env ss vs ts sy out ?t"
      using assms(1) by (auto simp: core_def frame_def on_stack_def pending_def looked_def split: list.splits)
    then have run: "runs_to (yystep yylex env) ?t
        (decides toks linv env ss vs ts sy out (lr_default (last ss)))"
      by (rule default_decides) simp
    have step: "yystep yylex env s = ?t"
      using assms(2) p q True by (simp add: yystep_def do_yybackup_def)
    have "lr_action (last ss) (next_sym ts) = lr_default (last ss)"
      using True by (simp add: lr_action_def p_def Let_def)
    with run show ?thesis by (intro runs_to_stepI [where f = "yystep yylex env", OF step]) simp
  next
    case False
    from yybackup_reads [OF assms(1) p False] obtain t where
      t: "do_yybackup yylex s = use_lookahead p t" "core toks linv env ss vs ts sy out t"
        "looked toks t ts" "yytoken t = next_sym ts" by blast
    have "yystep yylex env s = use_lookahead p t" using assms(2) t(1) by (simp add: yystep_def)
    with lookahead_decides [OF t(2,3,4) p False] show ?thesis
      by (metis runs_to_step)
  qed
qed

section \<open>Shift, error, accept\<close>

lemma pending_same_rest: "same_rest s t \<Longrightarrow> pending toks s ts \<Longrightarrow> pending toks t ts"
  by (auto simp: same_rest_def pending_def looked_def split: list.splits)

lemma pushing_reaches_cfg:
  assumes "pc s = yynewstate" "frame env s" "pushing s ss vs q v" "pending toks s ts"
    "linv (scanner s) (stderr s)" "length (sym s) = 26" "length ss < stack_limit env"
  shows "runs_to (yystep yylex env) s
           (cfg toks linv env (ss @ [q]) (vs @ [v]) ts (sym s) (stdout s))"
  using pushing_enters_state [OF assms(1-3,7), of yylex]
  by (rule runs_to_mono)
    (use assms in \<open>auto simp: cfg_def core_def pending_same_rest, auto simp: same_rest_def\<close>)

lemma cfg_shift:
  assumes "cfg toks linv env ss vs (k # r) sy out s" "lr_action (last ss) (tok_sym k) = Shift q"
    and "length ss < stack_limit env"
  shows "runs_to (yystep yylex env) s
     (\<lambda>t. \<exists>v. tok_lval k v = v \<and> tok_ok k \<and> cfg toks linv env (ss @ [q]) (vs @ [v]) r sy out t)"
proof (rule runs_to_trans)
  show "runs_to (yystep yylex env) s (decides toks linv env ss vs (k # r) sy out (Shift q))"
    using yybackup_decides [of env ss vs "k # r" sy out s] assms(1,2)
    by (simp add: cfg_def next_sym_def)
next
  fix t
  assume t: "decides toks linv env ss vs (k # r) sy out (Shift q) t"
  then obtain v where v: "pushing t ss vs q v" "tok_lval k v = v" by (auto simp: decides_def)
  with t assms(3) have "runs_to (yystep yylex env) t (cfg toks linv env (ss @ [q]) (vs @ [v]) r sy out)"
    using pushing_reaches_cfg [of t env ss vs q v r] by (auto simp: decides_def)
  then show "runs_to (yystep yylex env) t
      (\<lambda>t. \<exists>v. tok_lval k v = v \<and> tok_ok k \<and> cfg toks linv env (ss @ [q]) (vs @ [v]) r sy out t)"
    by (rule runs_to_mono) (use t v in \<open>auto simp: decides_def\<close>)
qed

lemma cfg_shift_exhausts:
  assumes "cfg toks linv env ss vs (k # r) sy out s" "lr_action (last ss) (tok_sym k) = Shift q"
    and "\<not> length ss < stack_limit env"
  shows "runs_to (yystep yylex env) s (ended linv (no_memory_end sy out))"
proof (rule runs_to_trans)
  show "runs_to (yystep yylex env) s (decides toks linv env ss vs (k # r) sy out (Shift q))"
    using yybackup_decides [of env ss vs "k # r" sy out s] assms(1,2)
    by (simp add: cfg_def next_sym_def)
next
  fix t
  assume "decides toks linv env ss vs (k # r) sy out (Shift q) t"
  then show "runs_to (yystep yylex env) t (ended linv (no_memory_end sy out))"
    using pushing_exhausts [of t env ss vs q _ yylex] assms(3)
    by (auto simp: decides_def no_memory_end_def intro: runs_to_ended)
qed

lemma cfg_syntax_error:
  assumes "cfg toks linv env ss vs ts sy out s" "lr_action (last ss) (next_sym ts) = SyntaxError"
  shows "runs_to (yystep yylex env) s (ended linv (syntax_error_end sy out))"
proof (rule runs_to_trans)
  show "runs_to (yystep yylex env) s (decides toks linv env ss vs ts sy out SyntaxError)"
    using yybackup_decides [of env ss vs ts sy out s] assms by (simp add: cfg_def)
next
  fix t
  assume "decides toks linv env ss vs ts sy out SyntaxError t"
  then show "runs_to (yystep yylex env) t (ended linv (syntax_error_end sy out))"
    using syntax_error_returns [of t env ss vs yylex]
    by (auto simp: decides_def core_def syntax_error_end_def intro: runs_to_ended)
qed

lemma cfg_accept:
  assumes "cfg toks linv env ss vs ts sy out s" "lr_action (last ss) (next_sym ts) = Accept"
  shows "runs_to (yystep yylex env) s (ended linv (Returns 0 sy out ''''))"
proof (rule runs_to_trans)
  show "runs_to (yystep yylex env) s (decides toks linv env ss vs ts sy out Accept)"
    using yybackup_decides [of env ss vs ts sy out s] assms by (simp add: cfg_def)
next
  fix t
  assume "decides toks linv env ss vs ts sy out Accept t"
  then show "runs_to (yystep yylex env) t (ended linv (Returns 0 sy out ''''))"
    using accept_returns [of t env ss vs yylex]
    by (auto simp: decides_def core_def intro: runs_to_ended [where err = "''''", simplified])
qed

section \<open>Reductions\<close>

lemma goto_state_lr:
  "14 \<le> lhs \<Longrightarrow> lhs \<le> 16 \<Longrightarrow> goto_state lhs q = Some (lr_goto lhs q)"
  by (auto simp: goto_state_def lr_goto_def Let_def rd_def table_simps YYNTOKENS_def YYLAST_def)

text \<open>Popping the right-hand side and pushing the value of the left-hand side.\<close>

lemma finish_reduction_pushes:
  assumes "core toks linv env (ss @ pop) (vs @ vpop) ts sy out s" "yyn s = r" "1 < r" "r \<le> 12"
    and "ss \<noteq> []" "length vs = length ss" "q = lr_goto (yyr1 ! nat r) (last ss)" "0 \<le> q" "q \<le> 21"
    and t: "t = s\<lparr>yylen := int (length pop), yyval := v, sym := sy', stdout := out'\<rparr>" "length sy' = 26"
  shows "pc (finish_reduction t) = yynewstate \<and> frame env (finish_reduction t)
         \<and> pushing (finish_reduction t) ss vs q v \<and> pending toks (finish_reduction t) ts
         \<and> linv (scanner (finish_reduction t)) (stderr (finish_reduction t)) \<and> sym (finish_reduction t) = sy'
         \<and> stdout (finish_reduction t) = out'"
proof -
  let ?d = "length ss"
  have s: "frame env s" "on_stack s (ss @ pop) (vs @ vpop)" "pending toks s ts" "linv (scanner s) (stderr s)"
    using assms(1) by (auto simp: core_def)
  have sizes: "?d < length (yyvs s)" "?d \<le> length (yyss s)" "yyssp s - int (length pop) = int ?d - 1"
    "yyvsp s - int (length pop) = int ?d - 1" "?d < yystacksize s"
    using s(1,2) by (auto simp: frame_def on_stack_def)
  have tk: "take ?d (yyss s) = ss" "take ?d (yyvs s) = vs"
    using s(2) assms(6) take_mono_prefix [of _ "yyss s" ss pop] take_mono_prefix [of _ "yyvs s" vs vpop]
    by (auto simp: on_stack_def)
  have "rd (yyss s) (int ?d - 1) = Some (last ss)"
    using tk(1) sizes(2) assms(5) take_nth_prefix [of ss "yyss s" "?d - 1"]
    by (cases ss rule: rev_cases) (auto simp: rd_def nth_append)
  moreover have lhs: "14 \<le> yyr1 ! nat r" "yyr1 ! nat r \<le> 16" "rd yyr1 r = Some (yyr1 ! nat r)"
    using yyr1_range [OF assms(3,4)] assms(3,4) by (auto simp: rd_def table_simps)
  ultimately have fin: "finish_reduction t =
      goto yynewstate ((YYPOPSTACK (int (length pop))
          (s\<lparr>yylen := int (length pop), yyval := v, sym := sy', stdout := out'\<rparr>))
        \<lparr>yylen := 0, yyvs := (yyvs s)[?d := v], yyvsp := int ?d, yyn := yyr1 ! nat r, yystate := q\<rparr>)"
    using sizes goto_state_lr [OF lhs(1,2), of "last ss"] assms(2,7) t(1)
    by (simp add: finish_reduction_def YYPOPSTACK_def Let_def)
  have "take (Suc ?d) ((yyvs s)[?d := v]) = vs @ [v]"
    using tk(2) assms(6) sizes(1) by (simp add: take_update_prefix)
  then have "pushing (finish_reduction t) ss vs q v"
    unfolding fin using s(2) tk(1) sizes assms(5,6,8,9)
    by (simp add: YYPOPSTACK_def on_stack_def pushing_def)
  moreover have "frame env (finish_reduction t)"
    unfolding fin using s(1) by (simp add: YYPOPSTACK_def frame_def)
  moreover have "pending toks (finish_reduction t) ts"
    unfolding fin using s(3)
    by (simp add: YYPOPSTACK_def pending_def looked_def split: list.splits)
  ultimately show ?thesis using s(4) by (simp add: fin YYPOPSTACK_def)
qed

lemma do_yyreduce_acts:
  assumes "core toks linv env (ss @ pop) (vs @ vpop) ts sy out s" "yyn s = r" "1 < r" "r \<le> 12"
    and "length pop = nat (yyr2 ! nat r)" "0 \<le> yyr2 ! nat r" "length vs = length ss"
  shows "\<exists>v0. (pop \<noteq> [] \<longrightarrow> v0 = hd vpop) \<and>
     do_yyreduce s =
       (case yy_action (s\<lparr>yylen := int (length pop), yyval := v0\<rparr>) of
          Inl l \<Rightarrow> goto l s | Inr t \<Rightarrow> finish_reduction t)"
proof -
  let ?d = "length ss"
  have st: "on_stack s (ss @ pop) (vs @ vpop)" "frame env s" using assms(1) by (auto simp: core_def)
  have len: "rd yyr2 (yyn s) = Some (int (length pop))"
    using assms(2-6) by (simp add: rd_def table_simps)
  have "yyvsp s + (1 - int (length pop)) = int ?d" "?d < length (yyvs s)"
    using st by (auto simp: on_stack_def frame_def)
  then have v: "rd (yyvs s) (yyvsp s + (1 - int (length pop))) = Some (yyvs s ! ?d)" by simp
  have "yyvs s ! ?d = hd vpop" if "pop \<noteq> []"
  proof -
    have tk: "take (length (vs @ vpop)) (yyvs s) = vs @ vpop" and len: "length vpop = length pop"
      using st(1) assms(7) by (auto simp: on_stack_def)
    from that len have "vpop \<noteq> []" by auto
    then show ?thesis
      using take_nth_prefix [OF tk, of ?d] assms(7) by (simp add: nth_append hd_conv_nth)
  qed
  then show ?thesis
    by (intro exI [of _ "yyvs s ! ?d"]) (simp add: do_yyreduce_def len v)
qed

text \<open>The top of the value stack, as the actions index it.\<close>

lemma rd_yyvs_top:
  assumes "core toks linv env ss (vs @ vpop) ts sy out s" "i < length vpop"
  shows "rd (yyvs s) (yyvsp s - int i) = Some (vpop ! (length vpop - 1 - i))"
proof -
  have st: "on_stack s ss (vs @ vpop)" "frame env s" using assms(1) by (auto simp: core_def)
  let ?n = "length (vs @ vpop)"
  have tk: "take ?n (yyvs s) = vs @ vpop" "?n \<le> length (yyvs s)" "yyvsp s = int ?n - 1"
    using st by (auto simp: on_stack_def frame_def)
  define j where "j = length vpop - 1 - i"
  have j: "j < length vpop" "yyvsp s - int i = int (length vs + j)"
    using tk(3) assms(2) by (auto simp: j_def)
  then have "yyvs s ! (length vs + j) = vpop ! j"
    using take_nth_prefix [OF tk(1), of "length vs + j"] by simp
  with j tk(2) show ?thesis by (simp del: of_nat_add) (simp add: j_def)
qed

lemma cfg_reduce:
  assumes "cfg toks linv env (ss @ pop) (vs @ vpop) ts sy out s"
    and "lr_action (last (ss @ pop)) (next_sym ts) = Reduce r" "1 < r" "r \<le> 12"
    and "int (length pop) = yyr2 ! nat r" "length vs = length ss" "ss \<noteq> []"
    and "q = lr_goto (yyr1 ! nat r) (last ss)" "0 \<le> q" "q \<le> 21" "length sy' = 26"
    and "length ss < stack_limit env"
    and action: "\<And>t v0. core toks linv env (ss @ pop) (vs @ vpop) ts sy out t \<Longrightarrow> yyn t = r \<Longrightarrow>
           (pop \<noteq> [] \<longrightarrow> v0 = hd vpop) \<Longrightarrow>
           \<exists>w. (pop \<noteq> [] \<longrightarrow> w = v) \<and> yy_action (t\<lparr>yylen := int (length pop), yyval := v0\<rparr>) =
             Inr (t\<lparr>yylen := int (length pop), yyval := w, sym := sy', stdout := out'\<rparr>)"
  shows "runs_to (yystep yylex env) s
           (\<lambda>t. \<exists>w. (pop \<noteq> [] \<longrightarrow> w = v) \<and> cfg toks linv env (ss @ [q]) (vs @ [w]) ts sy' out' t)"
proof (rule runs_to_trans)
  show "runs_to (yystep yylex env) s (decides toks linv env (ss @ pop) (vs @ vpop) ts sy out (Reduce r))"
    using yybackup_decides [of env "ss @ pop" "vs @ vpop" ts sy out s] assms(1,2)
    by (simp add: cfg_def)
next
  fix t
  assume "decides toks linv env (ss @ pop) (vs @ vpop) ts sy out (Reduce r) t"
  then have t: "pc t = yyreduce" "yyn t = r" "core toks linv env (ss @ pop) (vs @ vpop) ts sy out t"
    by (simp_all add: decides_def)
  obtain v0 where v0: "pop \<noteq> [] \<longrightarrow> v0 = hd vpop"
    "do_yyreduce t = (case yy_action (t\<lparr>yylen := int (length pop), yyval := v0\<rparr>) of
       Inl l \<Rightarrow> goto l t | Inr t \<Rightarrow> finish_reduction t)"
    using do_yyreduce_acts [OF t(3,2) assms(3,4)] assms(5,6) by fastforce
  from action [OF t(3,2) v0(1)] obtain w where w: "pop \<noteq> [] \<longrightarrow> w = v"
    "yy_action (t\<lparr>yylen := int (length pop), yyval := v0\<rparr>) =
       Inr (t\<lparr>yylen := int (length pop), yyval := w, sym := sy', stdout := out'\<rparr>)" (is "_ = Inr ?u")
    by blast
  have step: "yystep yylex env t = finish_reduction ?u"
    using t(1) v0(2) w(2) by (simp add: yystep_def)
  have u: "pc (finish_reduction ?u) = yynewstate" "frame env (finish_reduction ?u)"
    "pushing (finish_reduction ?u) ss vs q w" "pending toks (finish_reduction ?u) ts"
    "linv (scanner (finish_reduction ?u)) (stderr (finish_reduction ?u))" "sym (finish_reduction ?u) = sy'"
    "stdout (finish_reduction ?u) = out'"
    using finish_reduction_pushes [OF t(3,2) assms(3,4,7,6,8,9,10) refl assms(11), of out' w] by simp_all
  have "runs_to (yystep yylex env) (finish_reduction ?u)
      (cfg toks linv env (ss @ [q]) (vs @ [w]) ts sy' out')"
    using pushing_reaches_cfg [OF u(1-5) _ assms(12)] u(6,7) assms(11) by simp
  then have "runs_to (yystep yylex env) t (cfg toks linv env (ss @ [q]) (vs @ [w]) ts sy' out')"
    by (rule runs_to_stepI [where f = "yystep yylex env", OF step])
  then show "runs_to (yystep yylex env) t
      (\<lambda>t. \<exists>w. (pop \<noteq> [] \<longrightarrow> w = v) \<and> cfg toks linv env (ss @ [q]) (vs @ [w]) ts sy' out' t)"
    by (rule runs_to_mono) (use w(1) in blast)
qed

text \<open>A reduction that traps: rule 11 with an undefined division.\<close>

lemma cfg_reduce_traps:
  assumes "cfg toks linv env (ss @ pop) (vs @ [a, x, b]) ts sy out s"
    and "lr_action (last (ss @ pop)) (next_sym ts) = Reduce 11"
    and "length pop = 3" "length vs = length ss" "c_div a b = None"
  shows "runs_to (yystep yylex env) s (ended linv (Traps sy out))"
proof (rule runs_to_trans)
  show "runs_to (yystep yylex env) s (decides toks linv env (ss @ pop) (vs @ [a, x, b]) ts sy out (Reduce 11))"
    using yybackup_decides [of env "ss @ pop" "vs @ [a, x, b]" ts sy out s] assms(1,2)
    by (simp add: cfg_def)
next
  fix t
  assume "decides toks linv env (ss @ pop) (vs @ [a, x, b]) ts sy out (Reduce 11) t"
  then have t: "pc t = yyreduce" "yyn t = 11" "core toks linv env (ss @ pop) (vs @ [a, x, b]) ts sy out t"
    by (simp_all add: decides_def)
  have "yyr2 ! nat 11 = 3" using rule_table(2) by (simp add: upt_rec)
  then obtain v0 where v0: "do_yyreduce t = (case yy_action (t\<lparr>yylen := int (length pop), yyval := v0\<rparr>) of
       Inl l \<Rightarrow> goto l t | Inr t \<Rightarrow> finish_reduction t)"
    using do_yyreduce_acts [OF t(3,2)] assms(3,4) by auto
  have "yy_action (t\<lparr>yylen := int (length pop), yyval := v0\<rparr>) = Inl Trap"
    using rd_yyvs_top [OF t(3), of 0] rd_yyvs_top [OF t(3), of 2] t(2) assms(5)
    by (simp add: yy_action_def arith_action_def Let_def)
  then have step: "yystep yylex env t = goto Trap t" using t(1) v0 by (simp add: yystep_def)
  show "runs_to (yystep yylex env) t (ended linv (Traps sy out))"
    using t(3)
    by (intro runs_to_stepI [where f = "yystep yylex env", OF step] runs_to_refl)
      (simp add: ended_def trapped_def core_def)
qed

text \<open>The rules for \<open>expr\<close>: 6 to 12.\<close>

lemma cfg_core_limit:
  assumes "cfg toks linv env (ss @ pop) vs ts sy out s" "pop \<noteq> []"
  shows "length ss < stack_limit env"
proof -
  have "length (ss @ pop) < yystacksize s" "limit_from env (yystacksize s) = stack_limit env"
    using assms(1) by (auto simp: cfg_def core_def on_stack_def frame_def)
  with limit_from_ge [of "yystacksize s" env] assms(2) show ?thesis by (cases pop) auto
qed

lemma cfg_reduce_expr:
  assumes "cfg toks linv env (ss @ pop) (vs @ vpop) ts sy out s"
    and "lr_action (last (ss @ pop)) (next_sym ts) = Reduce r" "6 \<le> r" "r \<le> 12"
    and "int (length pop) = yyr2 ! nat r" "length vs = length ss" "operand_state (last ss)" "ss \<noteq> []" "pop \<noteq> []"
    and action: "\<And>t. core toks linv env (ss @ pop) (vs @ vpop) ts sy out t \<Longrightarrow> yyn t = r \<Longrightarrow>
           yy_action (t\<lparr>yylen := int (length pop), yyval := hd vpop\<rparr>) =
             Inr (t\<lparr>yylen := int (length pop), yyval := v\<rparr>)"
  shows "runs_to (yystep yylex env) s
           (cfg toks linv env (ss @ [expr_goto (last ss)]) (vs @ [v]) ts sy out)"
proof -
  have "r \<in> set [6..12]" using assms(3,4) by (simp only: set_upto) simp
  moreover have "list_all (\<lambda>r. yyr1 ! nat r = 16) [6..12]" by code_simp
  ultimately have "yyr1 ! nat r = 16" unfolding list_all_iff by blast
  then have q: "expr_goto (last ss) = lr_goto (yyr1 ! nat r) (last ss)"
    using lr_goto_expr [OF assms(7)] by simp
  have range: "0 \<le> expr_goto (last ss)" "expr_goto (last ss) \<le> 21"
    using assms(7) by (auto simp: expr_goto_def operand_state_def)
  have sy: "length sy = 26" using assms(1) by (simp add: cfg_def core_def)
  have r: "1 < r" using assms(3) by simp
  have act: "\<exists>w. (pop \<noteq> [] \<longrightarrow> w = v) \<and> yy_action (t\<lparr>yylen := int (length pop), yyval := v0\<rparr>) =
        Inr (t\<lparr>yylen := int (length pop), yyval := w, sym := sy, stdout := out\<rparr>)"
    if "core toks linv env (ss @ pop) (vs @ vpop) ts sy out t" "yyn t = r" "pop \<noteq> [] \<longrightarrow> v0 = hd vpop"
    for t v0
    using action [OF that(1,2)] that(1,3) assms(9) by (auto simp: core_def intro: exI [of _ v])
  show ?thesis
    by (rule runs_to_mono [OF cfg_reduce [OF assms(1,2) r assms(4,5,6,8) q range sy
            cfg_core_limit [OF assms(1,9)] act]])
      (use assms(9) in auto)
qed

end

end
