(* ===== verification/Parser_Refines.thy ===== *)
theory Parser_Refines
  imports Parser_Correct
begin

text \<open>
  The simulation: from a configuration in which an operand, the rest of a term or the rest of an
  expression is expected, \<open>yyparse\<close> does what \<open>operand\<close>, \<open>term_rest\<close> and \<open>expr_rest\<close>
  compute, for every token list, well-formed or not; hence a whole run of \<open>yyparse\<close> does what
  \<open>program\<close> computes.
\<close>

text \<open>The run from \<open>s\<close> ends as \<open>p\<close> says, or reaches \<open>R\<close> at the value \<open>p\<close> has.\<close>

definition follows ::
  "('l \<Rightarrow> string \<Rightarrow> bool) \<Rightarrow> ('l yyparser \<Rightarrow> 'l yyparser) \<Rightarrow> (cint \<Rightarrow> tok list \<Rightarrow> 'l yyparser \<Rightarrow> bool)
     \<Rightarrow> cint list \<Rightarrow> string \<Rightarrow> pres \<Rightarrow> 'l yyparser \<Rightarrow> bool" where
  "follows linv step R sy out p s =
     (case p of
        Val w r \<Rightarrow> runs_to step s (R w r)
      | SyntaxErr \<Rightarrow> runs_to step s (ended linv (syntax_error_end sy out))
      | TrapErr \<Rightarrow> runs_to step s (ended linv (Traps sy out))
      | NoMem \<Rightarrow> runs_to step s (ended linv (no_memory_end sy out)))"

lemma follows_runs:
  "runs_to step s Q \<Longrightarrow> (\<And>t. Q t \<Longrightarrow> follows linv step R sy out p t) \<Longrightarrow> follows linv step R sy out p s"
  by (cases p) (auto simp: follows_def intro: runs_to_trans)

lemma follows_Val: "R w r s \<Longrightarrow> follows linv step R sy out (Val w r) s"
  by (simp add: follows_def runs_to_refl)

lemma follows_bind:
  assumes "follows linv step Q sy out p s"
    and "\<And>v r t. p = Val v r \<Longrightarrow> Q v r t \<Longrightarrow> follows linv step R sy out (k v r) t"
  shows "follows linv step R sy out (pbind p k) s"
proof (cases p)
  case (Val v r)
  with assms(1) have "runs_to step s (Q v r)" by (simp add: follows_def)
  then show ?thesis using Val assms(2) follows_runs by fastforce
qed (use assms(1) in \<open>simp_all add: follows_def\<close>)

lemma mul_op_Some:
  "mul_op k = Some f \<Longrightarrow> (k = TTimes \<and> f = (\<lambda>a b. Some (a * b))) \<or> (k = TDiv \<and> f = c_div)"
  by (cases k) auto

lemma add_op_Some:
  "add_op k = Some f \<Longrightarrow>
     (k = TPlus \<and> f = (\<lambda>a b. Some (a + b))) \<or> (k = TMinus \<and> f = (\<lambda>a b. Some (a - b)))"
  by (cases k) auto

text \<open>Where \<open>term_rest\<close> and \<open>expr_rest\<close> stop, no operator of theirs follows.\<close>

definition stops :: "(tok \<Rightarrow> bool) \<Rightarrow> tok list \<Rightarrow> bool" where
  "stops P ts = (case ts of [] \<Rightarrow> True | t # _ \<Rightarrow> \<not> P t)"

lemma term_rest_stops:
  "term_rest lim sy d v ts = Val w r \<Longrightarrow> stops (\<lambda>t. mul_op t \<noteq> None) r"
proof (induction "length ts" arbitrary: v ts rule: less_induct)
  case less
  show ?case
  proof (cases "\<exists>t q f. ts = t # q \<and> mul_op t = Some f")
    case True
    then obtain t q f b r1 x where "ts = t # q" "operand lim sy (d + 2) q = Val b r1"
      "term_rest lim sy d x r1 = Val w r"
      using less.prems by (auto simp: term_rest.simps [of lim sy d v ts] pres_Val)
    then show ?thesis using less.hyps [of r1 x] operand_shorter by fastforce
  next
    case False
    with less.prems show ?thesis
      by (auto simp: term_rest.simps [of lim sy d v ts] stops_def split: list.splits option.splits)
  qed
qed

lemma expr_rest_stops:
  "expr_rest lim sy d v ts = Val w r \<Longrightarrow> stops (\<lambda>t. mul_op t \<noteq> None \<or> add_op t \<noteq> None) r"
proof (induction "length ts" arbitrary: v ts rule: less_induct)
  case less
  show ?case
  proof (cases ts)
    case Nil
    with less.prems show ?thesis by (auto simp: expr_rest.simps [of lim sy d v "[]"] stops_def)
  next
    case (Cons t q)
    show ?thesis
    proof (cases "mul_op t")
      case (Some f)
      with less.prems Cons obtain b r1 x where "operand lim sy (d + 2) q = Val b r1"
        "expr_rest lim sy d x r1 = Val w r"
        by (auto simp: expr_rest.simps [of lim sy d v "t # q"] pres_Val)
      with less.hyps [of r1 x] operand_shorter Cons show ?thesis by fastforce
    next
      case None
      show ?thesis
      proof (cases "add_op t")
        case (Some f)
        with less.prems Cons None obtain b r1 c r2 x where
          "operand lim sy (d + 2) q = Val b r1" "term_rest lim sy (d + 2) b r1 = Val c r2"
          "expr_rest lim sy d x r2 = Val w r"
          by (auto simp: expr_rest.simps [of lim sy d v "t # q"] pres_Val)
        with less.hyps [of r2 x] operand_shorter rest_shorter_dom(2) [OF parse_dom] Cons
        show ?thesis by fastforce
      qed (use less.prems Cons None in \<open>auto simp: expr_rest.simps [of lim sy d v "t # q"] stops_def\<close>)
    qed
  qed
qed

lemma stops_mul_sym:
  "stops (\<lambda>t. mul_op t \<noteq> None) ts \<Longrightarrow> next_sym ts \<noteq> 7 \<and> next_sym ts \<noteq> 8"
  by (cases ts) (auto simp: stops_def next_sym_def YYEOF_def elim: tok_sym.elims)

lemma stops_op_sym:
  "stops (\<lambda>t. mul_op t \<noteq> None \<or> add_op t \<noteq> None) ts \<Longrightarrow> \<not> (5 \<le> next_sym ts \<and> next_sym ts \<le> 8)"
  by (cases ts; cases "hd ts") (auto simp: stops_def next_sym_def YYEOF_def)

text \<open>What the tables say, for the tokens of a list.\<close>

lemma lr_action_next [table_simps]:
  "0 \<le> q \<Longrightarrow> q \<le> 21 \<Longrightarrow> lr_action q (next_sym ts) = grammar_action q (next_sym ts)"
  by (rule lr_action_grammar) (use next_sym_range in simp_all)

lemma lr_action_tok [table_simps]:
  "0 \<le> q \<Longrightarrow> q \<le> 21 \<Longrightarrow> lr_action q (tok_sym t) = grammar_action q (tok_sym t)"
  by (rule lr_action_grammar) (use tok_sym_range [of t] in simp_all)

lemma yyr2_values [table_simps]:
  "yyr2 ! 2 = 3" "yyr2 ! 3 = 0" "yyr2 ! 4 = 1" "yyr2 ! 5 = 3" "yyr2 ! 6 = 1" "yyr2 ! 7 = 1"
  "yyr2 ! 8 = 3" "yyr2 ! 9 = 3" "yyr2 ! 10 = 3" "yyr2 ! 11 = 3" "yyr2 ! 12 = 3"
  "yyr1 ! 2 = 14" "yyr1 ! 3 = 14" "yyr1 ! 4 = 15" "yyr1 ! 5 = 15"
  by (simp_all add: yyr2_def yyr1_def)

context token_source
begin

lemma follows_shift:
  assumes "cfg toks linv env ss vs (k # r) sy out s" "lr_action (last ss) (tok_sym k) = Shift q"
    and "\<And>v t. tok_lval k v = v \<Longrightarrow> tok_ok k \<Longrightarrow> length ss < stack_limit env \<Longrightarrow>
           cfg toks linv env (ss @ [q]) (vs @ [v]) r sy out t \<Longrightarrow> follows linv (yystep yylex env) R sy out p t"
  shows "follows linv (yystep yylex env) R sy out (guard_depth (stack_limit env) (length ss) p) s"
proof (cases "length ss < stack_limit env")
  case True
  have "follows linv (yystep yylex env) R sy out p s"
    using cfg_shift [OF assms(1,2) True] by (rule follows_runs) (use assms(3) True in blast)
  with True show ?thesis by (simp add: guard_depth_def)
next
  case False
  then show ?thesis
    using cfg_shift_exhausts [OF assms(1,2)] by (simp add: guard_depth_def follows_def)
qed

text \<open>Reducing \<open>expr op expr\<close>.\<close>

lemma follows_arith:
  assumes "cfg toks linv env (ss @ [q1, q2, q3]) (vs @ [a, x, b]) ts sy out s"
    and "lr_action q3 (next_sym ts) = Reduce r" "8 \<le> r" "r \<le> 11"
    and "length vs = length ss" "operand_state (last ss)" "ss \<noteq> []"
    and "\<And>v t. arith_action r a b = Some v \<Longrightarrow>
           cfg toks linv env (ss @ [expr_goto (last ss)]) (vs @ [v]) ts sy out t \<Longrightarrow>
           follows linv (yystep yylex env) R sy out (k v) t"
  shows "follows linv (yystep yylex env) R sy out (apply_op (arith_action r a b) k) s"
proof (cases "arith_action r a b")
  case None
  then have "r = 11" "c_div a b = None" using assms(3,4) by (auto simp: arith_action_def split: if_splits)
  then show ?thesis
    using cfg_reduce_traps [of env ss "[q1, q2, q3]" vs a x b ts sy out s] assms(1,2,5) None
    by (simp add: apply_op_def follows_def)
next
  case (Some v)
  have r: "r \<in> {8, 9, 10, 11}" using assms(3,4) by auto
  then have len: "int (length [q1, q2, q3]) = yyr2 ! nat r" by (auto simp: table_simps)
  have act: "yy_action (t\<lparr>yylen := int (length [q1, q2, q3]), yyval := hd [a, x, b]\<rparr>) =
      Inr (t\<lparr>yylen := int (length [q1, q2, q3]), yyval := v\<rparr>)"
    if t: "core toks linv env (ss @ [q1, q2, q3]) (vs @ [a, x, b]) ts sy out t" "yyn t = r" for t
  proof -
    have "r \<noteq> 4" "r \<noteq> 5" "r \<noteq> 7" "r = 8 \<or> r = 9 \<or> r = 10 \<or> r = 11" using r by auto
    with rd_yyvs_top [OF t(1), of 0] rd_yyvs_top [OF t(1), of 2] t(2) Some show ?thesis
      by (simp add: yy_action_def Let_def)
  qed
  have "runs_to (yystep yylex env) s (cfg toks linv env (ss @ [expr_goto (last ss)]) (vs @ [v]) ts sy out)"
    by (rule cfg_reduce_expr [OF assms(1) _ _ _ len assms(5-7) _ act]) (use assms(2-4) in simp_all)
  then have "follows linv (yystep yylex env) R sy out (k v) s"
    by (rule follows_runs) (use assms(8) Some in blast)
  with Some show ?thesis by (simp add: apply_op_def)
qed

lemma reduce_integer:
  assumes "cfg toks linv env (ss @ [3]) (vs @ [n]) ts sy out s" "length vs = length ss"
    "operand_state (last ss)" "ss \<noteq> []"
  shows "runs_to (yystep yylex env) s (cfg toks linv env (ss @ [expr_goto (last ss)]) (vs @ [n]) ts sy out)"
  by (rule cfg_reduce_expr [OF assms(1), where r = 6])
    (use assms in \<open>simp_all add: table_simps grammar_action_def operand_state_def yy_action_def Let_def\<close>)

lemma reduce_variable:
  assumes "cfg toks linv env (ss @ [q]) (vs @ [of_nat i]) ts sy out s" "length vs = length ss"
    "operand_state (last ss)" "ss \<noteq> []" "q = 9 \<or> q = 4 \<and> next_sym ts \<noteq> 10" "i < 26"
  shows "runs_to (yystep yylex env) s (cfg toks linv env (ss @ [expr_goto (last ss)]) (vs @ [sy ! i]) ts sy out)"
proof (rule cfg_reduce_expr [OF assms(1), where r = 7])
  fix t
  assume t: "core toks linv env (ss @ [q]) (vs @ [of_nat i]) ts sy out t" "yyn t = 7"
  have "sint (of_nat i :: cint) = int i"
    by (rule sint_variable [OF assms(6)])
  moreover have "sym t = sy" "length sy = 26" using t(1) by (simp_all add: core_def)
  ultimately show "yy_action (t\<lparr>yylen := int (length [q]), yyval := hd [of_nat i]\<rparr>) =
      Inr (t\<lparr>yylen := int (length [q]), yyval := sy ! i\<rparr>)"
    using rd_yyvs_top [OF t(1), of 0] t(2) assms(6) by (simp add: yy_action_def Let_def)
qed (use assms in \<open>auto simp: table_simps grammar_action_def operand_state_def\<close>)

lemma reduce_paren:
  assumes "cfg toks linv env (ss @ [5, 10, 17]) (vs @ [x, w, y]) ts sy out s" "length vs = length ss"
    "operand_state (last ss)" "ss \<noteq> []"
  shows "runs_to (yystep yylex env) s (cfg toks linv env (ss @ [expr_goto (last ss)]) (vs @ [w]) ts sy out)"
proof (rule cfg_reduce_expr [OF assms(1), where r = 12])
  fix t
  assume t: "core toks linv env (ss @ [5, 10, 17]) (vs @ [x, w, y]) ts sy out t" "yyn t = 12"
  then show "yy_action (t\<lparr>yylen := int (length [5, 10, 17]), yyval := hd [x, w, y]\<rparr>) =
      Inr (t\<lparr>yylen := int (length [5, 10, 17]), yyval := w\<rparr>)"
    using rd_yyvs_top [OF t(1), of 1] by (simp add: yy_action_def Let_def)
qed (use assms in \<open>simp_all add: table_simps grammar_action_def operand_state_def\<close>)

lemma cfg_lengths: "cfg toks linv env ss vs ts sy out s \<Longrightarrow> length vs = length ss"
  by (simp add: cfg_def core_def on_stack_def)

lemma cfg_cases_last: "cfg toks linv env (ss @ [q]) vs ts sy out s \<Longrightarrow> 0 \<le> q \<and> q \<le> 21"
  by (simp add: cfg_def core_def on_stack_def)

section \<open>Operators\<close>

text \<open>
  A binary operator after a complete left operand: shift it, run the right operand \<open>p\<close>,
  reduce. After \<open>+\<close> or \<open>-\<close> the reduction waits until no factor follows.
\<close>

lemma follows_op:
  assumes "cfg toks linv env (ss @ [expr_goto (last ss)]) (vs @ [v]) (t # r) sy out s"
    and op: "mul_op t = Some f \<and> last ss \<in> {1, 5, 8, 12, 13} \<or> add_op t = Some f \<and> last ss \<in> {1, 5, 8}"
    and ss: "ss \<noteq> []"
    and right: "\<And>ss' vs' s'. length ss + 1 < stack_limit env \<Longrightarrow> cfg toks linv env ss' vs' r sy out s' \<Longrightarrow> length ss' = length ss + 2 \<Longrightarrow>
           last ss' = tok_sym t + 7 \<Longrightarrow> last ss' \<in> {12, 13, 14, 15} \<Longrightarrow> ss' \<noteq> [] \<Longrightarrow>
           follows linv (yystep yylex env) (\<lambda>w r'. cfg toks linv env (ss' @ [expr_goto (last ss')]) (vs' @ [w]) r' sy out)
             sy out p s'"
    and stop: "\<And>b r1. add_op t = Some f \<Longrightarrow> p = Val b r1 \<Longrightarrow> stops (\<lambda>t. mul_op t \<noteq> None) r1"
    and k: "\<And>b r1 w t'. length ss + 1 < stack_limit env \<Longrightarrow> p = Val b r1 \<Longrightarrow> f v b = Some w \<Longrightarrow>
           cfg toks linv env (ss @ [expr_goto (last ss)]) (vs @ [w]) r1 sy out t' \<Longrightarrow>
           follows linv (yystep yylex env) R sy out (k w r1) t'"
  shows "follows linv (yystep yylex env) R sy out
           (guard_depth (stack_limit env) (length ss + 1)
             (pbind p (\<lambda>b r1. apply_op (f v b) (\<lambda>w. k w r1)))) s"
proof -
  let ?q1 = "expr_goto (last ss)"
  let ?q2 = "tok_sym t + 7"
  let ?r = "tok_sym t + 3"
  have q0: "operand_state (last ss)" using op by (auto simp: operand_state_def)
  have q2: "?q2 \<in> {12, 13, 14, 15}"
    using op mul_op_Some [of t f] add_op_Some [of t f] by auto
  have shift: "lr_action (last (ss @ [?q1])) (tok_sym t) = Shift ?q2"
    using op mul_op_Some [of t f] add_op_Some [of t f]
    by (auto simp: table_simps grammar_action_def operand_state_def expr_goto_def)
  have arith: "arith_action ?r v b = f v b" "8 \<le> ?r" "?r \<le> 11" for b
    using op mul_op_Some [of t f] add_op_Some [of t f] by (auto simp: arith_action_def)
  have after: "follows linv (yystep yylex env) R sy out (pbind p (\<lambda>b r1. apply_op (f v b) (\<lambda>w. k w r1))) u"
    if lim: "length ss + 1 < stack_limit env"
      and u: "cfg toks linv env ((ss @ [?q1]) @ [?q2]) ((vs @ [v]) @ [x]) r sy out u" for x u
  proof (rule follows_bind)
    show "follows linv (yystep yylex env)
        (\<lambda>w r'. cfg toks linv env (ss @ [?q1, ?q2, expr_goto ?q2]) (vs @ [v, x, w]) r' sy out) sy out p u"
      using right [OF lim u] q2 by simp
  next
    fix b r1 t'
    assume p: "p = Val b r1"
      and t': "cfg toks linv env (ss @ [?q1, ?q2, expr_goto ?q2]) (vs @ [v, x, b]) r1 sy out t'"
    have len: "length vs = length ss" using cfg_lengths [OF t'] by simp
    have red: "lr_action (expr_goto ?q2) (next_sym r1) = Reduce ?r"
      using op mul_op_Some [of t f] add_op_Some [of t f] stops_mul_sym [of r1] stop [OF _ p]
      by (auto simp: table_simps expr_goto_def grammar_action_def operand_state_def)
    show "follows linv (yystep yylex env) R sy out (apply_op (f v b) (\<lambda>w. k w r1)) t'"
      using follows_arith [OF t' red arith(2,3) len q0 ss, of R "\<lambda>w. k w r1"] k [OF lim p]
      by (simp add: arith(1))
  qed
  have "follows linv (yystep yylex env) R sy out
      (guard_depth (stack_limit env) (length (ss @ [?q1]))
         (pbind p (\<lambda>b r1. apply_op (f v b) (\<lambda>w. k w r1)))) s"
    by (rule follows_shift [OF assms(1) shift]) (use after in simp)
  then show ?thesis by simp
qed

section \<open>Expressions\<close>

lemma follows_operand_leaf:
  assumes "cfg toks linv env ss vs (t # r) sy out s" "operand_state (last ss)" "ss \<noteq> []"
    and "t = TInt n \<or> t = TVar i \<and> \<not> (last ss = 1 \<and> next_sym r = 10)"
  shows "follows linv (yystep yylex env)
           (\<lambda>w r. cfg toks linv env (ss @ [expr_goto (last ss)]) (vs @ [w]) r sy out) sy out
           (guard_depth (stack_limit env) (length ss) (Val (case t of TInt n \<Rightarrow> n | _ \<Rightarrow> sy ! i) r)) s"
  using assms(4)
proof
  assume t: "t = TInt n"
  have len: "length vs = length ss" by (rule cfg_lengths [OF assms(1)])
  have "lr_action (last ss) (tok_sym t) = Shift 3"
    using assms(2) t by (auto simp: table_simps grammar_action_def operand_state_def)
  then show ?thesis
    by (rule follows_shift [OF assms(1)])
      (use reduce_integer [of env ss vs n r sy out] len assms(2,3) t in \<open>auto simp: follows_def\<close>)
next
  assume t: "t = TVar i \<and> \<not> (last ss = 1 \<and> next_sym r = 10)"
  have len: "length vs = length ss" by (rule cfg_lengths [OF assms(1)])
  let ?q = "if last ss = 1 then 4 else 9 :: int"
  have "lr_action (last ss) (tok_sym t) = Shift ?q"
    using assms(2) t by (auto simp: table_simps grammar_action_def operand_state_def)
  then show ?thesis
    by (rule follows_shift [OF assms(1)])
      (use reduce_variable [of env ss ?q vs i r sy out] len assms(2,3) t in \<open>auto simp: follows_def\<close>)
qed

lemma operand_error:
  assumes "cfg toks linv env ss vs ts sy out s" "operand_state (last ss)"
    and "next_sym ts \<notin> {0, 3, 4, 11} \<or> next_sym ts = 0 \<and> last ss \<noteq> 1"
  shows "runs_to (yystep yylex env) s (ended linv (syntax_error_end sy out))"
proof (rule cfg_syntax_error [OF assms(1)])
  have "0 \<le> last ss" "last ss \<le> 21" using assms(2) by (auto simp: operand_state_def)
  then show "lr_action (last ss) (next_sym ts) = SyntaxError"
    using assms(2,3) by (auto simp: table_simps grammar_action_def)
qed

text \<open>
  After \<open>(\<close>: the operand and the rest of the expression follow by assumption, then \<open>)\<close> closes.
\<close>

lemma follows_close:
  assumes "cfg toks linv env (ss @ [5, 10]) (vs @ [x, w]) ts sy out s" "operand_state (last ss)" "ss \<noteq> []"
    and "stops (\<lambda>t. mul_op t \<noteq> None \<or> add_op t \<noteq> None) ts"
  shows "follows linv (yystep yylex env)
           (\<lambda>w r. cfg toks linv env (ss @ [expr_goto (last ss)]) (vs @ [w]) r sy out) sy out
           (close_paren (stack_limit env) (length ss + 2) w ts) s"
proof (cases "\<exists>r. ts = TRp # r")
  case True
  then obtain r where ts: "ts = TRp # r" by blast
  have len: "length vs = length ss" using cfg_lengths [OF assms(1)] by simp
  have "lr_action (last (ss @ [5, 10])) (tok_sym TRp) = Shift 17"
    by (simp add: table_simps grammar_action_def operand_state_def)
  then have "follows linv (yystep yylex env)
      (\<lambda>w r. cfg toks linv env (ss @ [expr_goto (last ss)]) (vs @ [w]) r sy out) sy out
      (guard_depth (stack_limit env) (length (ss @ [5, 10 :: int])) (Val w r)) s"
    by (rule follows_shift [OF assms(1) [unfolded ts]])
      (use reduce_paren [of env ss vs x w _ r sy out] len assms(2,3) in \<open>auto simp: follows_def\<close>)
  then show ?thesis using ts by simp
next
  case False
  then have sym: "next_sym ts \<noteq> 12" by (cases ts; cases "hd ts") (auto simp: next_sym_def YYEOF_def)
  have "lr_action (last (ss @ [5, 10])) (next_sym ts) = SyntaxError"
    using stops_op_sym [OF assms(4)] sym by (simp add: table_simps grammar_action_def operand_state_def)
  then have "runs_to (yystep yylex env) s (ended linv (syntax_error_end sy out))"
    by (rule cfg_syntax_error [OF assms(1)])
  moreover have "close_paren (stack_limit env) (length ss + 2) w ts = SyntaxErr"
    using False by (cases ts; cases "hd ts") auto
  ultimately show ?thesis by (simp add: follows_def)
qed

text \<open>The places where an operand, the rest of a term and the rest of an expression are followed.\<close>

abbreviation follows_at where
  "follows_at env ss vs sy out \<equiv>
     follows linv (yystep yylex env)
       (\<lambda>w r. cfg toks linv env (ss @ [expr_goto (last ss)]) (vs @ [w]) r sy out) sy out"

text \<open>After an opening parenthesis: the first operand, the rest of the expression, the closing one.\<close>

lemma follows_paren:
  assumes "cfg toks linv env ss vs (TLp # r) sy out s" "operand_state (last ss)" "ss \<noteq> []"
    and lim: "lim = stack_limit env" "d = length ss"
    and first: "\<And>x u. d < lim \<Longrightarrow> cfg toks linv env (ss @ [5]) (vs @ [x]) r sy out u \<Longrightarrow>
      follows_at env (ss @ [5]) (vs @ [x]) sy out (operand lim sy (d + 1) r) u"
    and rest: "\<And>x v r1 u. d < lim \<Longrightarrow> operand lim sy (d + 1) r = Val v r1 \<Longrightarrow>
      cfg toks linv env ((ss @ [5]) @ [10]) ((vs @ [x]) @ [v]) r1 sy out u \<Longrightarrow>
      follows_at env (ss @ [5]) (vs @ [x]) sy out (expr_rest lim sy (d + 1) v r1) u"
  shows "follows_at env ss vs sy out (operand lim sy d (TLp # r)) s"
proof -
  let ?K = "\<lambda>v r1. pbind (expr_rest lim sy (d + 1) v r1) (close_paren lim (d + 2))"
  have shift: "lr_action (last ss) (tok_sym TLp) = Shift 5"
    using assms(2) by (auto simp: table_simps grammar_action_def operand_state_def)
  have inner: "follows_at env ss vs sy out (pbind (operand lim sy (d + 1) r) ?K) u"
    if u: "cfg toks linv env (ss @ [5]) (vs @ [x]) r sy out u" "length ss < stack_limit env" for x u
  proof (rule follows_bind)
    have d: "d < lim" using u(2) lim by simp
    show "follows linv (yystep yylex env)
        (\<lambda>w r1. cfg toks linv env (ss @ [5, 10]) (vs @ [x, w]) r1 sy out) sy out (operand lim sy (d + 1) r) u"
      using first [OF d u(1)] by (simp add: expr_goto_def)
    fix v r1 t
    assume v: "operand lim sy (d + 1) r = Val v r1" and t: "cfg toks linv env (ss @ [5, 10]) (vs @ [x, v]) r1 sy out t"
    show "follows_at env ss vs sy out (?K v r1) t"
    proof (rule follows_bind)
      show "follows linv (yystep yylex env)
          (\<lambda>w r2. cfg toks linv env (ss @ [5, 10]) (vs @ [x, w]) r2 sy out) sy out (expr_rest lim sy (d + 1) v r1) t"
        using rest [OF d v, of x t] t by (simp add: expr_goto_def)
      fix w r2 t'
      assume "expr_rest lim sy (d + 1) v r1 = Val w r2" "cfg toks linv env (ss @ [5, 10]) (vs @ [x, w]) r2 sy out t'"
      with follows_close [of env ss vs x w r2 sy out t'] expr_rest_stops assms(2,3) lim
      show "follows_at env ss vs sy out (close_paren lim (d + 2) w r2) t'" by simp
    qed
  qed
  show ?thesis using follows_shift [OF assms(1) shift inner] lim by simp
qed

text \<open>A multiplying operator, whatever \<open>k\<close> goes on with its value.\<close>

lemma follows_mul:
  assumes "cfg toks linv env (ss @ [expr_goto (last ss)]) (vs @ [v]) (t # r) sy out s"
    and op: "mul_op t = Some f" "last ss \<in> {1, 5, 8, 12, 13}" and ss: "ss \<noteq> []"
    and lim: "lim = stack_limit env" "d = length ss"
    and right: "\<And>ss' vs' u. d + 1 < lim \<Longrightarrow> d + 2 = length ss' \<Longrightarrow> cfg toks linv env ss' vs' r sy out u \<Longrightarrow> ss' \<noteq> [] \<Longrightarrow>
      operand_state (last ss') \<Longrightarrow> last ss' \<noteq> 1 \<Longrightarrow> follows_at env ss' vs' sy out (operand lim sy (d + 2) r) u"
    and k: "\<And>b r1 w u. d + 1 < lim \<Longrightarrow> operand lim sy (d + 2) r = Val b r1 \<Longrightarrow> f v b = Some w \<Longrightarrow>
      cfg toks linv env (ss @ [expr_goto (last ss)]) (vs @ [w]) r1 sy out u \<Longrightarrow> follows_at env ss vs sy out (k w r1) u"
  shows "follows_at env ss vs sy out (guard_depth lim (d + 1)
    (pbind (operand lim sy (d + 2) r) (\<lambda>b r1. apply_op (f v b) (\<lambda>w. k w r1)))) s"
  unfolding lim
proof (rule follows_op [OF assms(1)])
  fix ss' vs' u
  assume "length ss + 1 < stack_limit env" "cfg toks linv env ss' vs' r sy out u" "length ss' = length ss + 2"
    "last ss' \<in> {12, 13, 14, 15}" "ss' \<noteq> []"
  then show "follows_at env ss' vs' sy out (operand (stack_limit env) sy (length ss + 2) r) u"
    using right [of ss' vs' u] lim by (auto simp: operand_state_def)
qed (use k lim op ss mul_op_Some [OF op(1)] in auto)

text \<open>An adding operator: the multiplications behind its right operand come first.\<close>

lemma follows_add:
  assumes "cfg toks linv env (ss @ [expr_goto (last ss)]) (vs @ [v]) (t # r) sy out s"
    and op: "add_op t = Some f" "mul_op t = None" "last ss \<in> {1, 5, 8}" and ss: "ss \<noteq> []"
    and lim: "lim = stack_limit env" "d = length ss"
    and right: "\<And>ss' vs' u. d + 1 < lim \<Longrightarrow> d + 2 = length ss' \<Longrightarrow> cfg toks linv env ss' vs' r sy out u \<Longrightarrow> ss' \<noteq> [] \<Longrightarrow>
      last ss' \<in> {12, 13} \<Longrightarrow> follows_at env ss' vs' sy out (operand lim sy (d + 2) r) u"
    and terms: "\<And>ss' vs' b r0 u. d + 1 < lim \<Longrightarrow> operand lim sy (d + 2) r = Val b r0 \<Longrightarrow> d + 2 = length ss' \<Longrightarrow>
      cfg toks linv env (ss' @ [expr_goto (last ss')]) (vs' @ [b]) r0 sy out u \<Longrightarrow> ss' \<noteq> [] \<Longrightarrow>
      last ss' \<in> {12, 13} \<Longrightarrow> follows_at env ss' vs' sy out (term_rest lim sy (d + 2) b r0) u"
    and k: "\<And>b r0 c r1 w u. d + 1 < lim \<Longrightarrow> operand lim sy (d + 2) r = Val b r0 \<Longrightarrow>
      term_rest lim sy (d + 2) b r0 = Val c r1 \<Longrightarrow> f v c = Some w \<Longrightarrow>
      cfg toks linv env (ss @ [expr_goto (last ss)]) (vs @ [w]) r1 sy out u \<Longrightarrow> follows_at env ss vs sy out (k w r1) u"
  shows "follows_at env ss vs sy out (guard_depth lim (d + 1)
    (pbind (pbind (operand lim sy (d + 2) r) (term_rest lim sy (d + 2))) (\<lambda>b r1. apply_op (f v b) (\<lambda>w. k w r1)))) s"
  unfolding lim
proof (rule follows_op [OF assms(1)])
  let ?p = "pbind (operand (stack_limit env) sy (length ss + 2) r) (term_rest (stack_limit env) sy (length ss + 2))"
  fix ss' vs' u
  assume *: "length ss + 1 < stack_limit env" "cfg toks linv env ss' vs' r sy out u" "length ss' = length ss + 2"
    "last ss' = tok_sym t + 7" "ss' \<noteq> []"
  have q: "last ss' \<in> {12, 13}" using *(4) add_op_Some [OF op(1)] by auto
  show "follows_at env ss' vs' sy out ?p u"
  proof (rule follows_bind)
    show "follows_at env ss' vs' sy out (operand (stack_limit env) sy (length ss + 2) r) u"
      using right [of ss' vs' u] * q lim by simp
  qed (use terms [of _ _ ss' vs'] *(1,3,5) q lim in auto)
next
  fix b r1
  assume "pbind (operand (stack_limit env) sy (length ss + 2) r) (term_rest (stack_limit env) sy (length ss + 2)) = Val b r1"
  then show "stops (\<lambda>t. mul_op t \<noteq> None) r1" by (auto simp: pbind_Val dest: term_rest_stops)
qed (use k lim op ss in \<open>auto simp: pbind_Val\<close>)

lemma simulation:
  "lim = stack_limit env \<Longrightarrow> d = length ss \<Longrightarrow> cfg toks linv env ss vs ts sy out s \<Longrightarrow> ss \<noteq> [] \<Longrightarrow>
     operand_state (last ss) \<Longrightarrow>
     (last ss = 1 \<Longrightarrow> ts \<noteq> [] \<and> (\<forall>i r. ts \<noteq> TVar i # TEq # r)) \<Longrightarrow>
     follows_at env ss vs sy out (operand lim sy d ts) s"
  "lim = stack_limit env \<Longrightarrow> d = length ss \<Longrightarrow>
     cfg toks linv env (ss @ [expr_goto (last ss)]) (vs @ [v]) ts sy out s \<Longrightarrow> ss \<noteq> [] \<Longrightarrow>
     last ss \<in> {12, 13} \<Longrightarrow> follows_at env ss vs sy out (term_rest lim sy d v ts) s"
  "lim = stack_limit env \<Longrightarrow> d = length ss \<Longrightarrow>
     cfg toks linv env (ss @ [expr_goto (last ss)]) (vs @ [v]) ts sy out s \<Longrightarrow> ss \<noteq> [] \<Longrightarrow>
     last ss \<in> {1, 5, 8} \<Longrightarrow> follows_at env ss vs sy out (expr_rest lim sy d v ts) s"
proof (induction lim sy d ts and lim sy d v ts and lim sy d v ts
    arbitrary: ss vs s and ss vs s and ss vs s rule: operand_term_rest_expr_rest.induct)
  case (1 lim sy d ts)
  note C = "1.prems"
  show ?case
  proof (cases ts rule: starts_operand.cases)
    case (1 n r)
    then show ?thesis using follows_operand_leaf [of env ss vs "TInt n" r sy out s n 0] C by simp
  next
    case (2 i r)
    have "\<not> (last ss = 1 \<and> next_sym r = 10)"
      using C(6) 2 by (cases r; cases "hd r") (auto simp: next_sym_def YYEOF_def)
    then show ?thesis using follows_operand_leaf [of env ss vs "TVar i" r sy out s 0 i] C 2 by simp
  next
    case (3 r)
    show ?thesis unfolding 3
    proof (rule follows_paren [OF C(3) [unfolded 3] C(5,4,1,2)])
      show "follows_at env (ss @ [5]) (vs @ [x]) sy out (operand lim sy (d + 1) r) u"
        if "d < lim" "cfg toks linv env (ss @ [5]) (vs @ [x]) r sy out u" for x u
        by (rule "1.IH"(1) [OF 3 refl that(1) C(1) _ that(2)]) (use C(2) in \<open>simp_all add: operand_state_def\<close>)
      show "follows_at env (ss @ [5]) (vs @ [x]) sy out (expr_rest lim sy (d + 1) v r1) u"
        if "d < lim" "operand lim sy (d + 1) r = Val v r1"
          "cfg toks linv env ((ss @ [5]) @ [10]) ((vs @ [x]) @ [v]) r1 sy out u" for x v r1 u
        by (rule "1.IH"(2) [OF 3 refl that(1,2) C(1)]) (use C(2) that(3) in \<open>simp_all add: expr_goto_def\<close>)
    qed
  qed (use operand_error [OF C(3,5)] C(6) in \<open>auto simp: follows_def next_sym_def YYEOF_def\<close>)
next
  case (2 lim sy d v ts)
  note C = "2.prems"
  show ?case
  proof (cases "\<exists>t r f. ts = t # r \<and> mul_op t = Some f")
    case True
    then obtain t r f where ts: "ts = t # r" and f: "mul_op t = Some f" by blast
    have "follows_at env ss vs sy out (guard_depth lim (d + 1)
        (pbind (operand lim sy (d + 2) r) (\<lambda>b r1. apply_op (f v b) (\<lambda>w. term_rest lim sy d w r1)))) s"
    proof (rule follows_mul [OF C(3) [unfolded ts] f _ C(4,1,2)])
      show "follows_at env ss' vs' sy out (operand lim sy (d + 2) r) u"
        if "d + 1 < lim" "d + 2 = length ss'" "cfg toks linv env ss' vs' r sy out u" "ss' \<noteq> []"
          "operand_state (last ss')" "last ss' \<noteq> 1" for ss' vs' u
        by (rule "2.IH"(1) [OF ts f that(1) C(1) that(2-5)]) (use that(6) in simp)
      show "follows_at env ss vs sy out (term_rest lim sy d w r1) u"
        if "d + 1 < lim" "operand lim sy (d + 2) r = Val b r1" "f v b = Some w"
          "cfg toks linv env (ss @ [expr_goto (last ss)]) (vs @ [w]) r1 sy out u" for b r1 w u
        by (rule "2.IH"(2) [OF ts f that(1-3) C(1,2) that(4) C(4,5)])
    qed (use C(5) in auto)
    then show ?thesis using ts f by simp
  next
    case False
    then have "term_rest lim sy d v ts = Val v ts" by (cases ts) (auto simp: not_Some_eq)
    then show ?thesis using follows_Val C(3) by simp
  qed
next
  case (3 lim sy d v ts)
  note C = "3.prems"
  consider (mul) t r f where "ts = t # r" "mul_op t = Some f"
    | (add) t r f where "ts = t # r" "mul_op t = None" "add_op t = Some f" | (stop) "expr_rest lim sy d v ts = Val v ts"
    by (cases ts; cases "mul_op (hd ts)"; cases "add_op (hd ts)") auto
  then show ?case
  proof cases
    case mul
    have "follows_at env ss vs sy out (guard_depth lim (d + 1)
        (pbind (operand lim sy (d + 2) r) (\<lambda>b r1. apply_op (f v b) (\<lambda>w. expr_rest lim sy d w r1)))) s"
    proof (rule follows_mul [OF C(3) [unfolded mul(1)] mul(2) _ C(4,1,2)])
      show "follows_at env ss' vs' sy out (operand lim sy (d + 2) r) u"
        if "d + 1 < lim" "d + 2 = length ss'" "cfg toks linv env ss' vs' r sy out u" "ss' \<noteq> []"
          "operand_state (last ss')" "last ss' \<noteq> 1" for ss' vs' u
        by (rule "3.IH"(4) [OF mul that(1) C(1) that(2-5)]) (use that(6) in simp)
      show "follows_at env ss vs sy out (expr_rest lim sy d w r1) u"
        if "d + 1 < lim" "operand lim sy (d + 2) r = Val b r1" "f v b = Some w"
          "cfg toks linv env (ss @ [expr_goto (last ss)]) (vs @ [w]) r1 sy out u" for b r1 w u
        by (rule "3.IH"(5) [OF mul that(1-3) C(1,2) that(4) C(4,5)])
    qed (use C(5) in auto)
    then show ?thesis using mul by simp
  next
    case add
    have "follows_at env ss vs sy out (guard_depth lim (d + 1)
        (pbind (pbind (operand lim sy (d + 2) r) (term_rest lim sy (d + 2)))
          (\<lambda>b r1. apply_op (f v b) (\<lambda>w. expr_rest lim sy d w r1)))) s"
    proof (rule follows_add [OF C(3) [unfolded add(1)] add(3,2) C(5,4,1,2)])
      show "follows_at env ss' vs' sy out (operand lim sy (d + 2) r) u"
        if "d + 1 < lim" "d + 2 = length ss'" "cfg toks linv env ss' vs' r sy out u" "ss' \<noteq> []" "last ss' \<in> {12, 13}" for ss' vs' u
        by (rule "3.IH"(1) [OF add that(1) C(1) that(2-4)]) (use that(5) in \<open>auto simp: operand_state_def\<close>)
      show "follows_at env ss' vs' sy out (term_rest lim sy (d + 2) b r0) u"
        if "d + 1 < lim" "operand lim sy (d + 2) r = Val b r0" "d + 2 = length ss'"
          "cfg toks linv env (ss' @ [expr_goto (last ss')]) (vs' @ [b]) r0 sy out u" "ss' \<noteq> []" "last ss' \<in> {12, 13}" for ss' vs' b r0 u
        by (rule "3.IH"(2) [OF add that(1,2) C(1) that(3-6)])
      show "follows_at env ss vs sy out (expr_rest lim sy d w r1) u"
        if "d + 1 < lim" "operand lim sy (d + 2) r = Val b r0" "term_rest lim sy (d + 2) b r0 = Val c r1" "f v c = Some w"
          "cfg toks linv env (ss @ [expr_goto (last ss)]) (vs @ [w]) r1 sy out u" for b r0 c r1 w u
        by (rule "3.IH"(3) [OF add that(1-4) C(1,2) that(5) C(4,5)])
    qed
    then show ?thesis using add by (simp add: pbind_assoc)
  qed (use follows_Val C(3) in simp)
qed

end

end
