(* ===== verification/Parser_Program.thy ===== *)
theory Parser_Program
  imports Parser_Refines
begin

text \<open>
  From expressions to whole runs: a statement, the lines of a program, and \<open>yyparse\<close> from its
  first instruction to its return, which ends as \<open>program\<close> of \<open>Calc_Spec\<close> says.
\<close>

lemma statement_expr:
  "(\<forall>i r. ts \<noteq> TVar i # TEq # r) \<Longrightarrow>
     statement lim sy out ts =
       with_value sy out (expr lim sy 2 ts) (\<lambda>v r. end_of_line sy (out @ printed v) r)"
  by (cases "(lim, sy, out, ts)" rule: statement.cases) auto

lemma expr_stops: "expr lim sy d ts = Val v r \<Longrightarrow> stops (\<lambda>t. mul_op t \<noteq> None \<or> add_op t \<noteq> None) r"
  by (auto simp: expr_def pbind_Val dest: expr_rest_stops)

lemma end_of_line_error:
  "next_sym r \<noteq> 9 \<Longrightarrow> end_of_line sy out r = Ends (syntax_error_end sy out)"
  by (cases "(sy, out, r)" rule: end_of_line.cases) (auto simp: next_sym_def)

context token_source
begin

lemma follows_expr:
  assumes "cfg toks linv env ss vs ts sy out s" "ss \<noteq> []" "last ss \<in> {1, 5, 8}"
    and "last ss = 1 \<Longrightarrow> ts \<noteq> [] \<and> (\<forall>i r. ts \<noteq> TVar i # TEq # r)"
  shows "follows_at env ss vs sy out (expr (stack_limit env) sy (length ss) ts) s"
  unfolding expr_def
proof (rule follows_bind)
  show "follows_at env ss vs sy out (operand (stack_limit env) sy (length ss) ts) s"
    using assms by (intro simulation(1)) (auto simp: operand_state_def)
next
  fix v r t
  assume "cfg toks linv env (ss @ [expr_goto (last ss)]) (vs @ [v]) r sy out t"
  then show "follows_at env ss vs sy out (expr_rest (stack_limit env) sy (length ss) v r) t"
    using assms(2,3) by (intro simulation(3)) auto
qed

text \<open>At the start of a line, and how a statement is followed from there.\<close>

definition line_start :: "cenv \<Rightarrow> tok list \<Rightarrow> cint list \<Rightarrow> string \<Rightarrow> 'l yyparser \<Rightarrow> bool" where
  "line_start env ts sy out s \<longleftrightarrow> (\<exists>vs. cfg toks linv env [0, 1] vs ts sy out s)"

definition follows_stmt :: "cenv \<Rightarrow> stmt_end \<Rightarrow> 'l yyparser \<Rightarrow> bool" where
  "follows_stmt env e s =
     (case e of
        Ends e \<Rightarrow> runs_to (yystep yylex env) s (ended linv e)
      | Goes_on sy out r \<Rightarrow> runs_to (yystep yylex env) s (line_start env r sy out))"

lemma follows_stmt_runs:
  "runs_to (yystep yylex env) s Q \<Longrightarrow> (\<And>t. Q t \<Longrightarrow> follows_stmt env e t) \<Longrightarrow> follows_stmt env e s"
  by (cases e) (auto simp: follows_stmt_def intro: runs_to_trans)

lemma follows_with_value:
  assumes "follows linv (yystep yylex env) Q sy out p s"
    and "\<And>v r t. p = Val v r \<Longrightarrow> Q v r t \<Longrightarrow> follows_stmt env (k v r) t"
  shows "follows_stmt env (with_value sy out p k) s"
proof (cases p)
  case (Val v r)
  with assms(1) have "runs_to (yystep yylex env) s (Q v r)" by (simp add: follows_def)
  then show ?thesis using Val assms(2) follows_stmt_runs by fastforce
qed (use assms(1) in \<open>simp_all add: follows_def follows_stmt_def\<close>)

text \<open>Behind a complete statement comes the newline, and rule 2 closes the line.\<close>

lemma follows_end_of_line:
  assumes s: "cfg toks linv env [0, 1, 6] (vs @ [w]) r sy out s"
  shows "follows_stmt env (end_of_line sy out r) s"
proof (cases "\<exists>q. r = TNl # q")
  case True
  then obtain q where r: "r = TNl # q" by blast
  have lim: "length [0, 1, 6 :: int] < stack_limit env" "length [0 :: int] < stack_limit env"
    using stack_limit_ge [of env] by simp_all
  have "lr_action (last [0, 1, 6]) (tok_sym TNl) = Shift 11"
    by (simp add: table_simps grammar_action_def operand_state_def)
  from cfg_shift [OF s [unfolded r] this lim(1)]
  show ?thesis
  proof (rule follows_stmt_runs, elim exE conjE)
    fix t v
    assume t: "cfg toks linv env ([0, 1, 6] @ [11]) ((vs @ [w]) @ [v]) q sy out t"
    then obtain v0 v1 where vs: "vs = [v0, v1]"
      using cfg_lengths [OF t] by (auto simp: length_Suc_conv)
    have sy: "length sy = 26" using t by (simp add: cfg_def core_def)
    have "runs_to (yystep yylex env) t
        (\<lambda>t. \<exists>w. ([1, 6, 11 :: int] \<noteq> [] \<longrightarrow> w = v1) \<and> cfg toks linv env ([0] @ [1]) ([v0] @ [w]) q sy out t)"
      by (rule cfg_reduce [where r = 2 and pop = "[1, 6, 11]" and vpop = "[v1, w, v]"])
        (use t vs sy lim(2) in \<open>auto simp: table_simps grammar_action_def operand_state_def
           yy_action_def Let_def core_def\<close>)
    then have "runs_to (yystep yylex env) t (line_start env q sy out)"
      by (rule runs_to_mono) (auto simp: line_start_def)
    then show "follows_stmt env (end_of_line sy out r) t" by (simp add: r follows_stmt_def)
  qed
next
  case False
  then have sym: "next_sym r \<noteq> 9" by (cases r; cases "hd r") (auto simp: next_sym_def YYEOF_def)
  then have "lr_action (last [0, 1, 6]) (next_sym r) = SyntaxError"
    by (simp add: table_simps grammar_action_def operand_state_def)
  from cfg_syntax_error [OF s this] end_of_line_error [OF sym] show ?thesis by (simp add: follows_stmt_def)
qed

text \<open>Rule 4 prints.\<close>

lemma reduce_print:
  assumes s: "cfg toks linv env [0, 1, 7] (vs @ [v]) r sy out s"
    and "stops (\<lambda>t. mul_op t \<noteq> None \<or> add_op t \<noteq> None) r"
  shows "runs_to (yystep yylex env) s (cfg toks linv env [0, 1, 6] (vs @ [v]) r sy (out @ printed v))"
proof -
  have len: "length vs = 2" and sy: "length sy = 26" using cfg_lengths [OF s] s by (auto simp: cfg_def core_def)
  have "runs_to (yystep yylex env) s
      (\<lambda>t. \<exists>w. ([7 :: int] \<noteq> [] \<longrightarrow> w = v) \<and> cfg toks linv env ([0, 1] @ [6]) (vs @ [w]) r sy (out @ printed v) t)"
  proof (rule cfg_reduce [where r = 4 and pop = "[7]" and vpop = "[v]"])
    fix t v0
    assume "core toks linv env ([0, 1] @ [7]) (vs @ [v]) r sy out t" "yyn t = 4" "[7 :: int] \<noteq> [] \<longrightarrow> v0 = hd [v]"
    then show "\<exists>w. ([7 :: int] \<noteq> [] \<longrightarrow> w = v) \<and> yy_action (t\<lparr>yylen := int (length [7 :: int]), yyval := v0\<rparr>) =
        Inr (t\<lparr>yylen := int (length [7 :: int]), yyval := w, sym := sy, stdout := out @ printed v\<rparr>)"
      using rd_yyvs_top [of env "[0, 1, 7]" vs "[v]" r sy out t 0]
      by (auto simp: yy_action_def Let_def printed_def core_def)
  qed (use s len sy stops_op_sym [OF assms(2)] stack_limit_ge [of env] in
      \<open>auto simp: table_simps grammar_action_def operand_state_def\<close>)
  then show ?thesis by simp
qed

text \<open>Rule 5 stores.\<close>

lemma reduce_assign:
  assumes s: "cfg toks linv env [0, 1, 4, 8, 16] (vs @ [of_nat i, x, v]) r sy out s" "i < 26"
    and "stops (\<lambda>t. mul_op t \<noteq> None \<or> add_op t \<noteq> None) r"
  shows "runs_to (yystep yylex env) s (cfg toks linv env [0, 1, 6] (vs @ [of_nat i]) r (sy[i := v]) out)"
proof -
  have len: "length vs = 2" and sy: "length sy = 26" using cfg_lengths [OF s(1)] s by (auto simp: cfg_def core_def)
  have i: "sint (of_nat i :: cint) = int i"
    by (rule sint_variable [OF s(2)])
  have "runs_to (yystep yylex env) s
      (\<lambda>t. \<exists>w. ([4, 8, 16 :: int] \<noteq> [] \<longrightarrow> w = of_nat i)
             \<and> cfg toks linv env ([0, 1] @ [6]) (vs @ [w]) r (sy[i := v]) out t)"
  proof (rule cfg_reduce [where r = 5 and pop = "[4, 8, 16]" and vpop = "[of_nat i, x, v]"])
    fix t v0
    assume t: "core toks linv env ([0, 1] @ [4, 8, 16]) (vs @ [of_nat i, x, v]) r sy out t" "yyn t = 5"
      "[4, 8, 16 :: int] \<noteq> [] \<longrightarrow> v0 = hd [of_nat i, x, v]"
    then show "\<exists>w. ([4, 8, 16 :: int] \<noteq> [] \<longrightarrow> w = of_nat i)
        \<and> yy_action (t\<lparr>yylen := int (length [4, 8, 16 :: int]), yyval := v0\<rparr>) =
          Inr (t\<lparr>yylen := int (length [4, 8, 16 :: int]), yyval := w, sym := sy[i := v], stdout := out\<rparr>)"
      using rd_yyvs_top [OF t(1), of 0] rd_yyvs_top [OF t(1), of 2] i s(2) sy
      by (auto simp: yy_action_def Let_def core_def)
  qed (use s len sy stops_op_sym [OF assms(3)] stack_limit_ge [of env] in
      \<open>auto simp: table_simps grammar_action_def operand_state_def\<close>)
  then show ?thesis by simp
qed

lemma follows_assignment:
  assumes s: "cfg toks linv env [0, 1] vs (TVar i # TEq # ts) sy out s"
  shows "follows_stmt env (statement (stack_limit env) sy out (TVar i # TEq # ts)) s"
proof -
  have len: "length vs = 2" using cfg_lengths [OF s] by simp
  have lim: "length [0, 1 :: int] < stack_limit env" "length [0, 1, 4 :: int] < stack_limit env"
    using stack_limit_ge [of env] by simp_all
  have shift: "lr_action (last [0, 1]) (tok_sym (TVar i)) = Shift 4"
    "lr_action (last ([0, 1] @ [4])) (tok_sym TEq) = Shift 8"
    by (simp_all add: table_simps grammar_action_def operand_state_def)
  have lim2: "length ([0, 1] @ [4 :: int]) < stack_limit env" using lim(2) by simp
  have tail: "follows_stmt env (statement (stack_limit env) sy out (TVar i # TEq # ts)) t"
    if t: "cfg toks linv env (([0, 1] @ [4]) @ [8]) ((vs @ [of_nat i]) @ [x]) ts sy out t" and i: "i < 26" for x t
    unfolding statement.simps
  proof (rule follows_with_value)
    show "follows linv (yystep yylex env)
        (\<lambda>v r. cfg toks linv env [0, 1, 4, 8, 16] (vs @ [of_nat i, x, v]) r sy out) sy out
        (expr (stack_limit env) sy 4 ts) t"
      using follows_expr [OF t] by (simp add: expr_goto_def numeral_eq_Suc)
    fix v r t'
    assume v: "expr (stack_limit env) sy 4 ts = Val v r"
      and t': "cfg toks linv env [0, 1, 4, 8, 16] (vs @ [of_nat i, x, v]) r sy out t'"
    show "follows_stmt env (end_of_line (sy[i := v]) out r) t'"
      using reduce_assign [OF t' i expr_stops [OF v]] by (rule follows_stmt_runs) (rule follows_end_of_line)
  qed
  show ?thesis
    using cfg_shift [OF s shift(1) lim(1)]
  proof (rule follows_stmt_runs, elim exE conjE)
    fix t v
    assume v: "tok_lval (TVar i) v = v" "tok_ok (TVar i)"
      and t: "cfg toks linv env ([0, 1] @ [4]) (vs @ [v]) (TEq # ts) sy out t"
    show "follows_stmt env (statement (stack_limit env) sy out (TVar i # TEq # ts)) t"
      using cfg_shift [OF t shift(2) lim2] by (rule follows_stmt_runs) (use v tail in auto)
  qed
qed

lemma follows_statement:
  assumes "line_start env ts sy out s" "ts \<noteq> []"
  shows "follows_stmt env (statement (stack_limit env) sy out ts) s"
proof -
  obtain vs where s: "cfg toks linv env [0, 1] vs ts sy out s" using assms(1) by (auto simp: line_start_def)
  show ?thesis
  proof (cases "\<exists>i r. ts = TVar i # TEq # r")
    case True
    then show ?thesis using follows_assignment s by blast
  next
    case False
    then have no: "\<forall>i r. ts \<noteq> TVar i # TEq # r" by blast
    show ?thesis
      unfolding statement_expr [OF no]
    proof (rule follows_with_value)
      show "follows linv (yystep yylex env)
          (\<lambda>v r. cfg toks linv env [0, 1, 7] (vs @ [v]) r sy out) sy out (expr (stack_limit env) sy 2 ts) s"
        using follows_expr [OF s] no assms(2) by (simp add: expr_goto_def numeral_2_eq_2)
      fix v r t
      assume "expr (stack_limit env) sy 2 ts = Val v r" "cfg toks linv env [0, 1, 7] (vs @ [v]) r sy out t"
      then show "follows_stmt env (end_of_line sy (out @ printed v) r) t"
        using reduce_print expr_stops by (blast intro: follows_stmt_runs follows_end_of_line)
    qed
  qed
qed

lemma follows_program:
  "line_start env ts sy out s \<Longrightarrow>
     runs_to (yystep yylex env) s (ended linv (program (stack_limit env) sy out ts))"
proof (induction "stack_limit env" sy out ts arbitrary: s rule: program.induct)
  case (1 sy out ts)
  show ?case
  proof (cases "ts = []")
    case True
    from "1.prems" obtain vs where s: "cfg toks linv env [0, 1] vs ts sy out s"
      by (auto simp: line_start_def)
    have "lr_action (last [0, 1]) (next_sym ts) = Accept"
      using True by (simp add: table_simps grammar_action_def operand_state_def next_sym_def YYEOF_def)
    with True cfg_accept [OF s] show ?thesis by (simp add: program.simps [of "stack_limit env" sy out "[]"])
  next
    case False
    note st = follows_statement [OF "1.prems" False]
    show ?thesis
    proof (cases "statement (stack_limit env) sy out ts")
      case (Goes_on sy' out' r)
      then have "runs_to (yystep yylex env) s (line_start env r sy' out')"
        using st by (simp add: follows_stmt_def)
      then show ?thesis
        using "1.hyps" [OF False Goes_on] False Goes_on
        by (auto simp: program.simps [of "stack_limit env" sy out ts] intro: runs_to_trans)
    qed (use st False in \<open>simp add: follows_stmt_def program.simps [of "stack_limit env" sy out ts]\<close>)
  qed
qed

section \<open>The whole function\<close>

lemma enter_reaches_line_start:
  assumes "linv (scanner s) (stderr s)" "length (sym s) = 26"
  shows "runs_to (yystep yylex env) (yyparse_enter env s)
           (line_start env (toks (scanner s)) (sym s) (stdout s))"
proof -
  let ?v = "fresh_vs env 0"
  let ?s0 = "yyparse_enter env s"
  let ?s1 = "goto yybackup (?s0\<lparr>yyss := (yyss ?s0)[0 := 0]\<rparr>)"
  have depth: "1 < YYINITDEPTH" "YYINITDEPTH \<le> YYMAXDEPTH" by (simp_all add: YYINITDEPTH_def YYMAXDEPTH_def)
  have sizes: "length (yyss ?s0) = YYINITDEPTH" "length (yyvs ?s0) = YYINITDEPTH"
    by (simp_all add: yyparse_enter_def)
  then have step: "yystep yylex env ?s0 = ?s1"
    using depth by (simp add: yystep_def do_yysetstate_def yyparse_enter_def wr_def Let_def)
  have "take (Suc 0) (yyvs ?s0) = [?v]" "take (Suc 0) (yyss ?s1) = [0]"
    using take_Suc_conv_app_nth [of 0 "yyvs ?s0"] take_Suc_conv_app_nth [of 0 "yyss ?s1"] sizes depth
    by (simp_all add: yyparse_enter_def)
  with sizes have s1: "cfg toks linv env ([0] @ []) ([?v] @ []) (toks (scanner s)) (sym s) (stdout s) ?s1"
    using assms depth
    by (simp add: cfg_def core_def frame_def on_stack_def pending_def stack_limit_def yyparse_enter_def)
  have lim: "length [0 :: int] < stack_limit env" using stack_limit_ge [of env] by simp
  have "runs_to (yystep yylex env) ?s1
      (\<lambda>t. \<exists>w. ([] \<noteq> ([] :: int list) \<longrightarrow> w = 0)
             \<and> cfg toks linv env ([0] @ [1]) ([?v] @ [w]) (toks (scanner s)) (sym s) (stdout s) t)"
  proof (rule cfg_reduce [OF s1, where r = 3])
    fix t v0
    assume "core toks linv env ([0] @ []) ([?v] @ []) (toks (scanner s)) (sym s) (stdout s) t" "yyn t = 3"
    then show "\<exists>w. ([] \<noteq> ([] :: int list) \<longrightarrow> w = 0)
        \<and> yy_action (t\<lparr>yylen := int (length ([] :: int list)), yyval := v0\<rparr>) =
          Inr (t\<lparr>yylen := int (length ([] :: int list)), yyval := w, sym := sym s, stdout := stdout s\<rparr>)"
      by (intro exI [of _ v0]) (simp add: yy_action_def Let_def core_def)
  qed (use assms lim in \<open>simp_all add: table_simps grammar_action_def operand_state_def\<close>)
  then have "runs_to (yystep yylex env) ?s1 (line_start env (toks (scanner s)) (sym s) (stdout s))"
    by (rule runs_to_mono) (auto simp: line_start_def)
  then show ?thesis by (rule runs_to_stepI [where f = "yystep yylex env", OF step])
qed

lemma ended_halted: "ended linv e t \<Longrightarrow> halted (pc t)"
  by (auto simp: ended_def returned_def trapped_def halted_def split: calc_end.splits)

theorem yyparse_program:
  assumes "linv (scanner s) (stderr s)" "length (sym s) = 26"
  shows "\<exists>fuel t. yyparse yylex env fuel s = Some t
           \<and> ended linv (program (stack_limit env) (sym s) (stdout s) (toks (scanner s))) t"
proof -
  have "runs_to (yystep yylex env) (yyparse_enter env s)
      (ended linv (program (stack_limit env) (sym s) (stdout s) (toks (scanner s))))"
    by (rule runs_to_trans [OF enter_reaches_line_start [OF assms] follows_program])
  then show ?thesis by (auto simp: runs_to_def yyparse_def Let_def ended_halted)
qed

end

text \<open>More fuel never changes the result of a run that has ended.\<close>

lemma yystep_halted: "halted (pc s) \<Longrightarrow> yystep yylex env s = s"
  by (auto simp: halted_def yystep_def)

lemma yyparse_more_fuel:
  assumes "yyparse yylex env m s = Some t" "m \<le> n"
  shows "yyparse yylex env n s = Some t"
proof -
  let ?f = "yystep yylex env"
  have t: "t = (?f ^^ m) (yyparse_enter env s)" "halted (pc t)"
    using assms(1) by (auto simp: yyparse_def Let_def split: if_splits)
  have "(?f ^^ n) (yyparse_enter env s) = (?f ^^ m) (yyparse_enter env s)"
    using funpow_stays [where f = ?f, OF _ assms(2)] yystep_halted [OF t(2)] t(1) by metis
  with t show ?thesis by (simp add: yyparse_def Let_def)
qed

lemma yyparse_unique:
  "yyparse yylex env m s = Some t \<Longrightarrow> yyparse yylex env n s = Some u \<Longrightarrow> t = u"
  by (metis linear option.inject yyparse_more_fuel)

end
