(* ===== verification/Scanner_Correct.thy ===== *)
theory Scanner_Correct
  imports Scanner_Match Parser_Program
begin

text \<open>
  The scanner against its specification: \<open>next_tok\<close> splits an input into the tokens of
  \<open>calc.l\<close> by longest match; \<open>yylex\<close>, with its buffers and refills, delivers exactly these. This
  makes it a \<open>token_source\<close> for the parser.
\<close>

section \<open>Longest match\<close>

text \<open>The token that starts with the open text \<open>t\<close> when \<open>R\<close> follows, and the input behind it.\<close>

definition munch :: "string \<Rightarrow> string \<Rightarrow> string \<times> string" where
  "munch t R =
     (if t = [CHR 0x00] then (t, R)
      else if t = [] \<and> R \<noteq> [] \<and> \<not> is_digit (hd R) then ([hd R], tl R)
      else (t @ takeWhile is_digit R, dropWhile is_digit R))"

definition rule_of :: "string \<Rightarrow> int" where
  "rule_of T = dfa_accept (rule_class (hd T) + 3)"

lemma open_text_rule: "open_text t \<Longrightarrow> t \<noteq> [] \<Longrightarrow> dfa_accept (text_state t) = rule_of t"
proof -
  assume t: "open_text t" "t \<noteq> []"
  show ?thesis
  proof (cases "t = [CHR 0x00]")
    case True
    then show ?thesis using text_state_accept [OF t] by (simp add: rule_of_def rule_class_def dfa_accept_def)
  next
    case False
    then have "is_digit (hd t)" using t by (cases t) (auto simp: open_text_def)
    then have "rule_class (hd t) = 5" by (simp add: rule_class_digit)
    then show ?thesis using text_state_accept [OF t] False by (simp add: rule_of_def dfa_accept_def)
  qed
qed

lemma rule_of_append: "t \<noteq> [] \<Longrightarrow> rule_of (t @ u) = rule_of t"
  by (simp add: rule_of_def)

text \<open>The action is reached for the longest match.\<close>

definition acts_on :: "lexenv \<Rightarrow> nat \<Rightarrow> string \<times> string \<Rightarrow> cint \<Rightarrow> string \<Rightarrow> yylexer \<Rightarrow> bool" where
  "acts_on env b TR v m x \<longleftrightarrow>
     (\<exists>B C q p e. gets_to env x (acting b B C q p e (rule_of (fst TR)) v m) \<and> p \<le> e \<and> e \<le> length C
        \<and> take (e - p) (drop p C) = fst TR \<and> drop e C @ q = snd TR)"

lemma acts_on_trans:
  "gets_to env x P \<Longrightarrow> (\<And>y. P y \<Longrightarrow> acts_on env b TR v m y) \<Longrightarrow> acts_on env b TR v m x"
  unfolding acts_on_def gets_to_def by metis

lemma acts_onI:
  "gets_to env x (acting b B C q p e (rule_of T) v m) \<Longrightarrow> p \<le> e \<Longrightarrow> e \<le> length C \<Longrightarrow>
     T = take (e - p) (drop p C) \<Longrightarrow> R = drop e C @ q \<Longrightarrow> acts_on env b (T, R) v m x"
  unfolding acts_on_def fst_conv snd_conv by blast

lemma gets_to_ex: "gets_to env x P \<Longrightarrow> (\<And>y. P y \<Longrightarrow> \<exists>B. gets_to env y (Q B)) \<Longrightarrow> \<exists>B. gets_to env x (Q B)"
  unfolding gets_to_def by metis

definition munches :: "lexenv \<Rightarrow> nat \<Rightarrow> string \<Rightarrow> string \<Rightarrow> cint \<Rightarrow> string \<Rightarrow> yylexer \<Rightarrow> bool" where
  "munches env b t R v m x \<longleftrightarrow>
     (if t = [] \<and> R = [] then \<exists>B. gets_to env x (at_eof b B v m) else acts_on env b (munch t R) v m x)"

lemma munches_trans:
  "gets_to env x P \<Longrightarrow> (\<And>y. P y \<Longrightarrow> munches env b t R v m y) \<Longrightarrow> munches env b t R v m x"
  unfolding munches_def
  using acts_on_trans [of env x P b "munch t R" v m] gets_to_ex [of env x P "\<lambda>B. at_eof b B v m"]
  by presburger

lemma munch_digit: "is_digit c \<Longrightarrow> t \<noteq> [CHR 0x00] \<Longrightarrow> munch (t @ [c]) R = munch t (c # R)"
  by (auto simp: munch_def append_eq_Cons_conv)

text \<open>
  The three cases of the next character: one of the buffer, a NUL of the input, the end of the
  buffer. Each is reduced to the same claim for a longer text or a later buffer.
\<close>

lemma match_inside:
  assumes "matching b B C q p e v m x" "e < length C" "C ! e \<noteq> CHR 0x00" "t = take (e - p) (drop p C)"
    and "\<And>y. matching b B C q p (Suc e) v m y \<Longrightarrow> munches env b (t @ [C ! e]) (drop (Suc e) C @ q) v m y"
  shows "munches env b t (drop e C @ q) v m x"
proof -
  have pe: "p \<le> e" and t: "open_text t" using assms(1,4) by (simp_all add: matching_def)
  have R: "drop e C @ q = C ! e # drop (Suc e) C @ q" using assms(2) by (simp add: Cons_nth_drop_Suc)
  consider "is_digit (C ! e)" "t \<noteq> [CHR 0x00]" | "t = []" "\<not> is_digit (C ! e)" | "t \<noteq> []" "is_digit (C ! e) \<longrightarrow> t = [CHR 0x00]"
    by fastforce
  then show ?thesis
  proof cases
    case 1
    then have "munches env b (t @ [C ! e]) (drop (Suc e) C @ q) v m x"
      using munches_trans [OF match_digit [OF assms(1,2)]] assms(4,5) by blast
    then show ?thesis using munch_digit [of "C ! e" t] 1 R by (simp add: munches_def)
  next
    case 2
    then have "p = e" using assms(2,4) pe by auto
    then have "acts_on env b ([C ! e], drop (Suc e) C @ q) v m x"
      using match_single [of b B C q e v m x env] assms(1-3) 2
      by (intro acts_onI [where p = e and e = "Suc e"]) (auto simp: rule_of_def take_Suc_conv_app_nth)
    then show ?thesis using 2 unfolding R by (simp add: munches_def munch_def)
  next
    case 3
    have "munch t (drop e C @ q) = (t, drop e C @ q)" using 3 t unfolding R by (auto simp: munch_def)
    moreover have "acts_on env b (t, drop e C @ q) v m x"
      using match_stop [OF assms(1,2)] 3 assms(2-4) pe open_text_rule [OF t 3(1)]
      by (intro acts_onI [where p = p and e = e]) auto
    ultimately show ?thesis using 3 by (simp add: munches_def)
  qed
qed

lemma match_NUL_inside:
  assumes "acting b B C q p (Suc e) 7 v m y" "p \<le> e" "e < length C" "C ! e = CHR 0x00"
    and "t = take (e - p) (drop p C)" "open_text t"
    and "\<And>B z. matching b B C q p (Suc e) v m z \<Longrightarrow> munches env b (t @ [CHR 0x00]) (drop (Suc e) C @ q) v m z"
  shows "munches env b t (drop e C @ q) v m y"
proof -
  have R: "drop e C @ q = CHR 0x00 # drop (Suc e) C @ q" using assms(3,4) by (simp add: Cons_nth_drop_Suc [symmetric])
  obtain B' where B': "if t = [] then gets_to env y (matching b B' C q p (Suc e) v m)
          else gets_to env y (acting b B' C q p e (dfa_accept (text_state t)) v m)"
    using eob_real_NUL [OF assms(1-6)] by blast
  show ?thesis
  proof (cases "t = []")
    case True
    then have "munches env b [CHR 0x00] (drop (Suc e) C @ q) v m y" using munches_trans B' assms(7) by simp
    then show ?thesis unfolding True R by (simp add: munches_def munch_def)
  next
    case False
    then have "acts_on env b (t, drop e C @ q) v m y"
      using B' assms(2,3,5) open_text_rule [OF assms(6) False] by (intro acts_onI [where p = p and e = e]) auto
    then show ?thesis using False by (auto simp: munches_def munch_def R)
  qed
qed

lemma goes_on_munches:
  assumes "goes_on env b t q v m y" "open_text t"
    and "\<And>B C p cs z. matching b B C (drop (length cs) q) p (p + length t) v m z \<Longrightarrow> drop p C = t @ cs \<Longrightarrow> p \<le> length C \<Longrightarrow>
           cs = take (length cs) q \<Longrightarrow> cs \<noteq> [] \<Longrightarrow> munches env b t q v m z"
  shows "munches env b t q v m y"
proof -
  obtain B C p cs where cs: "cs = take (length cs) q" "drop p C = t @ cs" "p \<le> length C"
    "if q \<noteq> [] then cs \<noteq> [] \<and> gets_to env y (matching b B C (drop (length cs) q) p (p + length t) v m)
     else if t = [] then gets_to env y (at_eof b B v m)
     else gets_to env y (acting b B C [] p (length C) (dfa_accept (text_state t)) v m)"
    using assms(1) unfolding goes_on_def by blast
  consider "q \<noteq> []" | "q = []" "t = []" | "q = []" "t \<noteq> []" by blast
  then show ?thesis
  proof cases
    case 1
    then show ?thesis using cs munches_trans assms(3) by (metis (no_types, lifting))
  next
    case 2
    then show ?thesis using cs(4) by (auto simp: munches_def)
  next
    case 3
    then have "acts_on env b (t, []) v m y"
      using cs open_text_rule [OF assms(2)] by (intro acts_onI [where p = p and e = "length C"]) auto
    then show ?thesis using 3 by (auto simp: munches_def munch_def)
  qed
qed

text \<open>After a refill: less is to come, and the same text is being matched.\<close>

lemma refill_smaller:
  assumes "drop p C = t @ cs" "p \<le> length C" "cs = take (length cs) q" "cs \<noteq> []"
  shows "2 * length (drop (length cs) q) + (length C - (p + length t)) < 2 * length q"
    and "take (p + length t - p) (drop p C) = t" "drop (p + length t) C @ drop (length cs) q = q"
proof -
  have q: "cs @ drop (length cs) q = q" using assms(3) by (metis append_take_drop_id)
  then have "length q = length cs + length (drop (length cs) q)" by (metis length_append)
  moreover have "length C - p = length t + length cs" using arg_cong [OF assms(1), of length] by simp
  ultimately show "2 * length (drop (length cs) q) + (length C - (p + length t)) < 2 * length q"
    using assms(4) by (cases cs) simp_all
  have "drop (p + length t) C = cs" using assms(1) by (metis append_eq_conv_conj drop_drop add.commute)
  then show "take (p + length t - p) (drop p C) = t" "drop (p + length t) C @ drop (length cs) q = q"
    using assms(1) q by simp_all
qed

lemma match_token:
  assumes "matching b B C q p e v m x" "e - p + length (drop e C @ q) \<le> scan_limit" "\<And>n. alloc_ok env n"
  shows "munches env b (take (e - p) (drop p C)) (drop e C @ q) v m x"
  using assms(1,2)
proof (induction "2 * length q + (length C - e)" arbitrary: B C q p e x rule: less_induct)
  case less
  let ?t = "take (e - p) (drop p C)"
  have pe: "p \<le> e" "e \<le> length C" and t: "open_text ?t" using less.prems(1) by (simp_all add: matching_def)
  have next_char: "munches env b (?t @ [C ! e]) (drop (Suc e) C @ q) v m y"
    if "e < length C" "matching b B' C q p (Suc e) v m y" for B' y
    using less.hyps [of q C "Suc e", OF _ that(2)] that(1) less.prems(2) take_snoc [OF pe(1) that(1)] pe by auto
  show ?case
  proof (cases "e < length C \<and> C ! e \<noteq> CHR 0x00")
    case True
    then show ?thesis using match_inside [OF less.prems(1)] next_char by blast
  next
    case False
    then have nul: "(C @ [CHR 0x00, CHR 0x00]) ! e = CHR 0x00" using pe by (auto simp: nth_append nth_Cons')
    have "munches env b ?t (drop e C @ q) v m y" if y: "acting b B C q p (Suc e) 7 v m y" for y
    proof (cases "e < length C")
      case True
      with False have c: "C ! e = CHR 0x00" by simp
      show ?thesis using match_NUL_inside [OF y pe(1) True c refl t] next_char [OF True] c by simp
    next
      case at_end: False
      then have e: "e = length C" "?t = drop p C" using pe by auto
      have small: "length ?t + length q \<le> scan_limit" using less.prems(2) e(1) by simp
      have "goes_on env b ?t q v m y"
        using eob_refill [of b B C q p v m y ?t env] y e pe t small assms(3) by simp
      moreover have "munches env b ?t q v m z"
        if z: "matching b B' C' (drop (length cs) q) p' (p' + length ?t) v m z" "drop p' C' = ?t @ cs" "p' \<le> length C'"
          "cs = take (length cs) q" "cs \<noteq> []" for B' C' p' cs z
      proof -
        note r = refill_smaller [OF z(2-5)]
        have "length (drop (p' + length ?t) C' @ drop (length cs) q) = length q" unfolding r(3) ..
        then show ?thesis
          using less.hyps [OF _ z(1)] r small e(1) by (simp del: length_append length_drop length_take)
      qed
      ultimately show ?thesis using goes_on_munches [OF _ t] e(1) by simp
    qed
    then show ?thesis using munches_trans [OF match_NUL [OF less.prems(1) nul]] by blast
  qed
qed

section \<open>Tokens\<close>

definition char_tok :: "char \<Rightarrow> tok option" where
  "char_tok c =
     (let n = of_char c :: nat in
      if 97 \<le> n \<and> n \<le> 122 then Some (TVar (n - 97))
      else if n = 43 then Some TPlus else if n = 45 then Some TMinus
      else if n = 42 then Some TTimes else if n = 47 then Some TDiv
      else if n = 10 then Some TNl else if n = 61 then Some TEq
      else if n = 40 then Some TLp else if n = 41 then Some TRp
      else None)"

definition is_blank :: "char \<Rightarrow> bool" where
  "is_blank c \<longleftrightarrow> (let n = of_char c :: nat in n = 9 \<or> n = 32)"

definition invalid_input :: string where
  "invalid_input = ''invalid input\<newline>''"

text \<open>
  The next token of an input and the input behind it, \<open>None\<close> at the end; before them, what is
  written to standard error for the invalid characters skipped on the way.
\<close>

fun next_tok :: "string \<Rightarrow> string \<times> (tok \<times> string) option" where
  "next_tok [] = ('''', None)"
| "next_tok (c # cs) =
     (if is_digit c then ('''', Some (TInt (atoi (c # takeWhile is_digit cs)), dropWhile is_digit cs))
      else case char_tok c of
        Some t \<Rightarrow> ('''', Some (t, cs))
      | None \<Rightarrow>
          (case next_tok cs of (m, r) \<Rightarrow> (if is_blank c then m else invalid_input @ m, r)))"

lemma next_tok_shorter: "next_tok s = (m, Some (t, r)) \<Longrightarrow> length r < length s"
proof (induction s arbitrary: m)
  case (Cons c cs)
  then show ?case
    using length_dropWhile_le [of is_digit cs]
    by (auto split: if_splits option.splits prod.splits simp: less_Suc_eq_le)
qed simp

function tokens :: "string \<Rightarrow> tok list" where
  "tokens s = (case next_tok s of (_, None) \<Rightarrow> [] | (_, Some (t, r)) \<Rightarrow> t # tokens r)"
  by pat_completeness auto
termination
  by (relation "measure length") (auto dest: next_tok_shorter [OF sym])

declare tokens.simps [simp del]

text \<open>The rule for a character that is not a digit, and what it returns.\<close>

lemma char_rules:
  assumes "\<not> is_digit c"
  shows "char_tok c = None \<Longrightarrow> rule_of [c] = (if is_blank c then 4 else 5)"
    and "char_tok c = Some t \<Longrightarrow> rule_of [c] = 1 \<and> (\<exists>i. t = TVar i \<and> i < 26 \<and> char_int c - char_int (CHR ''a'') = int i)
           \<or> rule_of [c] = 3 \<and> tok_code t = char_int c \<and> (\<forall>v. tok_lval t v = v) \<and> tok_ok t"
proof -
  have z: "c = CHR 0x00 \<longleftrightarrow> of_char c = (0 :: nat)" using class_of_NUL [of c] by (simp add: class_of_def split: if_splits)
  have d: "\<not> (48 \<le> (of_char c :: nat) \<and> (of_char c :: nat) \<le> 57)" using assms by (simp add: is_digit_def Let_def)
  show "char_tok c = None \<Longrightarrow> rule_of [c] = (if is_blank c then 4 else 5)"
    using d z by (auto simp: char_tok_def is_blank_def rule_of_def rule_class_def class_of_def dfa_accept_def Let_def
        split: if_splits)
  show "char_tok c = Some t \<Longrightarrow> rule_of [c] = 1 \<and> (\<exists>i. t = TVar i \<and> i < 26 \<and> char_int c - char_int (CHR ''a'') = int i)
           \<or> rule_of [c] = 3 \<and> tok_code t = char_int c \<and> (\<forall>v. tok_lval t v = v) \<and> tok_ok t"
    using d z by (auto simp: char_tok_def rule_of_def rule_class_def class_of_def dfa_accept_def Let_def char_int_def
        split: if_splits)
qed

section \<open>Between tokens\<close>

text \<open>Between two calls: the character under \<open>yy_c_buf_p\<close> is held, \<open>R\<close> is the input still to come.\<close>

definition between :: "string \<Rightarrow> yyscan \<Rightarrow> bool" where
  "between R s \<longleftrightarrow>
     yy_start s = 1 \<and> yy_init s
     \<and> (\<exists>b B C q p s'. poke (yy_c_buf_p s) (yy_hold_char s) s = Ok s' \<and> filled b B C q s' \<and> same_scan s s'
          \<and> yy_c_buf_p s = int p \<and> p \<le> length C \<and> R = drop p C @ q)"

lemma held_between:
  assumes "held b B C q p e s" "e \<le> length C" "yy_start s = 1" "yy_init s"
  shows "between (drop e C @ q) s"
proof -
  from held_poke [OF assms(1)] held_eq [OF assms(1)] obtain s' where
    "poke (yy_c_buf_p s) (yy_hold_char s) s = Ok s'" "filled b B C q s'" "same_scan s s'" "yy_c_buf_p s = int e"
    by auto
  then show ?thesis using assms(2-4) unfolding between_def by blast
qed

text \<open>At the end of the text in the buffer, as after its creation or at end-of-file.\<close>

lemma between_start:
  assumes "filled b B C q s" "yy_c_buf_p s = int (length C)" "yy_hold_char s = CHR 0x00" "yy_start s = 1" "yy_init s"
  shows "between q s"
proof -
  obtain j where j: "current_buffer s = Some b" "yy_bufs s b = Some B" "yy_ch_buf B = C @ CHR 0x00 # j"
    using assms(1) by (auto simp: filled_def text_buffer_def)
  then have "(yy_ch_buf B)[length C := CHR 0x00] = yy_ch_buf B" "length C < length (yy_ch_buf B)" by simp_all
  with poke_eq [OF j(1,2), of "length C" "CHR 0x00"] have "poke (int (length C)) (CHR 0x00) s = Ok (put_buf b B s)" by simp
  moreover have "filled b B C q (put_buf b B s)" using assms(1) by (auto simp: filled_def)
  moreover have "q = drop (length C) C @ q" by simp
  ultimately show ?thesis
    unfolding between_def using assms(2-5)
    by (intro conjI exI [of _ b] exI [of _ B] exI [of _ C] exI [of _ q] exI [of _ "length C"] exI [of _ "put_buf b B s"])
      (simp_all add: same_scan_def)
qed

lemma poke_log: "poke p c s = Ok s' \<Longrightarrow> poke p c (s\<lparr>yy_log := m\<rparr>) = Ok (s'\<lparr>yy_log := m\<rparr>)"
  by (auto simp: poke_def with_buf_def outcome_Ok put_buf_def)

lemma between_log: "between R s \<Longrightarrow> between R (s\<lparr>yy_log := m\<rparr>)"
proof -
  assume "between R s"
  then obtain b B C q p s' where s: "yy_start s = 1" "yy_init s"
    "poke (yy_c_buf_p s) (yy_hold_char s) s = Ok s'" "filled b B C q s'" "same_scan s s'"
    "yy_c_buf_p s = int p" "p \<le> length C" "R = drop p C @ q"
    unfolding between_def by blast
  have "filled b B C q (s'\<lparr>yy_log := m\<rparr>)" "same_scan (s\<lparr>yy_log := m\<rparr>) (s'\<lparr>yy_log := m\<rparr>)"
    using s(4,5) by (simp_all add: same_scan_def)
  then show ?thesis using s poke_log [OF s(3), of m] unfolding between_def by fastforce
qed

text \<open>The next round of the loop starts matching at the next character.\<close>

lemma token_munches:
  assumes "l_pc x = Lex_token" "between R (l_scan x)" "lexing v m x" "length R \<le> scan_limit" "\<And>n. alloc_ok env n"
  shows "\<exists>b. munches env b [] R v m x"
proof -
  obtain b B C q p s' where s: "poke (yy_c_buf_p (l_scan x)) (yy_hold_char (l_scan x)) (l_scan x) = Ok s'"
    "filled b B C q s'" "same_scan (l_scan x) s'" "yy_c_buf_p (l_scan x) = int p" "p \<le> length C" "R = drop p C @ q"
    using assms(2) by (auto simp: between_def)
  let ?y = "x\<lparr>l_pc := yy_match, yy_cp := int p, yy_bp := int p, yy_current_state := 1, l_scan := s'\<rparr>"
  have st: "yy_start s' = 1" "yy_log s' = m" "yy_init s'" using assms(3) s(3) by (simp_all add: lexing_def same_scan_def)
  have "lex_step env x = Ok ?y" using assms(1) s(1,4) st by (simp add: lex_step_def do_token_def Let_def)
  moreover have "matching b B C q p p v m ?y"
    using s st assms(3) by (simp add: matching_def lexing_def open_text_def text_state_def)
  ultimately have "gets_to env x (matching b B C q p p v m)"
    using assms(1) by (intro gets_to_step [OF _ _ gets_to_refl]) auto
  moreover have "munches env b [] R v m y" if "matching b B C q p p v m y" for y
    using match_token [OF that _ assms(5)] assms(4) s(6) by simp
  ultimately show ?thesis using munches_trans by blast
qed

text \<open>What the actions do.\<close>

definition returns_tok :: "lexenv \<Rightarrow> yylexer \<Rightarrow> int \<Rightarrow> cint \<Rightarrow> string \<Rightarrow> string \<Rightarrow> bool" where
  "returns_tok env x code v m R \<longleftrightarrow>
     (\<exists>y. lex_run env x = Ok y \<and> l_result y = code \<and> l_yylval y = v \<and> yy_log (l_scan y) = m
        \<and> between R (l_scan y))"

lemma lex_run_return:
  "l_pc x \<noteq> Lex_returned \<Longrightarrow> lex_step env x = Ok (lex_return code y) \<Longrightarrow> lex_run env x = Ok (lex_return code y)"
  unfolding lex_run_def by (subst owhile_step) (auto simp: lex_return_def owhile_done)

lemma act_skip:
  assumes "acting b B C q p e act v m x" "act = 4 \<or> act = 5" "e \<le> length C"
  shows "gets_to env x (\<lambda>y. l_pc y = Lex_token \<and> between (drop e C @ q) (l_scan y)
           \<and> lexing v (if act = 4 then m else m @ invalid_input) y)"
proof -
  have x: "l_pc x = do_action" "yy_act x = act" "held b B C q p e (l_scan x)" "lexing v m x"
    using assms(1) by (simp_all add: acting_def)
  have btw: "between (drop e C @ q) (l_scan x)"
    using held_between [OF x(3) assms(3)] x(4) by (simp add: lexing_def)
  let ?y = "if act = 4 then x\<lparr>l_pc := Lex_token\<rparr>
    else x\<lparr>l_pc := Lex_token, l_scan := (l_scan x)\<lparr>yy_log := yy_log (l_scan x) @ ''invalid input\<newline>''\<rparr>\<rparr>"
  have "lex_step env x = Ok ?y" using x(1,2) assms(2) by (auto simp: lex_step_def do_do_action_def Let_def)
  then show ?thesis
    using x(1,4) btw by (intro gets_to_step [OF _ _ gets_to_refl]) (auto simp: lexing_def invalid_input_def between_log)
qed

lemma act_char:
  assumes "acting b B C q p e act v m x" "p < e" "e \<le> length C" "act = 1 \<or> act = 3"
  shows "returns_tok env x (if act = 1 then VARIABLE else char_int (C ! p))
           (if act = 1 then word_of_int (char_int (C ! p) - char_int (CHR ''a'')) else v) m (drop e C @ q)"
proof -
  have x: "l_pc x = do_action" "yy_act x = act" "held b B C q p e (l_scan x)" "lexing v m x"
    using assms(1) by (simp_all add: acting_def)
  have pk: "peek (yytext_ptr (l_scan x)) (l_scan x) = Ok (C ! p)"
    using held_peek [OF x(3) assms(2)] held_eq [OF x(3)] assms(2,3) by simp
  let ?y = "if act = 1 then lex_return VARIABLE (x\<lparr>l_yylval := word_of_int (char_int (C ! p) - char_int (CHR ''a''))\<rparr>)
    else lex_return (char_int (C ! p)) x"
  have "lex_step env x = Ok ?y" using x(1,2) pk assms(4) by (auto simp: lex_step_def do_do_action_def Let_def)
  then have "lex_run env x = Ok ?y" using lex_run_return [of x env] x(1) assms(4) by auto
  then show ?thesis
    using held_between [OF x(3) assms(3)] x(4)
    unfolding returns_tok_def by (intro exI [of _ ?y]) (auto simp: lex_return_def lexing_def)
qed

lemma act_integer:
  assumes "acting b B C q p e 2 v m x" "p \<le> e" "e \<le> length C" "CHR 0x00 \<notin> set (take (e - p) (drop p C))"
  shows "returns_tok env x INTEGER (atoi (take (e - p) (drop p C))) m (drop e C @ q)"
proof -
  have x: "l_pc x = do_action" "yy_act x = 2" "held b B C q p e (l_scan x)" "lexing v m x"
    using assms(1) by (simp_all add: acting_def)
  let ?y = "lex_return INTEGER (x\<lparr>l_yylval := atoi (take (e - p) (drop p C))\<rparr>)"
  have "lex_step env x = Ok ?y"
    using x(1,2) held_eq [OF x(3)] held_cstring [OF x(3) assms(2-4)] by (simp add: lex_step_def do_do_action_def Let_def)
  then have "lex_run env x = Ok ?y" using lex_run_return [of x env] x(1) by auto
  then show ?thesis
    using held_between [OF x(3) assms(3)] x(4)
    unfolding returns_tok_def by (intro exI [of _ ?y]) (auto simp: lex_return_def lexing_def)
qed

lemma act_eof:
  assumes "at_eof b B v m x"
  shows "returns_tok env x YY_NULL v m []"
proof -
  obtain C where x: "l_pc x = do_action" "yy_act x = 8" "lexing v m x" "filled b B C [] (l_scan x)"
    "yy_c_buf_p (l_scan x) = int (length C)" "yy_hold_char (l_scan x) = CHR 0x00"
    using assms by (auto simp: at_eof_def)
  have "lex_step env x = Ok (lex_return YY_NULL x)"
    using x(1,2) by (simp add: lex_step_def do_do_action_def YY_STATE_EOF_def YY_END_OF_BUFFER_def Let_def)
  then have "lex_run env x = Ok (lex_return YY_NULL x)" using lex_run_return x(1) by simp
  moreover have "between [] (l_scan x)"
    using between_start [OF x(4-6)] x(3) by (simp add: lexing_def)
  ultimately show ?thesis
    using x(3) unfolding returns_tok_def by (intro exI [of _ "lex_return YY_NULL x"]) (auto simp: lex_return_def lexing_def)
qed

end
