(* ===== verification/Scanner_Source.thy ===== *)
theory Scanner_Source
  imports Scanner_Correct
begin

text \<open>
  One call of \<open>yylex\<close>, from its first instruction to its return, and the scanner as the
  token source of the parser.
\<close>

section \<open>One call\<close>

definition gives :: "lexenv \<Rightarrow> yylexer \<Rightarrow> string \<Rightarrow> cint \<Rightarrow> string \<Rightarrow> bool" where
  "gives env x R v m =
     (case next_tok R of
        (m', None) \<Rightarrow> returns_tok env x YY_NULL v (m @ m') []
      | (m', Some (t, R')) \<Rightarrow> returns_tok env x (tok_code t) (tok_lval t v) (m @ m') R')"

lemma returns_tok_trans:
  "gets_to env x P \<Longrightarrow> (\<And>y. P y \<Longrightarrow> returns_tok env y code v m R) \<Longrightarrow> returns_tok env x code v m R"
  unfolding returns_tok_def gets_to_def by metis

lemma gives_trans: "gets_to env x P \<Longrightarrow> (\<And>y. P y \<Longrightarrow> gives env y R v m) \<Longrightarrow> gives env x R v m"
  unfolding gives_def by (auto split: prod.splits option.splits intro: returns_tok_trans)

lemma token_gives:
  assumes "l_pc x = Lex_token" "between R (l_scan x)" "lexing v m x" "length R \<le> scan_limit" "\<And>n. alloc_ok env n"
  shows "gives env x R v m"
  using assms(1-4)
proof (induction R arbitrary: x m)
  case Nil
  from token_munches [OF Nil assms(5)] obtain b B where "gets_to env x (at_eof b B v m)"
    by (auto simp: munches_def)
  then show ?case using returns_tok_trans act_eof by (fastforce simp: gives_def)
next
  case (Cons c cs)
  from token_munches [OF Cons.prems assms(5)] obtain b where "acts_on env b (munch [] (c # cs)) v m x"
    by (auto simp: munches_def)
  then obtain T R B C q p e where TR: "munch [] (c # cs) = (T, R)"
    and act: "gets_to env x (acting b B C q p e (rule_of T) v m)" "p \<le> e" "e \<le> length C"
      "take (e - p) (drop p C) = T" "drop e C @ q = R"
    by (cases "munch [] (c # cs)") (auto simp: acts_on_def)
  show ?case
  proof (rule gives_trans [OF act(1)])
    fix y
    assume y: "acting b B C q p e (rule_of T) v m y"
    show "gives env y (c # cs) v m"
    proof (cases "is_digit c")
      case True
      then have T: "T = c # takeWhile is_digit cs" "R = dropWhile is_digit cs" using TR by (auto simp: munch_def)
      have r: "rule_of T = 2" using True rule_class_digit [of c] by (simp add: T rule_of_def dfa_accept_def)
      have "CHR 0x00 \<notin> set T" using True set_takeWhileD [of "CHR 0x00" is_digit cs] by (auto simp: T)
      with act_integer [of b B C q p e v m y env] y r act(2-5) have "returns_tok env y INTEGER (atoi T) m R" by simp
      then show ?thesis using True by (simp add: gives_def T)
    next
      case False
      then have T: "T = [c]" "R = cs" using TR by (auto simp: munch_def)
      have pe: "p < e" and c: "C ! p = c"
      proof -
        show "p < e" using act(2,4) T by (cases "e = p") auto
        then show "C ! p = c" using act(3,4) T by (cases "drop p C") (auto simp: nth_via_drop take_Cons')
      qed
      show ?thesis
      proof (cases "char_tok c")
        case None
        let ?m = "if is_blank c then m else m @ invalid_input"
        have rule: "rule_of T = (if is_blank c then 4 else 5)" using char_rules(1) [OF False None] T by simp
        have "gets_to env y (\<lambda>z. l_pc z = Lex_token \<and> between cs (l_scan z) \<and> lexing v ?m z)"
          using act_skip [OF y _ act(3), of env] rule act(5) T by (auto split: if_splits)
        then have "gives env y cs v ?m"
          by (rule gives_trans) (use Cons.IH Cons.prems(4) in auto)
        then show ?thesis using None False by (auto simp: gives_def split: prod.splits option.splits if_splits)
      next
        case (Some t)
        have w: "word_of_int k = (of_nat i :: cint)" if "k = int i" for k i using that by simp
        from char_rules(2) [OF False Some]
        have t: "rule_of T = 1 \<or> rule_of T = 3"
          "tok_code t = (if rule_of T = 1 then VARIABLE else char_int c)"
          "tok_lval t v = (if rule_of T = 1 then word_of_int (char_int c - char_int (CHR ''a'')) else v)"
          using T by (auto simp: w simp del: of_int_diff)
        have "returns_tok env y (tok_code t) (tok_lval t v) m R"
          unfolding t(2,3) using act_char [OF y pe act(3) t(1), of env] unfolding c act(5) .
        then show ?thesis using Some False T by (simp add: gives_def)
      qed
    qed
  qed
qed

section \<open>The first call\<close>

text \<open>Before the first call: nothing is allocated, \<open>R\<close> is on standard input.\<close>

definition unread :: "string \<Rightarrow> yyscan \<Rightarrow> bool" where
  "unread R s \<longleftrightarrow>
     \<not> yy_init s \<and> yy_start s = 0 \<and> yy_buffer_stack s = None \<and> yyin s = None \<and> files s 0 = stream_of R"

lemma yylex_init_fresh:
  assumes "unread R s" "\<And>n. alloc_ok env n"
  shows "\<exists>s'. yylex_init env s = Ok s' \<and> between R s' \<and> yy_log s' = yy_log s \<and> files s' = files s
    \<and> yyin s' = Some 0 \<and> yy_buffer_stack s' = Some [Some (yy_next_buf s)] \<and> yy_buffer_stack_top s' = 0
    \<and> yy_buffer_stack_max s' = 1 \<and> yy_next_buf s' = yy_next_buf s + 1 \<and> yy_bufs s' (yy_next_buf s) \<noteq> None"
proof -
  let ?b = "yy_next_buf s"
  have len: "length (map (fresh_ch env) [0..<YY_BUF_SIZE + 2]) = YY_BUF_SIZE + 2" by simp
  then obtain a c j where j: "map (fresh_ch env) [0..<YY_BUF_SIZE + 2] = a # c # j"
    by (cases "map (fresh_ch env) [0..<YY_BUF_SIZE + 2]" rule: remdups_adj.cases) auto
  have lj: "length j = YY_BUF_SIZE" using len unfolding j by simp
  let ?B = "(fresh_buffer env)\<lparr>yy_buf_size := YY_BUF_SIZE, yy_ch_buf := CHR 0x00 # CHR 0x00 # j, yy_is_our_buffer := True,
     yy_buf_pos := 0, b_n_chars := 0, yy_at_bol := True, yy_buffer_status := YY_BUFFER_NEW,
     yy_input_file := Some 0, yy_fill_buffer := True, yy_bs_lineno := 1, yy_bs_column := 0,
     yy_is_interactive := isatty env 0\<rparr>"
  have "\<exists>s'. yylex_init env s = Ok s' \<and> current_buffer s' = Some ?b \<and> yy_bufs s' ?b = Some ?B
      \<and> yyin s' = Some 0 \<and> files s' = files s \<and> yy_log s' = yy_log s \<and> yy_start s' = 1 \<and> yy_init s'
      \<and> yy_n_chars s' = 0 \<and> yy_c_buf_p s' = 0 \<and> yy_hold_char s' = CHR 0x00
      \<and> yy_buffer_stack s' = Some [Some ?b] \<and> yy_buffer_stack_top s' = 0 \<and> yy_buffer_stack_max s' = 1
      \<and> yy_next_buf s' = ?b + 1"
    using assms j
    by (simp add: yylex_init_def unread_def yyensure_buffer_stack_def yy_create_buffer_def yyalloc_def
        yy_init_buffer_def yy_flush_buffer_def yy_load_buffer_state_def set_current_def wr_def rd_def
        YY_END_OF_BUFFER_CHAR_def current_buffer_def YY_CURRENT_BUFFER_def Let_def put_buf_def cong: option.case_cong)
  then obtain s' where s': "yylex_init env s = Ok s'" "current_buffer s' = Some ?b" "yy_bufs s' ?b = Some ?B"
    "yyin s' = Some 0" "files s' = files s" "yy_log s' = yy_log s" "yy_start s' = 1" "yy_init s'"
    "yy_n_chars s' = 0" "yy_c_buf_p s' = 0" "yy_hold_char s' = CHR 0x00"
    "yy_buffer_stack s' = Some [Some ?b]" "yy_buffer_stack_top s' = 0" "yy_buffer_stack_max s' = 1"
    "yy_next_buf s' = ?b + 1" by blast
  have "filled ?b ?B [] R s'"
    using s' assms(1) lj by (simp add: filled_def text_buffer_def unread_def YY_BUF_SIZE_def scan_limit_def)
  from between_start [OF this] show ?thesis using s' by (intro exI [of _ s']) simp
qed

lemma yylex_init_between:
  "unread R s \<Longrightarrow> (\<And>n. alloc_ok env n) \<Longrightarrow> \<exists>s'. yylex_init env s = Ok s' \<and> between R s' \<and> yy_log s' = yy_log s"
  using yylex_init_fresh by blast

text \<open>Before the first call, with the text \<open>R\<close> in a buffer in memory that is already current.\<close>

definition loaded :: "string \<Rightarrow> yyscan \<Rightarrow> bool" where
  "loaded R s \<longleftrightarrow>
     \<not> yy_init s \<and> yy_start s = 0
     \<and> (\<exists>b x. current_buffer s = Some b \<and> yy_bufs s b = Some x \<and> text_buffer x R \<and> \<not> yy_fill_buffer x
          \<and> yy_buf_pos x = 0 \<and> b_n_chars x = length R \<and> yy_buffer_status x = YY_BUFFER_NEW
          \<and> yy_n_chars s = length R \<and> yy_c_buf_p s = 0 \<and> yy_hold_char s = yy_ch_buf x ! 0)"

text \<open>Loading a buffer that has been prepared puts the scanner at its start.\<close>

lemma between_loaded:
  assumes "filled b x R [] s" "yy_c_buf_p s = 0" "yy_hold_char s = yy_ch_buf x ! 0" "yy_start s = 1" "yy_init s"
  shows "between R s"
proof -
  have x: "current_buffer s = Some b" "yy_bufs s b = Some x" "0 < length (yy_ch_buf x)"
    using assms(1) by (auto simp: filled_def text_buffer_def)
  then have "poke (int 0) (yy_hold_char s) s = Ok (put_buf b x s)" using poke_eq [OF x] assms(3) by simp
  moreover have "filled b x R [] (put_buf b x s)" using assms(1) by (auto simp: filled_def)
  ultimately show ?thesis
    unfolding between_def using assms(2,4,5)
    by (intro conjI exI [of _ b] exI [of _ x] exI [of _ R] exI [of _ "[]"] exI [of _ 0] exI [of _ "put_buf b x s"])
      (simp_all add: same_scan_def)
qed

lemma yylex_init_loaded:
  assumes "loaded R s"
  shows "\<exists>s'. yylex_init env s = Ok s' \<and> between R s' \<and> yy_log s' = yy_log s"
proof -
  obtain b x where x: "current_buffer s = Some b" "yy_bufs s b = Some x" "text_buffer x R" "\<not> yy_fill_buffer x"
    "yy_buf_pos x = 0" "b_n_chars x = length R" "yy_buffer_status x = YY_BUFFER_NEW" "\<not> yy_init s" "yy_start s = 0"
    using assms by (auto simp: loaded_def)
  have "0 < length (yy_ch_buf x)" using x(3) by (auto simp: text_buffer_def)
  then have "\<exists>s'. yylex_init env s = Ok s' \<and> current_buffer s' = Some b \<and> yy_bufs s' = yy_bufs s \<and> yy_log s' = yy_log s
      \<and> yy_start s' = 1 \<and> yy_init s' \<and> yy_n_chars s' = length R \<and> yy_c_buf_p s' = 0 \<and> yy_hold_char s' = yy_ch_buf x ! 0"
    using x by (simp add: yylex_init_def yy_load_buffer_state_def rd_def Let_def)
  then obtain s' where s': "yylex_init env s = Ok s'" "current_buffer s' = Some b" "yy_bufs s' = yy_bufs s"
    "yy_log s' = yy_log s" "yy_start s' = 1" "yy_init s'" "yy_n_chars s' = length R" "yy_c_buf_p s' = 0"
    "yy_hold_char s' = yy_ch_buf x ! 0" by blast
  then have "filled b x R [] s'" using x by (simp add: filled_def)
  then show ?thesis using between_loaded s' by blast
qed

section \<open>The input a scanner still has to deliver\<close>

fun item_chars :: "sitem \<Rightarrow> string" where
  "item_chars (Ch c) = [c]"
| "item_chars _ = []"

definition stream_chars :: "stream \<Rightarrow> string" where
  "stream_chars st = concat (map item_chars (s_items st))"

definition pending_input :: "yyscan \<Rightarrow> string" where
  "pending_input s =
     (case current_buffer s of
        None \<Rightarrow> if yy_init s then [] else stream_chars (files s 0)
      | Some b \<Rightarrow>
          (case yy_bufs s b of
             None \<Rightarrow> []
           | Some x \<Rightarrow>
               drop (nat (yy_c_buf_p s))
                 (take (yy_n_chars s) ((yy_ch_buf x)[nat (yy_c_buf_p s) := yy_hold_char s]))
               @ (if yy_fill_buffer x then case yyin s of None \<Rightarrow> [] | Some f \<Rightarrow> stream_chars (files s f) else [])))"

lemma stream_chars_of [simp]: "stream_chars (stream_of q) = q"
  by (induction q) (simp_all add: stream_chars_def)

lemma unread_pending: "unread R s \<Longrightarrow> pending_input s = R"
  by (simp add: unread_def pending_input_def current_buffer_def)

lemma between_pending:
  assumes "between R s"
  shows "pending_input s = R"
proof -
  obtain b B C q p s' where s: "yy_init s" "poke (yy_c_buf_p s) (yy_hold_char s) s = Ok s'" "filled b B C q s'"
    "yy_c_buf_p s = int p" "p \<le> length C" "R = drop p C @ q"
    using assms by (auto simp: between_def)
  from s(2) obtain b' x where x: "current_buffer s = Some b'" "yy_bufs s b' = Some x" "p < length (yy_ch_buf x)"
    "s' = put_buf b' (x\<lparr>yy_ch_buf := (yy_ch_buf x)[p := yy_hold_char s]\<rparr>) s"
    using s(4) by (auto simp: poke_def with_buf_def outcome_Ok split: if_splits)
  then have "b' = b" "B = x\<lparr>yy_ch_buf := (yy_ch_buf x)[p := yy_hold_char s]\<rparr>"
    using s(3) by (auto simp: filled_def)
  then have "take (length C) ((yy_ch_buf x)[p := yy_hold_char s]) = C" "yy_n_chars s = length C"
    using s(3) x(4) by (auto simp: filled_def text_buffer_def)
  moreover have "if yy_fill_buffer x then \<exists>f. yyin s = Some f \<and> files s f = stream_of q else q = []"
    using s(3) x(4) \<open>B = _\<close> \<open>b' = b\<close> by (auto simp: filled_def)
  ultimately show ?thesis using s(1,4,6) x(1,2) by (auto simp: pending_input_def split: if_splits)
qed

lemma loaded_pending:
  assumes "loaded R s"
  shows "pending_input s = R"
proof -
  obtain b x where x: "current_buffer s = Some b" "yy_bufs s b = Some x" "text_buffer x R" "\<not> yy_fill_buffer x"
    "yy_n_chars s = length R" "yy_c_buf_p s = 0" "yy_hold_char s = yy_ch_buf x ! 0"
    using assms by (auto simp: loaded_def)
  then have "take (length R) (yy_ch_buf x) = R" by (auto simp: text_buffer_def)
  then show ?thesis using x by (simp add: pending_input_def)
qed

text \<open>Between two calls, or before the first one on standard input or on a buffer in memory.\<close>

definition awaits :: "string \<Rightarrow> yyscan \<Rightarrow> bool" where
  "awaits R s \<longleftrightarrow> between R s \<or> unread R s \<or> loaded R s"

lemma awaits_pending: "awaits R s \<Longrightarrow> pending_input s = R"
  using between_pending unread_pending loaded_pending by (auto simp: awaits_def)

text \<open>All that the scanner writes to standard error for an input.\<close>

function scan_msgs :: "string \<Rightarrow> string" where
  "scan_msgs s = (case next_tok s of (m, None) \<Rightarrow> m | (m, Some (_, r)) \<Rightarrow> m @ scan_msgs r)"
  by pat_completeness auto
termination
  by (relation "measure length") (auto dest: next_tok_shorter [OF sym])

declare scan_msgs.simps [simp del]

lemma next_tok_ok: "next_tok s = (m, Some (t, r)) \<Longrightarrow> tok_ok t"
proof (induction s arbitrary: m)
  case (Cons c cs)
  show ?case
  proof (cases "is_digit c")
    case True
    then show ?thesis using Cons.prems by auto
  next
    case False
    show ?thesis
    proof (cases "char_tok c")
      case None
      then show ?thesis using Cons False by (auto split: prod.splits)
    next
      case (Some u)
      then show ?thesis using Cons.prems char_rules(2) [OF False Some] False by auto
    qed
  qed
qed simp

lemma tokens_ok: "list_all tok_ok (tokens s)"
proof (induction s rule: tokens.induct)
  case (1 s)
  then show ?case by (subst tokens.simps) (auto split: prod.splits option.splits dest: next_tok_ok)
qed

section \<open>The scanner is a token source\<close>

definition scan_toks :: "yyscan \<Rightarrow> tok list" where
  "scan_toks s = tokens (pending_input s)"

text \<open>
  The scanner is between two calls, has memory, not too much input, and what has been written
  to standard error together with what is still to be written for the rest is \<open>W\<close>.
\<close>

definition scan_inv :: "lexenv \<Rightarrow> string \<Rightarrow> yyscan \<Rightarrow> string \<Rightarrow> bool" where
  "scan_inv env W s e \<longleftrightarrow>
     (\<forall>n. alloc_ok env n) \<and> awaits (pending_input s) s
     \<and> length (pending_input s) \<le> scan_limit \<and> e @ scan_msgs (pending_input s) = W"

lemma yylex_init_awaits:
  assumes "awaits R s" "\<And>n. alloc_ok env n"
  shows "\<exists>s1. yylex_init env (s\<lparr>yy_log := ''''\<rparr>) = Ok s1 \<and> between R s1 \<and> yy_log s1 = ''''"
  using assms(1) unfolding awaits_def
proof (elim disjE)
  assume "between R s"
  then have "yy_init s" "between R (s\<lparr>yy_log := ''''\<rparr>)" using between_log by (auto simp: between_def)
  then show ?thesis by (simp add: yylex_init_def)
next
  assume "unread R s"
  then have "unread R (s\<lparr>yy_log := ''''\<rparr>)" by (simp add: unread_def)
  then show ?thesis using yylex_init_between [of R "s\<lparr>yy_log := ''''\<rparr>" env] assms(2) by simp
next
  assume "loaded R s"
  then have "loaded R (s\<lparr>yy_log := ''''\<rparr>)" by (simp add: loaded_def)
  then show ?thesis using yylex_init_loaded by fastforce
qed

lemma yylex_gives:
  assumes "scan_inv env W s e"
  shows "case next_tok (pending_input s) of
      (m, None) \<Rightarrow> \<exists>s'. yylex env s v = LexTok YYEOF v m s' \<and> between [] s'
    | (m, Some (t, R)) \<Rightarrow> \<exists>s'. yylex env s v = LexTok (tok_code t) (tok_lval t v) m s' \<and> between R s'"
proof -
  let ?R = "pending_input s"
  have "awaits ?R s" "\<And>n. alloc_ok env n" using assms by (auto simp: scan_inv_def)
  then have "\<exists>s1. yylex_init env (s\<lparr>yy_log := ''''\<rparr>) = Ok s1 \<and> between ?R s1 \<and> yy_log s1 = ''''"
    by (rule yylex_init_awaits)
  then obtain s1 where s1: "yylex_init env (s\<lparr>yy_log := ''''\<rparr>) = Ok s1" "between ?R s1" "yy_log s1 = ''''" by blast
  have "gives env (lex_enter v s1) ?R v ''''"
    using s1 assms by (intro token_gives) (auto simp: lex_enter_def lexing_def between_def scan_inv_def)
  then show ?thesis
    using s1(1) by (auto simp: gives_def returns_tok_def yylex_def YY_NULL_def YYEOF_def split: prod.splits option.splits)
qed

interpretation calc_scanner: token_source "yylex env" scan_toks "scan_inv env W" for env W
proof
  fix l e v
  assume l: "scan_inv env W l e" "scan_toks l = []"
  obtain m where m: "next_tok (pending_input l) = (m, None)"
    using l(2) by (cases "next_tok (pending_input l)") (auto simp: scan_toks_def tokens.simps [of "pending_input l"] split: option.splits)
  then obtain s' where s': "yylex env l v = LexTok YYEOF v m s'" "between [] s'"
    using yylex_gives [OF l(1), of v] by auto
  have "scan_inv env W s' (e @ m)"
    using l(1) s'(2) m between_pending [OF s'(2)]
    by (simp add: scan_inv_def awaits_def scan_msgs.simps [of "pending_input l"] scan_msgs.simps [of "[]"])
  then show "\<exists>v' m l'. yylex env l v = LexTok YYEOF v' m l' \<and> scan_inv env W l' (e @ m) \<and> scan_toks l' = []"
    using s' between_pending [OF s'(2)] by (auto simp: scan_toks_def tokens.simps [of "[]"])
next
  fix l e v t ts
  assume l: "scan_inv env W l e" "scan_toks l = t # ts"
  obtain m R where m: "next_tok (pending_input l) = (m, Some (t, R))" "ts = tokens R"
    using l(2) by (cases "next_tok (pending_input l)") (auto simp: scan_toks_def tokens.simps [of "pending_input l"] split: option.splits)
  then obtain s' where s': "yylex env l v = LexTok (tok_code t) (tok_lval t v) m s'" "between R s'"
    using yylex_gives [OF l(1), of v] by auto
  have "scan_inv env W s' (e @ m)"
    using l(1) s'(2) m between_pending [OF s'(2)] next_tok_shorter [OF m(1)]
    by (simp add: scan_inv_def awaits_def scan_msgs.simps [of "pending_input l"])
  then show "\<exists>m l'. yylex env l v = LexTok (tok_code t) (tok_lval t v) m l' \<and> scan_inv env W l' (e @ m) \<and> scan_toks l' = ts"
    using s' between_pending [OF s'(2)] m(2) by (auto simp: scan_toks_def)
next
  fix l e
  show "list_all tok_ok (scan_toks l)" by (simp add: scan_toks_def tokens_ok)
qed

end
