(* ===== verification/Calculator.thy ===== *)
theory Calculator
  imports Scanner_Source
begin

text \<open>
  The calculator as a whole: \<open>main\<close> of \<open>src/packetdrill/calc.y\<close> with the parser and the scanner
  behind it, on any bytes on standard input.
\<close>

text \<open>
  How a run of \<open>yyparse\<close> ended, read off its final state: the value returned (or the trap), the
  variables, standard output, and on standard error a part of the scanner's messages \<open>W\<close> and then
  the parser's own message. A run that returns has freed its stacks.
\<close>

definition run_ends :: "string \<Rightarrow> calc_end \<Rightarrow> 'l yyparser \<Rightarrow> bool" where
  "run_ends W e t =
     (case e of
        Returns r sy out err \<Rightarrow>
          pc t = Returned \<and> yyresult t = r \<and> sym t = sy \<and> stdout t = out
          \<and> (\<exists>log rest. W = log @ rest \<and> stderr t = log @ err) \<and> heap_blocks t = 0
      | Traps sy out \<Rightarrow> pc t = Trap \<and> sym t = sy \<and> stdout t = out)"

lemma ended_run_ends: "ended (scan_inv lenv W) e t \<Longrightarrow> run_ends W e t"
  by (auto simp: ended_def run_ends_def returned_def trapped_def scan_inv_def split: calc_end.splits)

lemma run_ends_pc: "run_ends W e t \<Longrightarrow> pc t = Returned \<or> pc t = Trap"
  by (auto simp: run_ends_def split: calc_end.splits)

text \<open>A parser about to be called, its scanner before its first call or between two calls.\<close>

definition ready :: "lexenv \<Rightarrow> yyscan yyparser \<Rightarrow> bool" where
  "ready lenv s \<longleftrightarrow>
     (\<forall>n. alloc_ok lenv n) \<and> length (sym s) = 26 \<and> length (pending_input (scanner s)) \<le> scan_limit
     \<and> awaits (pending_input (scanner s)) (scanner s)"

lemma yyparse_ends:
  assumes "ready lenv s"
  shows "\<exists>fuel t. yyparse (yylex lenv) env fuel s = Some t
           \<and> run_ends (stderr s @ scan_msgs (pending_input (scanner s)))
               (program (stack_limit env) (sym s) (stdout s) (tokens (pending_input (scanner s)))) t"
proof -
  let ?W = "stderr s @ scan_msgs (pending_input (scanner s))"
  have "scan_inv lenv ?W (scanner s) (stderr s)" "length (sym s) = 26"
    using assms by (auto simp: scan_inv_def ready_def)
  from calc_scanner.yyparse_program [OF this, of env] show ?thesis
    using ended_run_ends unfolding scan_toks_def by blast
qed

lemma ready_start:
  assumes "\<And>n. alloc_ok lenv n" "length inp \<le> scan_limit"
  shows "ready lenv ((calc_globals junk (scan_globals inp))\<lparr>stdout := out\<rparr>)"
    and "pending_input (scan_globals inp) = inp"
proof -
  have "unread inp (scan_globals inp)"
    by (simp add: unread_def scan_globals_def)
  then show "ready lenv ((calc_globals junk (scan_globals inp))\<lparr>stdout := out\<rparr>)"
    "pending_input (scan_globals inp) = inp"
    using assms unread_pending [of inp "scan_globals inp"] by (auto simp: ready_def calc_globals_def awaits_def)
qed

definition banner :: string where
  "banner = ''A simple calculator.\<newline>''"

lemma calc_main_ends:
  assumes "\<And>n. alloc_ok lenv n" "length inp \<le> scan_limit"
  shows "\<exists>fuel t. calc_main (yylex lenv) env fuel (calc_globals junk (scan_globals inp)) = Some t
           \<and> run_ends (scan_msgs inp) (program (stack_limit env) (replicate 26 0) banner (tokens inp)) t"
  using yyparse_ends [OF ready_start(1) [OF assms, where junk = junk and out = banner], where env = env]
    ready_start(2) [OF assms]
  by (simp add: calc_main_def calc_globals_def banner_def)

lemma calc_main_unique:
  "calc_main yl env m s = Some t \<Longrightarrow> calc_main yl env n s = Some u \<Longrightarrow> t = u"
  unfolding calc_main_def by (rule yyparse_unique)

end
