(* ===== verification/Calc_Grammar.thy ===== *)
theory Calc_Grammar
  imports Calc_Spec Parser_Program
begin

text \<open>
  The grammar of \<open>src/packetdrill/calc.y\<close> as syntax trees: what a tree means, how it is written
  down, and which trees the precedences (\<open>%left '+' '-'\<close> below \<open>%left '*' '/'\<close>) allow. The
  evaluator of \<open>Calc_Spec\<close> accepts exactly the written forms of the allowed trees and gives
  their values.
\<close>

datatype aexp = Lit cint | Name nat | Paren aexp | Bin aexp tok aexp

fun unparse :: "aexp \<Rightarrow> tok list" where
  "unparse (Lit n) = [TInt n]"
| "unparse (Name i) = [TVar i]"
| "unparse (Paren e) = TLp # unparse e @ [TRp]"
| "unparse (Bin a t b) = unparse a @ t # unparse b"

definition binop :: "tok \<Rightarrow> cint \<Rightarrow> cint \<Rightarrow> cint option" where
  "binop t x y =
     (case mul_op t of
        Some f \<Rightarrow> f x y
      | None \<Rightarrow> (case add_op t of Some f \<Rightarrow> f x y | None \<Rightarrow> None))"

text \<open>The value; \<open>None\<close> when a division has none.\<close>

fun aval :: "cint list \<Rightarrow> aexp \<Rightarrow> cint option" where
  "aval sy (Lit n) = Some n"
| "aval sy (Name i) = Some (sy ! i)"
| "aval sy (Paren e) = aval sy e"
| "aval sy (Bin a t b) =
     (case aval sy a of
        None \<Rightarrow> None
      | Some x \<Rightarrow> (case aval sy b of None \<Rightarrow> None | Some y \<Rightarrow> binop t x y))"

text \<open>Factors, terms and expressions: both kinds of operators associate to the left.\<close>

fun is_factor :: "aexp \<Rightarrow> bool" and is_term :: "aexp \<Rightarrow> bool" and is_expr :: "aexp \<Rightarrow> bool" where
  "is_factor (Lit n) = True"
| "is_factor (Name i) = True"
| "is_factor (Paren e) = is_expr e"
| "is_factor (Bin a t b) = False"
| "is_term (Bin a t b) = (mul_op t \<noteq> None \<and> is_term a \<and> is_factor b)"
| "is_term (Lit n) = True"
| "is_term (Name i) = True"
| "is_term (Paren e) = is_expr e"
| "is_expr (Bin a t b) =
     (if mul_op t \<noteq> None then is_term a \<and> is_factor b
      else add_op t \<noteq> None \<and> is_expr a \<and> is_term b)"
| "is_expr (Lit n) = True"
| "is_expr (Name i) = True"
| "is_expr (Paren e) = is_expr e"

text \<open>The highest stack entry that parsing a tree from \<open>d\<close> on needs.\<close>

fun stack_need :: "nat \<Rightarrow> aexp \<Rightarrow> nat" where
  "stack_need d (Lit n) = d"
| "stack_need d (Name i) = d"
| "stack_need d (Paren e) = max (stack_need (d + 1) e) (d + 2)"
| "stack_need d (Bin a t b) = max (stack_need d a) (stack_need (d + 2) b)"

lemma stack_need_ge: "d \<le> stack_need d e"
  by (induction e arbitrary: d) (auto intro: le_max_iff_disj [THEN iffD2])

lemma is_factor_term: "is_factor e \<Longrightarrow> is_term e"
  by (cases e) auto

lemma is_term_expr: "is_term e \<Longrightarrow> is_expr e"
  by (cases e) auto

definition oval :: "cint option \<Rightarrow> (cint \<Rightarrow> pres) \<Rightarrow> pres" where
  "oval v k = (case v of None \<Rightarrow> TrapErr | Some x \<Rightarrow> k x)"

lemma oval_simps [simp]: "oval None k = TrapErr" "oval (Some x) k = k x"
  by (simp_all add: oval_def)

lemma apply_op_oval: "apply_op v k = oval v k"
  by (simp add: apply_op_def oval_def)

section \<open>Every allowed tree is read back\<close>

lemma pbind_oval: "pbind (oval v k) h = oval v (\<lambda>x. pbind (k x) h)"
  by (cases v) simp_all

lemma operand_factor:
  assumes "is_factor e" "stack_need d e < lim"
    and inner: "\<And>e' d' r. e = Paren e' \<Longrightarrow> stack_need d' e' < lim \<Longrightarrow> is_expr e' \<Longrightarrow>
       stops (\<lambda>t. mul_op t \<noteq> None) r \<Longrightarrow>
       pbind (operand lim sy d' (unparse e' @ r)) (expr_rest lim sy d') = oval (aval sy e') (\<lambda>x. expr_rest lim sy d' x r)"
  shows "operand lim sy d (unparse e @ r) = oval (aval sy e) (\<lambda>x. Val x r)"
proof (cases e)
  case (Paren e')
  have lim: "d < lim" "d + 2 < lim" "stack_need (d + 1) e' < lim" "is_expr e'"
    using assms(1,2) Paren by auto
  have stop: "stops (\<lambda>t. mul_op t \<noteq> None) (TRp # r)" by (simp add: stops_def)
  have "operand lim sy d (unparse e @ r)
      = pbind (pbind (operand lim sy (d + 1) (unparse e' @ TRp # r)) (expr_rest lim sy (d + 1))) (close_paren lim (d + 2))"
    using Paren lim by (simp add: guard_depth_def pbind_assoc)
  also have "\<dots> = oval (aval sy e') (\<lambda>x. Val x r)"
    using inner [OF Paren lim(3,4) stop] lim by (simp add: pbind_oval guard_depth_def)
  finally show ?thesis using Paren by simp
qed (use assms in \<open>auto simp: guard_depth_def\<close>)

text \<open>The same for an operator and the two functions that read on behind it.\<close>

lemma read_back_op:
  assumes "pbind (operand lim sy d (unparse a @ t # unparse b @ r)) rest
      = oval (aval sy a) (\<lambda>x. rest x (t # unparse b @ r))"
    and "\<And>x. rest x (t # unparse b @ r) = oval (aval sy b) (\<lambda>y. oval (f x y) (\<lambda>w. rest w r))"
    and "mul_op t = Some f \<or> mul_op t = None \<and> add_op t = Some f"
  shows "pbind (operand lim sy d (unparse (Bin a t b) @ r)) rest = oval (aval sy (Bin a t b)) (\<lambda>x. rest x r)"
  using assms by (cases "aval sy a"; cases "aval sy b") (auto simp: binop_def)

lemma read_back:
  "is_term e \<Longrightarrow> stack_need d e < lim \<Longrightarrow>
     pbind (operand lim sy d (unparse e @ r)) (term_rest lim sy d) = oval (aval sy e) (\<lambda>x. term_rest lim sy d x r)"
  "is_expr e \<Longrightarrow> stack_need d e < lim \<Longrightarrow> is_term e \<or> stops (\<lambda>t. mul_op t \<noteq> None) r \<Longrightarrow>
     pbind (operand lim sy d (unparse e @ r)) (expr_rest lim sy d) = oval (aval sy e) (\<lambda>x. expr_rest lim sy d x r)"
proof (induction "size e" arbitrary: e d r rule: less_induct)
  case less
  have fac: "operand lim sy d' (unparse f @ r') = oval (aval sy f) (\<lambda>x. Val x r')"
    if "is_factor f" "stack_need d' f < lim" "size f \<le> size e" for f d' r'
    using that less.hyps(2) by (intro operand_factor) auto
  have need: "stack_need d a < lim \<and> stack_need (d + 2) b < lim \<and> d + 1 < lim"
    if "stack_need d e < lim" "e = Bin a t b" for d e a t b
    using that stack_need_ge [of "d + 2" b] by auto
  { case 1
    show ?case
    proof (cases e)
      case (Bin a t b)
      then obtain f where f: "mul_op t = Some f" "is_term a" "is_factor b" using 1 by auto
      note n = need [OF 1(2) Bin]
      show ?thesis unfolding Bin
      proof (rule read_back_op)
        show "pbind (operand lim sy d (unparse a @ t # unparse b @ r)) (term_rest lim sy d)
            = oval (aval sy a) (\<lambda>x. term_rest lim sy d x (t # unparse b @ r))"
          using less.hyps(1) [of a d "t # unparse b @ r"] Bin f n by simp
        show "term_rest lim sy d x (t # unparse b @ r) = oval (aval sy b) (\<lambda>y. oval (f x y) (\<lambda>w. term_rest lim sy d w r))" for x
          using f(1) n fac [OF f(3)] Bin by (simp add: guard_depth_def pbind_oval apply_op_oval)
      qed (use f in simp)
    qed (use fac [of e d r] 1 in \<open>auto simp: pbind_oval\<close>)
  next
    case 2
    consider (mul) a t b f where "e = Bin a t b" "mul_op t = Some f" "is_term a" "is_factor b"
      | (add) a t b f where "e = Bin a t b" "mul_op t = None" "add_op t = Some f" "is_expr a" "is_term b"
      | (factor) "is_factor e"
      using 2(1) by (cases e) (auto split: if_splits)
    then show ?case
    proof cases
      case p: mul
      note n = need [OF 2(2) p(1)]
      show ?thesis unfolding p(1)
      proof (rule read_back_op)
        show "pbind (operand lim sy d (unparse a @ t # unparse b @ r)) (expr_rest lim sy d)
            = oval (aval sy a) (\<lambda>x. expr_rest lim sy d x (t # unparse b @ r))"
          using less.hyps(2) [of a d "t # unparse b @ r"] p n is_term_expr by simp
        show "expr_rest lim sy d x (t # unparse b @ r) = oval (aval sy b) (\<lambda>y. oval (f x y) (\<lambda>w. expr_rest lim sy d w r))" for x
          using n fac [OF p(4)] p by (simp add: guard_depth_def pbind_oval apply_op_oval)
      qed (use p in simp)
    next
      case p: add
      note n = need [OF 2(2) p(1)]
      have tr: "term_rest lim sy (d + 2) y r = Val y r" for y using 2(3) p by (cases r) (auto simp: stops_def)
      show ?thesis unfolding p(1)
      proof (rule read_back_op)
        show "pbind (operand lim sy d (unparse a @ t # unparse b @ r)) (expr_rest lim sy d)
            = oval (aval sy a) (\<lambda>x. expr_rest lim sy d x (t # unparse b @ r))"
          using less.hyps(2) [of a d "t # unparse b @ r"] p n by (simp add: stops_def)
        show "expr_rest lim sy d x (t # unparse b @ r) = oval (aval sy b) (\<lambda>y. oval (f x y) (\<lambda>w. expr_rest lim sy d w r))" for x
          using n p tr less.hyps(1) [of b "d + 2" r]
          by (simp add: guard_depth_def pbind_oval apply_op_oval pbind_assoc [symmetric])
      qed (use p in simp)
    next
      case factor
      then show ?thesis using fac [of e d r] 2(2) by (simp add: pbind_oval)
    qed }
qed

section \<open>Nothing else is accepted\<close>

text \<open>\<open>e\<close> is a tree for the tokens \<open>ts\<close> up to \<open>r\<close>, of value \<open>v\<close>, that fits on the stack.\<close>

definition reads :: "nat \<Rightarrow> cint list \<Rightarrow> nat \<Rightarrow> tok list \<Rightarrow> cint \<Rightarrow> tok list \<Rightarrow> aexp \<Rightarrow> bool" where
  "reads lim sy d ts v r e \<longleftrightarrow> ts = unparse e @ r \<and> aval sy e = Some v \<and> stack_need d e < lim"

lemma reads_Bin:
  "reads lim sy d ts x (t # q) a \<Longrightarrow> reads lim sy (d + 2) q y r b \<Longrightarrow> binop t x y = Some w \<Longrightarrow>
     reads lim sy d ts w r (Bin a t b)"
  by (simp add: reads_def)

lemma parse_sound:
  "operand lim sy d ts = Val w r \<Longrightarrow> \<exists>e. is_factor e \<and> reads lim sy d ts w r e"
  "term_rest lim sy d v ts = Val w r \<Longrightarrow> is_term a \<Longrightarrow> reads lim sy d ts0 v ts a \<Longrightarrow>
     \<exists>e. is_term e \<and> reads lim sy d ts0 w r e"
  "expr_rest lim sy d v ts = Val w r \<Longrightarrow> is_expr a \<Longrightarrow> is_term a \<or> stops (\<lambda>t. mul_op t \<noteq> None) ts \<Longrightarrow>
     reads lim sy d ts0 v ts a \<Longrightarrow> \<exists>e. is_expr e \<and> reads lim sy d ts0 w r e"
proof (induction lim sy d ts and lim sy d v ts and lim sy d v ts
    arbitrary: w r and w r a ts0 and w r a ts0 rule: operand_term_rest_expr_rest.induct)
  case (1 lim sy d ts)
  from parse_dom "1.prems" show ?case
  proof (cases rule: operand_ValE)
    case (leaf t)
    then show ?thesis by (auto simp: reads_def intro: exI [of _ "Lit _"] exI [of _ "Name _"])
  next
    case p: (paren q v r1)
    obtain e1 where e1: "is_factor e1" "reads lim sy (d + 1) q v r1 e1"
      using "1.IH"(1) [OF p(1) refl p(2,3)] by blast
    obtain e2 where "is_expr e2" "reads lim sy (d + 1) q w (TRp # r) e2"
      using "1.IH"(2) [OF p(1) refl p(2,3,4) _ _ e1(2)] e1(1) is_factor_term is_term_expr by blast
    then have "is_factor (Paren e2) \<and> reads lim sy d ts w r (Paren e2)" using p by (simp add: reads_def)
    then show ?thesis by blast
  qed
next
  case (2 lim sy d v ts)
  from parse_dom "2.prems"(1) show ?case
  proof (cases rule: term_rest_ValE)
    case stop
    then show ?thesis using "2.prems" by auto
  next
    case p: (mul t q f b r1 x)
    obtain e where e: "is_factor e" "reads lim sy (d + 2) q b r1 e" using "2.IH"(1) [OF p(1-4)] by blast
    have "reads lim sy d ts0 x r1 (Bin a t e)"
      using reads_Bin [OF _ e(2)] "2.prems"(3) p by (simp add: binop_def)
    then show ?thesis using "2.IH"(2) [OF p(1-6), of "Bin a t e" ts0] e(1) p(2) "2.prems"(2) by auto
  qed
next
  case (3 lim sy d v ts)
  from parse_dom "3.prems"(1) show ?case
  proof (cases rule: expr_rest_ValE)
    case stop
    then show ?thesis using "3.prems" by auto
  next
    case p: (mul t q f b r1 x)
    obtain e where e: "is_factor e" "reads lim sy (d + 2) q b r1 e" using "3.IH"(4) [OF p(1-4)] by blast
    have "is_term a" using "3.prems"(3) p by (auto simp: stops_def)
    moreover have "reads lim sy d ts0 x r1 (Bin a t e)"
      using reads_Bin [OF _ e(2)] "3.prems"(4) p by (simp add: binop_def)
    ultimately show ?thesis using "3.IH"(5) [OF p(1-6), of "Bin a t e" ts0] e(1) p(2) by auto
  next
    case p: (add t q f b r1 c r2 x)
    obtain e1 where e1: "is_factor e1" "reads lim sy (d + 2) q b r1 e1" using "3.IH"(1) [OF p(1-5)] by blast
    obtain e2 where e2: "is_term e2" "reads lim sy (d + 2) q c r2 e2"
      using "3.IH"(2) [OF p(1-6) is_factor_term [OF e1(1)] e1(2)] by blast
    have "reads lim sy d ts0 x r2 (Bin a t e2)"
      using reads_Bin [OF _ e2(2)] "3.prems"(4) p by (simp add: binop_def)
    then show ?thesis
      using "3.IH"(3) [OF p(1-8), of "Bin a t e2" ts0] e2(1) p(2,3) "3.prems"(2) term_rest_stops [OF p(6)] by auto
  qed
qed

text \<open>An expression has a value exactly when its tokens start with an allowed tree of that value.\<close>

lemma expr_reads:
  "expr lim sy d ts = Val v r \<Longrightarrow> \<exists>e. is_expr e \<and> reads lim sy d ts v r e"
  using parse_sound(1) parse_sound(3) is_factor_term is_term_expr unfolding expr_def pbind_Val by metis

lemma expr_unparse:
  assumes "is_expr e" "stack_need d e < lim" "stops (\<lambda>t. mul_op t \<noteq> None \<or> add_op t \<noteq> None) r"
  shows "expr lim sy d (unparse e @ r) = oval (aval sy e) (\<lambda>v. Val v r)"
proof -
  have "stops (\<lambda>t. mul_op t \<noteq> None) r" "expr_rest lim sy d x r = Val x r" for x
    using assms(3) by (cases r; auto simp: stops_def)+
  then show ?thesis using read_back(2) [OF assms(1,2)] by (simp add: expr_def)
qed

section \<open>Statements and programs\<close>

datatype stmt = Print aexp | Assign nat aexp

fun stmt_tokens :: "stmt \<Rightarrow> tok list" where
  "stmt_tokens (Print e) = unparse e @ [TNl]"
| "stmt_tokens (Assign i e) = TVar i # TEq # unparse e @ [TNl]"

fun stmt_ok :: "nat \<Rightarrow> stmt \<Rightarrow> bool" where
  "stmt_ok lim (Print e) \<longleftrightarrow> is_expr e \<and> stack_need 2 e < lim"
| "stmt_ok lim (Assign i e) \<longleftrightarrow> is_expr e \<and> stack_need 4 e < lim"

text \<open>Running statements one after the other, until the first division that has no value.\<close>

fun run_stmts :: "cint list \<Rightarrow> string \<Rightarrow> stmt list \<Rightarrow> calc_end" where
  "run_stmts sy out [] = Returns 0 sy out ''''"
| "run_stmts sy out (Print e # ss) =
     (case aval sy e of None \<Rightarrow> Traps sy out | Some v \<Rightarrow> run_stmts sy (out @ printed v) ss)"
| "run_stmts sy out (Assign i e # ss) =
     (case aval sy e of None \<Rightarrow> Traps sy out | Some v \<Rightarrow> run_stmts (sy[i := v]) out ss)"

lemma unparse_not_assign: "is_expr e \<Longrightarrow> unparse e @ TNl # q \<noteq> TVar i # TEq # r"
proof
  assume e: "is_expr e" "unparse e @ TNl # q = TVar i # TEq # r"
  have "TEq \<notin> set (unparse e)" using e(1)
  proof (induction e)
    case (Bin a t b)
    then show ?case by (cases t) (auto simp: is_term_expr is_factor_term split: if_splits)
  qed auto
  moreover have "unparse e \<noteq> []" by (cases e) auto
  ultimately show False using e(2) by (cases "unparse e" rule: remdups_adj.cases) auto
qed

lemma program_stmts:
  "list_all (stmt_ok lim) ss \<Longrightarrow> program lim sy out (concat (map stmt_tokens ss)) = run_stmts sy out ss"
proof (induction ss arbitrary: sy out)
  case (Cons s ss)
  let ?q = "concat (map stmt_tokens ss)"
  have stop: "stops (\<lambda>t. mul_op t \<noteq> None \<or> add_op t \<noteq> None) (TNl # ?q)" by (simp add: stops_def)
  show ?case
  proof (cases s)
    case (Print e)
    then have e: "is_expr e" "stack_need 2 e < lim" using Cons.prems by auto
    then have "statement lim sy out (unparse e @ TNl # ?q)
        = with_value sy out (oval (aval sy e) (\<lambda>v. Val v (TNl # ?q))) (\<lambda>v r. end_of_line sy (out @ printed v) r)"
      using unparse_not_assign expr_unparse [OF e stop] by (subst statement_expr) auto
    then show ?thesis
      using Cons Print by (cases "aval sy e") (simp_all add: program.simps [of lim sy out "unparse e @ _"])
  next
    case (Assign i e)
    then have e: "is_expr e" "stack_need 4 e < lim" using Cons.prems by auto
    show ?thesis
      using Cons Assign expr_unparse [OF e stop]
      by (cases "aval sy e") (simp_all add: program.simps [of lim sy out "TVar i # _"])
  qed
qed (simp add: program.simps)

lemma end_of_line_Ends: "end_of_line sy out ts = Ends e \<Longrightarrow> e = syntax_error_end sy out"
  by (cases "(sy, out, ts)" rule: end_of_line.cases) auto

lemma statement_ends_badly: "statement lim sy out ts \<noteq> Ends (Returns 0 x y z)"
proof -
  have "with_value sy out p (\<lambda>v r. end_of_line (f v) (g v) r) \<noteq> Ends (Returns 0 x y z)" for p f g
    by (cases p) (auto simp: syntax_error_end_def no_memory_end_def dest!: end_of_line_Ends)
  then show ?thesis by (cases "(lim, sy, out, ts)" rule: statement.cases) auto
qed

lemma statement_sound:
  assumes "statement lim sy out ts = Goes_on sy1 out1 r"
  shows "\<exists>s. stmt_ok lim s \<and> ts = stmt_tokens s @ r \<and> (\<forall>ss. run_stmts sy out (s # ss) = run_stmts sy1 out1 ss)"
proof (cases "\<exists>i q. ts = TVar i # TEq # q")
  case True
  then obtain i q where ts: "ts = TVar i # TEq # q" by blast
  with assms obtain v where v: "expr lim sy 4 q = Val v (TNl # r)" "sy1 = sy[i := v]" "out1 = out"
    by (auto simp: with_value_Goes_on end_of_line_Goes_on)
  obtain e where "is_expr e" "reads lim sy 4 q v (TNl # r) e" using expr_reads [OF v(1)] by blast
  then show ?thesis using ts v by (intro exI [of _ "Assign i e"]) (auto simp: reads_def)
next
  case False
  then have "statement lim sy out ts =
      with_value sy out (expr lim sy 2 ts) (\<lambda>v r. end_of_line sy (out @ printed v) r)"
    by (intro statement_expr) blast
  with assms obtain v where v: "expr lim sy 2 ts = Val v (TNl # r)" "sy1 = sy" "out1 = out @ printed v"
    by (auto simp: with_value_Goes_on end_of_line_Goes_on)
  obtain e where "is_expr e" "reads lim sy 2 ts v (TNl # r) e" using expr_reads [OF v(1)] by blast
  then show ?thesis using v by (intro exI [of _ "Print e"]) (auto simp: reads_def)
qed

text \<open>A program that returns 0 is a sequence of allowed statements.\<close>

lemma program_accepts:
  "program lim sy out ts = Returns 0 sy' out' err \<Longrightarrow>
     \<exists>ss. list_all (stmt_ok lim) ss \<and> ts = concat (map stmt_tokens ss) \<and> run_stmts sy out ss = Returns 0 sy' out' err"
proof (induction lim sy out ts rule: program.induct)
  case (1 lim sy out ts)
  show ?case
  proof (cases "ts = []")
    case True
    with "1.prems" show ?thesis by (intro exI [of _ "[]"]) (simp add: program.simps [of lim sy out "[]"])
  next
    case False
    show ?thesis
    proof (cases "statement lim sy out ts")
      case (Ends e)
      then have "e = Returns 0 sy' out' err" using "1.prems" False by (simp add: program.simps [of lim sy out ts])
      then show ?thesis using Ends statement_ends_badly by blast
    next
      case (Goes_on sy1 out1 r)
      have rest: "program lim sy1 out1 r = Returns 0 sy' out' err"
        using "1.prems" False Goes_on by (simp add: program.simps [of lim sy out ts])
      obtain ss where ss: "list_all (stmt_ok lim) ss" "r = concat (map stmt_tokens ss)"
        "run_stmts sy1 out1 ss = Returns 0 sy' out' err"
        using "1.IH" [OF False Goes_on rest] by blast
      obtain s where "stmt_ok lim s" "ts = stmt_tokens s @ r" "run_stmts sy out (s # ss) = run_stmts sy1 out1 ss"
        using statement_sound [OF Goes_on] by blast
      then show ?thesis using ss by (intro exI [of _ "s # ss"]) simp
    qed
  qed
qed

end
