(* ===== verification/Calc_Results.thy ===== *)
theory Calc_Results
  imports Calculator Calc_Grammar
begin

text \<open>
  Consequences for whole runs of the calculator: statements before an error, nesting beyond the
  parser stack, decimal literals, and the layout of the parser's relocated stacks. Also the two
  environments in which the examples of this development run.
\<close>

section \<open>Environments for examples\<close>

definition with_memory :: "bool \<Rightarrow> lexenv" where
  "with_memory tty = \<lparr>alloc_ok = (\<lambda>_. True), fresh_ch = (\<lambda>_. CHR ''?''), fresh_int = 7, isatty = (\<lambda>_. tty)\<rparr>"

definition roomy :: cenv where
  "roomy = \<lparr>malloc_ok = (\<lambda>_. True), fresh_ss = (\<lambda>_. 77), fresh_vs = (\<lambda>_. 99)\<rparr>"

definition cramped :: cenv where
  "cramped = \<lparr>malloc_ok = (\<lambda>_. False), fresh_ss = (\<lambda>_. 77), fresh_vs = (\<lambda>_. 99)\<rparr>"

lemma with_memory_ok [simp]: "alloc_ok (with_memory tty) n"
  by (simp add: with_memory_def)

lemma stack_limit_roomy: "stack_limit roomy = 9999"
  using limit_from_malloc [of roomy YYINITDEPTH]
  by (simp add: stack_limit_def roomy_def YYINITDEPTH_def YYMAXDEPTH_def)

lemma stack_limit_cramped: "stack_limit cramped = 199"
  unfolding stack_limit_def by (subst limit_from.simps) (simp add: cramped_def YYINITDEPTH_def Let_def)

section \<open>An error keeps what was done before it\<close>

lemma program_prefix:
  "list_all (stmt_ok lim) ss \<Longrightarrow> run_stmts sy out ss = Returns 0 sy' out' '''' \<Longrightarrow>
     program lim sy out (concat (map stmt_tokens ss) @ ts) = program lim sy' out' ts"
proof (induction ss arbitrary: sy out)
  case (Cons s ss)
  let ?q = "concat (map stmt_tokens ss) @ ts"
  have stop: "stops (\<lambda>t. mul_op t \<noteq> None \<or> add_op t \<noteq> None) (TNl # ?q)" by (simp add: stops_def)
  show ?case
  proof (cases s)
    case (Print e)
    then obtain v where e: "is_expr e" "stack_need 2 e < lim" "aval sy e = Some v"
      using Cons.prems by (auto split: option.splits)
    then have "statement lim sy out (unparse e @ TNl # ?q) = Goes_on sy (out @ printed v) ?q"
      using unparse_not_assign expr_unparse [OF e(1,2) stop] by (subst statement_expr) auto
    then show ?thesis
      using Cons Print e by (simp add: program.simps [of lim sy out "unparse e @ _"])
  next
    case (Assign i e)
    then obtain v where e: "is_expr e" "stack_need 4 e < lim" "aval sy e = Some v"
      using Cons.prems by (auto split: option.splits)
    then show ?thesis
      using Cons Assign expr_unparse [OF e(1,2) stop] by (simp add: program.simps [of lim sy out "TVar i # _"])
  qed
qed simp

text \<open>
  What a line that ends the run can leave behind: its expression had no value, and nothing has
  happened; or it has one, which is stored or printed before the parser sees that the line goes on.
\<close>

fun half_done :: "cint list \<Rightarrow> string \<Rightarrow> tok list \<Rightarrow> cint \<Rightarrow> calc_end" where
  "half_done sy out (TVar i # TEq # ts) v = syntax_error_end (sy[i := v]) out"
| "half_done sy out ts v = syntax_error_end sy (out @ printed v)"

fun line_value :: "nat \<Rightarrow> cint list \<Rightarrow> tok list \<Rightarrow> pres" where
  "line_value lim sy (TVar i # TEq # ts) = expr lim sy 4 ts"
| "line_value lim sy ts = expr lim sy 2 ts"

lemma with_value_Ends:
  assumes "with_value sy out p (\<lambda>v r. end_of_line (f v) (g v) r) = Ends e"
  shows "e \<in> {syntax_error_end sy out, no_memory_end sy out, Traps sy out}
    \<or> (\<exists>v r. p = Val v r \<and> e = syntax_error_end (f v) (g v))"
  using assms by (cases p) (auto dest: end_of_line_Ends)

lemma statement_Ends:
  "statement lim sy out ts = Ends e \<Longrightarrow>
     e \<in> {syntax_error_end sy out, no_memory_end sy out, Traps sy out}
     \<or> (\<exists>v r. line_value lim sy ts = Val v r \<and> e = half_done sy out ts v)"
proof (cases "(sy, out, ts, 0 :: cint)" rule: half_done.cases)
  case (1 sy1 out1 i q v)
  assume "statement lim sy out ts = Ends e"
  with 1 show ?thesis using with_value_Ends [of sy out "expr lim sy 4 q" "\<lambda>v. sy[i := v]" "\<lambda>v. out" e] by auto
qed (use with_value_Ends [of sy out "expr lim sy 2 ts" "\<lambda>v. sy" "\<lambda>v. out @ printed v" e] in auto)

lemma program_ends: "ts \<noteq> [] \<Longrightarrow> statement lim sy out ts = Ends e \<Longrightarrow> program lim sy out ts = e"
  by (subst program.simps) simp

section \<open>Nesting beyond the stack\<close>

lemma operand_too_deep: "d \<le> lim \<Longrightarrow> lim < d + n \<Longrightarrow> operand lim sy d (replicate n TLp @ r) = NoMem"
proof (induction n arbitrary: d)
  case (Suc n)
  then show ?case
  proof (cases "d < lim")
    case True
    then have "operand lim sy (d + 1) (replicate n TLp @ r) = NoMem" using Suc.IH [of "d + 1"] Suc.prems by simp
    then show ?thesis by (simp add: guard_depth_def)
  qed (simp add: guard_depth_def)
qed simp

lemma program_too_deep:
  assumes "2 \<le> lim" "lim < n + 2"
  shows "program lim sy out (replicate n TLp @ r) = no_memory_end sy out"
proof -
  obtain k where n: "n = Suc k" using assms by (cases n) auto
  have "operand lim sy 2 (replicate n TLp @ r) = NoMem" using operand_too_deep [of 2 lim n] assms by simp
  then have "statement lim sy out (replicate n TLp @ r) = Ends (no_memory_end sy out)"
    using n by (subst statement_expr) (auto simp: expr_def)
  then show ?thesis using n by (subst program.simps) simp
qed

section \<open>Decimal literals\<close>

lemma is_digit_char: "n < 10 \<Longrightarrow> is_digit (digit_char n)"
  by (simp add: is_digit_def digit_char_def)

lemma digit_val_char: "n < 10 \<Longrightarrow> digit_val (digit_char n) = int n"
  by (simp add: digit_val_def digit_char_def)

lemma dec_nat_digits: "list_all is_digit (dec_nat n)"
proof (induction n rule: dec_nat.induct)
  case (1 n)
  then show ?case by (subst dec_nat.simps) (simp add: is_digit_char)
qed

lemma dec_nat_nonempty: "dec_nat n \<noteq> []"
  using length_dec_nat_pos [of n] by blast

lemma digits_val_dec: "digits_val (dec_nat n) = int n"
proof (induction n rule: dec_nat.induct)
  case (1 n)
  show ?case
  proof (cases "n < 10")
    case True
    then show ?thesis by (subst dec_nat.simps) (simp add: digits_val_def digit_val_char)
  next
    case False
    have "digits_val (dec_nat (n div 10) @ [digit_char (n mod 10)]) = 10 * digits_val (dec_nat (n div 10)) + int (n mod 10)"
      by (simp add: digits_val_def digit_val_char)
    also have "\<dots> = int n" using "1.IH" False by (simp add: zmod_int zdiv_int)
    finally show ?thesis using False by (subst dec_nat.simps) simp
  qed
qed

lemma atoi_digits:
  assumes "list_all is_digit ds" "ds \<noteq> []"
  shows "atoi ds = word_of_int (max (- (2 ^ 63)) (min (2 ^ 63 - 1) (digits_val ds)))"
proof -
  obtain c cs where ds: "ds = c # cs" using assms(2) by (cases ds) auto
  then have c: "is_digit c" using assms(1) by simp
  then have "\<not> is_space c" by (auto simp: is_digit_def is_space_def Let_def)
  moreover have "c \<noteq> CHR ''-''" "c \<noteq> CHR ''+''" using c by (auto simp: is_digit_def Let_def)
  moreover have "takeWhile is_digit ds = ds" using assms(1) by (simp add: takeWhile_eq_all_conv list_all_iff)
  ultimately show ?thesis using ds by (simp add: atoi_def strtol10_def Let_def)
qed

lemma atoi_dec: "n < 2 ^ 63 \<Longrightarrow> atoi (dec_nat n) = of_nat n"
  using atoi_digits [OF dec_nat_digits dec_nat_nonempty, of n] by (simp add: digits_val_dec)

lemma next_tok_literal:
  assumes "r = [] \<or> \<not> is_digit (hd r)"
  shows "next_tok (dec_nat n @ r) = ('''', Some (TInt (atoi (dec_nat n)), r))"
proof -
  obtain c cs where d: "dec_nat n = c # cs" using dec_nat_nonempty by (cases "dec_nat n") auto
  have digits: "is_digit c" "\<forall>x \<in> set cs. is_digit x" using dec_nat_digits [of n] d by (auto simp: list_all_iff)
  have "takeWhile is_digit (cs @ r) = cs" "dropWhile is_digit (cs @ r) = r"
    using digits assms by (cases r; simp add: takeWhile_append dropWhile_append)+
  then show ?thesis using d digits(1) by simp
qed

lemma tokens_literal:
  "r = [] \<or> \<not> is_digit (hd r) \<Longrightarrow> tokens (dec_nat n @ r) = TInt (atoi (dec_nat n)) # tokens r"
  using next_tok_literal [of r n] by (subst tokens.simps) simp

section \<open>The relocated stacks\<close>

lemma stack_layout:
  "n * 2 \<le> yyvs_offset n" "yyvs_offset n + n * 4 \<le> YYSTACK_BYTES n" "yyvs_offset n mod 4 = 0"
  unfolding yyvs_offset_def YYSTACK_BYTES_def YYSTACK_GAP_MAXIMUM_def by presburger+

end
