(* ===== verification/Calc_Text.thy ===== *)
theory Calc_Text
  imports Calc_Results
begin

text \<open>
  Expressions as text: \<open>show_exp\<close> writes a tree of \<open>Calc_Grammar\<close> down in characters, and the
  tokens of that text are the tree's own tokens, so that a tree written to standard input is the
  tree the calculator evaluates. Also the independence of a run from what the environment leaves
  open: the contents of fresh memory and whether standard input is a terminal.
\<close>

section \<open>Writing an expression\<close>

definition op_char :: "tok \<Rightarrow> char" where
  "op_char t = char_of (nat (tok_code t))"

fun show_exp :: "aexp \<Rightarrow> string" where
  "show_exp (Lit n) = dec_nat (unat n)"
| "show_exp (Name i) = [char_of (97 + i)]"
| "show_exp (Paren e) = ''('' @ show_exp e @ '')''"
| "show_exp (Bin a t b) = show_exp a @ op_char t # show_exp b"

text \<open>Trees over the 26 variables and the four operators.\<close>

fun is_plain :: "aexp \<Rightarrow> bool" where
  "is_plain (Lit n) = True"
| "is_plain (Name i) = (i < 26)"
| "is_plain (Paren e) = is_plain e"
| "is_plain (Bin a t b) = ((mul_op t \<noteq> None \<or> add_op t \<noteq> None) \<and> is_plain a \<and> is_plain b)"

definition no_digit :: "string \<Rightarrow> bool" where
  "no_digit r \<longleftrightarrow> r = [] \<or> \<not> is_digit (hd r)"

lemma tokens_Nil [simp]: "tokens [] = []"
  by (subst tokens.simps) simp

lemma tokens_char: "\<not> is_digit c \<Longrightarrow> char_tok c = Some t \<Longrightarrow> tokens (c # r) = t # tokens r"
  by (subst tokens.simps) simp

lemma op_cases:
  "mul_op t \<noteq> None \<or> add_op t \<noteq> None \<Longrightarrow> t = TTimes \<or> t = TDiv \<or> t = TPlus \<or> t = TMinus"
  by (cases t) auto

lemma tokens_op:
  assumes "mul_op t \<noteq> None \<or> add_op t \<noteq> None"
  shows "\<not> is_digit (op_char t)" "tokens (op_char t # r) = t # tokens r"
proof -
  have "\<not> is_digit (op_char t) \<and> char_tok (op_char t) = Some t"
    using op_cases [OF assms] by (auto simp: op_char_def is_digit_def char_tok_def)
  then show "\<not> is_digit (op_char t)" "tokens (op_char t # r) = t # tokens r" by (auto intro: tokens_char)
qed

lemma tokens_name:
  assumes "i < 26"
  shows "tokens (char_of (97 + i) # r) = TVar i # tokens r"
  using assms by (intro tokens_char) (auto simp: is_digit_def char_tok_def)

lemma tokens_parens:
  "tokens (CHR ''('' # r) = TLp # tokens r" "tokens (CHR '')'' # r) = TRp # tokens r"
  "tokens (CHR ''\<newline>'' # r) = TNl # tokens r"
  by (rule tokens_char; simp add: is_digit_def char_tok_def)+

lemma no_digit_simps [simp]:
  "no_digit []" "no_digit (CHR '')'' # r)" "no_digit (CHR ''\<newline>'' # r)"
  "mul_op t \<noteq> None \<or> add_op t \<noteq> None \<Longrightarrow> no_digit (op_char t # r)"
  using tokens_op(1) by (auto simp: no_digit_def is_digit_def)

lemma tokens_show_exp:
  "is_plain e \<Longrightarrow> no_digit r \<Longrightarrow> tokens (show_exp e @ r) = unparse e @ tokens r"
proof (induction e arbitrary: r)
  case (Lit n)
  have "unat n < 2 ^ 63" using unsigned_less [of n] by (rule order.strict_trans) simp
  then have "atoi (dec_nat (unat n)) = n" by (simp add: atoi_dec)
  then show ?case using tokens_literal [of r "unat n"] Lit by (simp add: no_digit_def)
next
  case (Bin a t b)
  then show ?case using tokens_op(2) [of t] by simp
qed (simp_all add: tokens_name tokens_parens)

section \<open>What the environment leaves open\<close>

lemma limit_from_cong: "malloc_ok env = malloc_ok env' \<Longrightarrow> limit_from env sz = limit_from env' sz"
proof (induction env sz rule: limit_from.induct)
  case (1 env sz)
  then show ?case
    by (subst limit_from.simps, subst (2) limit_from.simps) (simp add: Let_def)
qed

lemma stack_limit_cong: "malloc_ok env = malloc_ok env' \<Longrightarrow> stack_limit env = stack_limit env'"
  unfolding stack_limit_def by (rule limit_from_cong)

text \<open>What a user sees of a run that has ended, standard error apart.\<close>

definition observed :: "'l yyparser \<Rightarrow> yylabel \<times> int option \<times> cint list \<times> string" where
  "observed t = (pc t, (if pc t = Returned then Some (yyresult t) else None), sym t, stdout t)"

lemma run_ends_observed: "run_ends W e t \<Longrightarrow> run_ends W' e u \<Longrightarrow> observed t = observed u"
  by (auto simp: run_ends_def observed_def split: calc_end.splits)

lemma run_stmts_silent: "run_stmts sy out ss = Returns r sy' out' err \<Longrightarrow> r = 0 \<and> err = ''''"
  by (induction sy out ss rule: run_stmts.induct) (auto split: option.splits)

section \<open>Literals\<close>

text \<open>A literal beyond the 64-bit \<open>long\<close> of \<open>strtol\<close> becomes \<open>LONG_MAX\<close>, which is -1 as an \<open>int\<close>.\<close>

lemma atoi_huge: "2 ^ 63 \<le> n \<Longrightarrow> atoi (dec_nat n) = - 1"
proof -
  assume "2 ^ 63 \<le> n"
  then have "(2 :: int) ^ 63 \<le> int n" by (metis of_nat_le_iff of_nat_numeral of_nat_power)
  then have "max (- (2 ^ 63)) (min (2 ^ 63 - 1) (int n)) = 2 ^ 63 - 1" by simp
  then have "atoi (dec_nat n) = word_of_int (2 ^ 63 - 1)"
    using atoi_digits [OF dec_nat_digits dec_nat_nonempty, of n] by (simp add: digits_val_dec)
  then show ?thesis by simp
qed

section \<open>Nesting\<close>

lemma tokens_parens_n: "tokens (replicate n (CHR ''('') @ r) = replicate n TLp @ tokens r"
  by (induction n) (simp_all add: tokens_parens)

section \<open>The grammar in the tables\<close>

text \<open>The right-hand side of a rule, as \<open>yyprhs\<close> and \<open>yyrhs\<close> give it.\<close>

definition rule_rhs :: "nat \<Rightarrow> int list" where
  "rule_rhs r = takeWhile (\<lambda>x. x \<noteq> - 1) (drop (nat (yyprhs ! r)) yyrhs)"

end
