(* ===== verification/Scanner_Interface.thy ===== *)
theory Scanner_Interface
  imports Scanner_Lex
begin

text \<open>
  The rest of the scanner's interface, \<open>src/packetdrill/lex.yy.c\<close>: the functions that read and set
  its globals, and the macros for actions and section 3 that change the current buffer.
\<close>

section \<open>Reading and setting globals\<close>

definition yyget_lineno :: "yyscan \<Rightarrow> int" where "yyget_lineno s = yylineno s"
definition yyget_in :: "yyscan \<Rightarrow> nat option" where "yyget_in s = yyin s"
definition yyget_out :: "yyscan \<Rightarrow> nat option" where "yyget_out s = yyout s"
definition yyget_leng :: "yyscan \<Rightarrow> nat" where "yyget_leng s = yyleng s"

text \<open>The token's text is a pointer; what it points to in the current buffer is a C string.\<close>

definition yyget_text :: "yyscan \<Rightarrow> int" where "yyget_text s = yytext_ptr s"

definition yytext_string :: "yyscan \<Rightarrow> string outcome" where
  "yytext_string s = with_current s (\<lambda>b x. checked (cstring (yyget_text s) (yy_ch_buf x)) Ok)"

definition yyset_lineno :: "int \<Rightarrow> yyscan \<Rightarrow> yyscan" where "yyset_lineno n s = s\<lparr>yylineno := n\<rparr>"
definition yyset_in :: "nat option \<Rightarrow> yyscan \<Rightarrow> yyscan" where "yyset_in f s = s\<lparr>yyin := f\<rparr>"
definition yyset_out :: "nat option \<Rightarrow> yyscan \<Rightarrow> yyscan" where "yyset_out f s = s\<lparr>yyout := f\<rparr>"
definition yyget_debug :: "yyscan \<Rightarrow> int" where "yyget_debug s = yy_flex_debug s"
definition yyset_debug :: "int \<Rightarrow> yyscan \<Rightarrow> yyscan" where "yyset_debug d s = s\<lparr>yy_flex_debug := d\<rparr>"

section \<open>Giving characters back\<close>

text \<open>\<open>yyless\<close> as section 3 of the scanner sees it, and as the actions see it.\<close>

definition yyless :: "int \<Rightarrow> yyscan \<Rightarrow> yyscan outcome" where
  "yyless n s =
     obind (poke (yytext_ptr s + int (yyleng s)) (yy_hold_char s) s) (\<lambda>s1.
       let s2 = s1\<lparr>yy_c_buf_p := yytext_ptr s1 + n\<rparr> in
       obind (peek (yy_c_buf_p s2) s2) (\<lambda>h.
       obind (poke (yy_c_buf_p s2) (CHR 0x00) (s2\<lparr>yy_hold_char := h\<rparr>)) (\<lambda>s3.
         Ok (s3\<lparr>yyleng := to_size n\<rparr>))))"

definition yyless_action :: "int \<Rightarrow> yylexer \<Rightarrow> yylexer outcome" where
  "yyless_action n x =
     (let s = l_scan x in
      obind (poke (yy_cp x) (yy_hold_char s) s) (\<lambda>s1.
        let cp = yy_bp x + n in
        obind (YY_DO_BEFORE_ACTION cp (yy_bp x) (s1\<lparr>yy_c_buf_p := cp\<rparr>)) (\<lambda>s2.
          Ok (x\<lparr>yy_cp := cp, l_scan := s2\<rparr>))))"

definition unput :: "char \<Rightarrow> yyscan \<Rightarrow> yyscan outcome" where
  "unput c s = yyunput c (yytext_ptr s) s"

section \<open>The current buffer\<close>

definition YY_FLUSH_BUFFER :: "yyscan \<Rightarrow> yyscan outcome" where
  "YY_FLUSH_BUFFER s = obind (YY_CURRENT_BUFFER s) (\<lambda>b. yy_flush_buffer b s)"

text \<open>Both \<open>yy_set_interactive\<close> and \<open>yy_set_bol\<close> start by making a buffer when there is none.\<close>

definition need_buffer :: "lexenv \<Rightarrow> yyscan \<Rightarrow> yyscan outcome" where
  "need_buffer env s =
     obind (YY_CURRENT_BUFFER s) (\<lambda>cur.
      if cur = None then
        obind (yyensure_buffer_stack env s) (\<lambda>s1.
        obind (yy_create_buffer env (yyin s1) YY_BUF_SIZE s1) (\<lambda>(b, s2). set_current b s2))
      else Ok s)"

definition yy_set_interactive :: "lexenv \<Rightarrow> bool \<Rightarrow> yyscan \<Rightarrow> yyscan outcome" where
  "yy_set_interactive env is_interactive s =
     obind (need_buffer env s) (\<lambda>s1.
       with_current s1 (\<lambda>b x. Ok (put_buf b (x\<lparr>yy_is_interactive := is_interactive\<rparr>) s1)))"

definition yy_set_bol :: "lexenv \<Rightarrow> bool \<Rightarrow> yyscan \<Rightarrow> yyscan outcome" where
  "yy_set_bol env at_bol s =
     obind (need_buffer env s) (\<lambda>s1.
       with_current s1 (\<lambda>b x. Ok (put_buf b (x\<lparr>yy_at_bol := at_bol\<rparr>) s1)))"

definition YY_AT_BOL :: "yyscan \<Rightarrow> bool outcome" where
  "YY_AT_BOL s = with_current s (\<lambda>b x. Ok (yy_at_bol x))"

end
