(* ===== verification/Scanner_Frame.thy ===== *)
theory Scanner_Frame
  imports Scanner_Source Scanner_Interface
begin

text \<open>
  What a call of the scanner leaves alone: the stack of buffers, every buffer but the current one
  and every stream but its own. So a buffer that waits further down the stack is as it was.
\<close>

section \<open>What a call leaves alone\<close>

definition confined :: "yyscan \<Rightarrow> yyscan \<Rightarrow> bool" where
  "confined s t \<longleftrightarrow>
     yy_buffer_stack t = yy_buffer_stack s \<and> yy_buffer_stack_top t = yy_buffer_stack_top s
     \<and> yy_buffer_stack_max t = yy_buffer_stack_max s \<and> yy_next_buf t = yy_next_buf s \<and> yyin t = yyin s
     \<and> (\<forall>c. current_buffer s \<noteq> Some c \<longrightarrow> yy_bufs t c = yy_bufs s c)
     \<and> (\<forall>g. yyin s \<noteq> Some g \<longrightarrow> files t g = files s g)"

lemma frame_refl [simp]: "confined s s"
  by (simp add: confined_def)

lemma frame_current: "confined s t \<Longrightarrow> current_buffer t = current_buffer s"
  by (simp add: confined_def current_buffer_def cong: option.case_cong)

lemma frame_trans: "confined s t \<Longrightarrow> confined t u \<Longrightarrow> confined s u"
  using frame_current [of s t] by (simp add: confined_def)

lemma frame_updates [simp]:
  "confined s (t\<lparr>yy_n_chars := n\<rparr>) = confined s t" "confined s (t\<lparr>yy_c_buf_p := p\<rparr>) = confined s t"
  "confined s (t\<lparr>yytext_ptr := p\<rparr>) = confined s t" "confined s (t\<lparr>yy_hold_char := c\<rparr>) = confined s t"
  "confined s (t\<lparr>yyleng := n\<rparr>) = confined s t" "confined s (t\<lparr>yy_log := m\<rparr>) = confined s t"
  "confined s (t\<lparr>yy_echo := m\<rparr>) = confined s t" "confined s (t\<lparr>yy_last_accepting_state := q\<rparr>) = confined s t"
  "confined s (t\<lparr>yy_last_accepting_cpos := p\<rparr>) = confined s t" "confined s (t\<lparr>yy_did_buffer_switch_on_eof := d\<rparr>) = confined s t"
  by (simp_all add: confined_def)

lemma frame_put: "confined s t \<Longrightarrow> current_buffer s = Some b \<Longrightarrow> confined s (put_buf b x t)"
  by (simp add: confined_def put_buf_def)

lemmas frame_put_same = frame_put [OF frame_refl]

lemma frame_from [simp]:
  "confined (s\<lparr>yy_n_chars := n\<rparr>) t = confined s t" "confined (s\<lparr>yy_c_buf_p := p\<rparr>) t = confined s t"
  "confined (s\<lparr>yytext_ptr := p\<rparr>) t = confined s t" "confined (s\<lparr>yy_hold_char := c\<rparr>) t = confined s t"
  "confined (s\<lparr>yyleng := n\<rparr>) t = confined s t" "confined (s\<lparr>yy_log := m\<rparr>) t = confined s t"
  "confined (s\<lparr>yy_last_accepting_state := q\<rparr>) t = confined s t" "confined (s\<lparr>yy_last_accepting_cpos := p\<rparr>) t = confined s t"
  by (simp_all add: confined_def)

lemma with_buf_Ok: "with_buf p s k = Ok r \<longleftrightarrow> (\<exists>b x. p = Some b \<and> yy_bufs s b = Some x \<and> k b x = Ok r)"
  by (auto simp: with_buf_def checked_Ok_iff)

lemma frame_poke: "poke p c s = Ok t \<Longrightarrow> confined s t"
  by (auto simp: poke_def with_buf_Ok checked_Ok_iff intro: frame_put_same)

lemma owhile_invariant:
  assumes "owhile b c s = Ok t" "I s" "\<And>s t. I s \<Longrightarrow> b s \<Longrightarrow> c s = Ok t \<Longrightarrow> I t"
  shows "I t"
proof -
  let ?w = "while_option (\<lambda>r. case r of Ok x \<Rightarrow> b x | _ \<Rightarrow> False) (\<lambda>r. obind r c) (Ok s)"
  have "?w = Some (Ok t)" using assms(1) by (auto simp: owhile_def split: option.splits)
  then have "case Ok t of Ok x \<Rightarrow> I x | _ \<Rightarrow> True"
  proof (rule while_option_rule [rotated])
    show "case Ok s of Ok x \<Rightarrow> I x | _ \<Rightarrow> True" using assms(2) by simp
    fix r assume r: "case r of Ok x \<Rightarrow> I x | _ \<Rightarrow> True" "case r of Ok x \<Rightarrow> b x | _ \<Rightarrow> False"
    show "case obind r c of Ok x \<Rightarrow> I x | _ \<Rightarrow> True"
    proof (cases r)
      case (Ok x)
      then show ?thesis using r assms(3) by (cases "c x") auto
    qed (use r in simp_all)
  qed
  then show ?thesis by simp
qed

section \<open>Refilling\<close>

lemma frame_grow: "grow_buffer env s = Ok t \<Longrightarrow> confined s t"
  by (auto simp: grow_buffer_def with_buf_Ok yy_fatal_error_def Let_def intro!: frame_put_same split: if_splits option.splits)

lemma frame_input: "YY_INPUT p n s = Ok t \<Longrightarrow> confined s t"
  by (auto simp: YY_INPUT_def with_buf_Ok checked_Ok_iff yy_fatal_error_def confined_def put_buf_def split: if_splits option.splits)

lemma frame_read_more:
  assumes "read_more env k s = Ok t"
  shows "confined s t"
proof -
  obtain s1 n s2 b x where r: "owhile (\<lambda>s. num_to_read k s = Ok 0) (grow_buffer env) s = Ok s1" "YY_INPUT k n s1 = Ok s2"
    "current_buffer s2 = Some b" "t = put_buf b (x\<lparr>b_n_chars := yy_n_chars s2\<rparr>) s2"
    using assms by (auto simp: read_more_def obind_Ok_iff with_buf_Ok)
  have "confined s s1" using r(1) frame_refl by (rule owhile_invariant) (blast intro: frame_trans frame_grow)
  then have f: "confined s s2" using frame_input [OF r(2)] frame_trans by blast
  then show ?thesis using frame_put [OF f] frame_current [OF f] r(3,4) by simp
qed

text \<open>A buffer that is restarted on the file it reads.\<close>

definition loaded_from :: "nat \<Rightarrow> yyscan \<Rightarrow> yyscan \<Rightarrow> bool" where
  "loaded_from b s t \<longleftrightarrow>
     yy_buffer_stack t = yy_buffer_stack s \<and> yy_buffer_stack_top t = yy_buffer_stack_top s
     \<and> yy_buffer_stack_max t = yy_buffer_stack_max s \<and> yy_next_buf t = yy_next_buf s \<and> files t = files s
     \<and> (\<forall>c. b \<noteq> c \<longrightarrow> yy_bufs t c = yy_bufs s c)"

lemma loaded_from_trans: "loaded_from b s t \<Longrightarrow> loaded_from b t u \<Longrightarrow> loaded_from b s u"
  by (simp add: loaded_from_def)

lemma loaded_from_current: "loaded_from b s t \<Longrightarrow> current_buffer t = current_buffer s"
  by (simp add: loaded_from_def current_buffer_def cong: option.case_cong)

lemma loaded_from_put: "loaded_from b s (put_buf b x s)"
  by (simp add: loaded_from_def put_buf_def)

lemma load_from: "yy_load_buffer_state s = Ok t \<Longrightarrow> current_buffer s = Some b \<Longrightarrow>
    loaded_from b s t \<and> (\<exists>x. yy_bufs s b = Some x \<and> yyin t = yy_input_file x)"
  by (auto simp: yy_load_buffer_state_def checked_Ok_iff loaded_from_def)

lemma flush_from:
  assumes "yy_flush_buffer (Some b) s = Ok t"
  shows "loaded_from b s t"
proof -
  obtain x cur where cur: "YY_CURRENT_BUFFER (put_buf b x s) = Ok cur"
    and x: "(if Some b = cur then yy_load_buffer_state (put_buf b x s) else Ok (put_buf b x s)) = Ok t"
    using assms unfolding yy_flush_buffer_def
    by (auto simp only: with_buf_simps checked_Ok_iff obind_Ok_iff Let_def if_False option.simps)
  have c: "cur = current_buffer s" using current_Ok [OF cur] by simp
  show ?thesis
  proof (cases "current_buffer s = Some b")
    case True
    then have "loaded_from b (put_buf b x s) t" using x c load_from [of "put_buf b x s" t b] by simp
    then show ?thesis by (rule loaded_from_trans [OF loaded_from_put])
  next
    case False
    then have "t = put_buf b x s" using x c by auto
    then show ?thesis by (simp add: loaded_from_put)
  qed
qed

lemma init_from: "yy_init_buffer env (Some b) g s = Ok t \<Longrightarrow>
    loaded_from b s t \<and> (\<exists>x. yy_bufs t b = Some x \<and> yy_input_file x = g)"
proof -
  assume "yy_init_buffer env (Some b) g s = Ok t"
  then obtain s1 x where s1: "yy_flush_buffer (Some b) s = Ok s1" "t = put_buf b x s1" "yy_input_file x = g"
    by (auto simp: yy_init_buffer_def obind_Ok_iff checked_Ok_iff Let_def)
  then show ?thesis using flush_from [OF s1(1)] loaded_from_put loaded_from_trans by auto
qed

lemma frame_restart:
  assumes "yyrestart env (yyin s) s = Ok t" "current_buffer s = Some b"
  shows "confined s t"
proof -
  obtain s1 where s1: "yy_init_buffer env (Some b) (yyin s) s = Ok s1" "yy_load_buffer_state s1 = Ok t"
    using assms by (auto simp: yyrestart_def obind_Ok_iff)
  have 1: "loaded_from b s s1" "\<exists>x. yy_bufs s1 b = Some x \<and> yy_input_file x = yyin s" using init_from [OF s1(1)] by auto
  have "current_buffer s1 = Some b" using loaded_from_current [OF 1(1)] assms(2) by simp
  from load_from [OF s1(2) this] 1 have "loaded_from b s t" "yyin t = yyin s" using loaded_from_trans by auto
  then show ?thesis using assms(2) by (simp add: confined_def loaded_from_def)
qed

lemma frame_after_read:
  assumes "after_read env k s = Ok (a, t)" "current_buffer s = Some b"
  shows "confined s t"
proof -
  obtain ret s1 where h: "(if yy_n_chars s = 0 then
          (if k = 0 then obind (yyrestart env (yyin s) s) (\<lambda>s1. Ok (EOB_ACT_END_OF_FILE, s1))
           else with_current s (\<lambda>b x.
             Ok (EOB_ACT_LAST_MATCH, put_buf b (x\<lparr>yy_buffer_status := YY_BUFFER_EOF_PENDING\<rparr>) s)))
        else Ok (EOB_ACT_CONTINUE_SCAN, s)) = Ok (ret, s1)" "finish_refill env k (ret, s1) = Ok (a, t)"
    using assms(1) unfolding after_read_finish obind_Ok_iff by auto
  have s1: "confined s s1"
    using h(1) assms(2)
    by (auto simp: obind_Ok_iff checked_Ok_iff intro: frame_put_same frame_restart split: if_splits)
  obtain s2 where s2: "confined s1 s2"
    "obind (poke (int (yy_n_chars (s2\<lparr>yy_n_chars := to_size (int (yy_n_chars s2) + k)\<rparr>))) YY_END_OF_BUFFER_CHAR
        (s2\<lparr>yy_n_chars := to_size (int (yy_n_chars s2) + k)\<rparr>)) (\<lambda>s4.
     obind (poke (int (yy_n_chars s4) + 1) YY_END_OF_BUFFER_CHAR s4) (\<lambda>s5. Ok (ret, s5\<lparr>yytext_ptr := 0\<rparr>))) = Ok (a, t)"
  proof -
    obtain s2 where "with_current s1 (\<lambda>b x.
          if yy_buf_size x < to_size (int (yy_n_chars s1) + k) then
            (case yyrealloc env (yy_ch_buf x) (to_size (int (yy_n_chars s1) + k + int (yy_n_chars s1 div 2))) of
               None \<Rightarrow> yy_fatal_error ''out of dynamic memory in yy_get_next_buffer()'' s1
             | Some buf \<Rightarrow> Ok (put_buf b (x\<lparr>yy_ch_buf := buf\<rparr>) s1))
          else Ok s1) = Ok s2"
      and rest: "obind (poke (int (yy_n_chars (s2\<lparr>yy_n_chars := to_size (int (yy_n_chars s2) + k)\<rparr>))) YY_END_OF_BUFFER_CHAR
        (s2\<lparr>yy_n_chars := to_size (int (yy_n_chars s2) + k)\<rparr>)) (\<lambda>s4.
     obind (poke (int (yy_n_chars s4) + 1) YY_END_OF_BUFFER_CHAR s4) (\<lambda>s5. Ok (ret, s5\<lparr>yytext_ptr := 0\<rparr>))) = Ok (a, t)"
      using h(2) unfolding finish_refill_def prod.case obind_Ok_iff Let_def by blast
    then have "confined s1 s2"
      by (auto simp: with_buf_Ok yy_fatal_error_def intro: frame_put_same split: if_splits option.splits)
    with rest that show thesis by blast
  qed
  then obtain s4 s5 where s5: "poke (int (yy_n_chars (s2\<lparr>yy_n_chars := to_size (int (yy_n_chars s2) + k)\<rparr>))) YY_END_OF_BUFFER_CHAR
        (s2\<lparr>yy_n_chars := to_size (int (yy_n_chars s2) + k)\<rparr>) = Ok s4"
    "poke (int (yy_n_chars s4) + 1) YY_END_OF_BUFFER_CHAR s4 = Ok s5" "t = s5\<lparr>yytext_ptr := 0\<rparr>"
    unfolding obind_Ok_iff by auto
  have "confined s2 s4" using frame_poke [OF s5(1)] by simp
  then have "confined s1 s5" using s2(1) frame_poke [OF s5(2)] frame_trans by blast
  then show ?thesis using s1 s5(3) frame_trans by simp
qed

lemma frame_refill:
  assumes "yy_get_next_buffer env s = Ok (a, t)"
  shows "confined s t"
proof -
  obtain b x where b: "current_buffer s = Some b" "yy_bufs s b = Some x"
    using assms by (auto simp: yy_get_next_buffer_def with_buf_Ok)
  show ?thesis
  proof (cases "yy_fill_buffer x")
    case False
    then show ?thesis using assms b by (auto simp: yy_get_next_buffer_def yy_fatal_error_def split: if_splits)
  next
    case True
    define k where "k = to_int (yy_c_buf_p s - yytext_ptr s) - 1"
    obtain s1 where s1: "confined s s1" "after_read env k s1 = Ok (a, t)"
    proof (cases "yy_buffer_status x = YY_BUFFER_EOF_PENDING")
      case pending: True
      then obtain buf where "after_read env k ((put_buf b (x\<lparr>yy_ch_buf := buf, b_n_chars := 0\<rparr>) s)\<lparr>yy_n_chars := 0\<rparr>) = Ok (a, t)"
        using assms b True
        by (auto simp: yy_get_next_buffer_def yy_fatal_error_def checked_Ok_iff Let_def k_def [symmetric] split: if_split_asm)
      then show thesis by (rule that [rotated]) (simp add: frame_put_same [OF b(1)])
    next
      case False
      then obtain buf s1 where s1: "read_more env k (put_buf b (x\<lparr>yy_ch_buf := buf\<rparr>) s) = Ok s1" "after_read env k s1 = Ok (a, t)"
        using assms b True
        by (auto simp: yy_get_next_buffer_def yy_fatal_error_def checked_Ok_iff obind_Ok_iff Let_def k_def [symmetric] split: if_split_asm)
      show thesis by (rule that [OF frame_trans [OF frame_put_same [OF b(1)] frame_read_more [OF s1(1)]] s1(2)])
    qed
    moreover have "current_buffer s1 = Some b" using frame_current [OF s1(1)] b(1) by simp
    ultimately show ?thesis using frame_after_read [OF s1(2)] frame_trans by blast
  qed
qed

section \<open>One call\<close>

lemma frame_advance: "yy_advance q cp c s = Ok (q', t) \<Longrightarrow> confined s t"
  unfolding yy_advance_def Let_def checked_Ok_iff by (elim exE conjE) (auto split: if_splits)

lemma frame_previous: "previous_state k cp q s = Ok (q', t) \<Longrightarrow> confined s t"
proof (induction k arbitrary: cp q s)
  case (Suc k)
  then obtain q1 s1 c where "yy_advance q cp c s = Ok (q1, s1)" "previous_state k (cp + 1) q1 s1 = Ok (q', t)"
    by (auto simp: obind_Ok_iff checked_Ok_iff)
  then show ?case using Suc.IH frame_advance frame_trans by blast
qed simp

lemma frame_get_previous: "yy_get_previous_state s = Ok (q, t) \<Longrightarrow> confined s t"
  unfolding yy_get_previous_state_def by (rule frame_previous)

lemma frame_NUL: "yy_try_NUL_trans q s = Ok (q', t) \<Longrightarrow> confined s t"
  by (auto simp: yy_try_NUL_trans_def obind_Ok_iff dest: frame_advance)

lemma frame_new_file: "new_file_check s = Ok t \<Longrightarrow> confined s t"
  by (auto simp: new_file_check_def with_buf_Ok intro: frame_put_same split: if_splits)

lemma frame_before_action: "YY_DO_BEFORE_ACTION cp bp s = Ok t \<Longrightarrow> confined s t"
  by (auto simp: YY_DO_BEFORE_ACTION_def obind_Ok_iff dest!: frame_poke)

lemma frame_really_NUL:
  assumes "really_a_NUL k x s = Ok y"
  shows "confined s (l_scan y)"
proof -
  obtain q s2 q' s3 where s: "yy_get_previous_state (s\<lparr>yy_c_buf_p := yytext_ptr s + k\<rparr>) = Ok (q, s2)"
    "yy_try_NUL_trans q s2 = Ok (q', s3)" "confined s3 (l_scan y)"
    using assms by (auto simp: really_a_NUL_def obind_Ok_iff Let_def split: if_splits)
  then show ?thesis using frame_get_previous [OF s(1)] frame_NUL [OF s(2)] s(3) by (auto intro: frame_trans)
qed

lemma frame_end_of_buffer:
  assumes "end_of_buffer env k x s = Ok y"
  shows "confined s (l_scan y)"
proof -
  obtain act s1 where s1: "yy_get_next_buffer env s = Ok (act, s1)"
    using assms by (auto simp: end_of_buffer_def obind_Ok_iff)
  then have "confined s1 (l_scan y)"
    using assms by (cases act) (auto simp: end_of_buffer_def obind_Ok_iff dest: frame_get_previous)
  then show ?thesis using frame_refill [OF s1] frame_trans by blast
qed

lemma frame_action:
  assumes "do_do_action env x = Ok y"
  shows "confined (l_scan x) (l_scan y)"
proof -
  let ?a = "yy_act x"
  consider "?a = 0" | "?a = YY_END_OF_BUFFER" "?a \<noteq> 0" "?a \<notin> {1, 2, 3, 4, 5, 6}" "?a \<noteq> YY_STATE_EOF 0"
    | "?a \<in> {1, 2, 3, 4, 5, 6}" | "?a = YY_STATE_EOF 0" "?a \<noteq> 0" "?a \<notin> {1, 2, 3, 4, 5, 6}"
    | "?a \<noteq> 0" "?a \<notin> {1, 2, 3, 4, 5, 6}" "?a \<noteq> YY_STATE_EOF 0" "?a \<noteq> YY_END_OF_BUFFER"
    by blast
  then show ?thesis
  proof cases
    case 1
    then show ?thesis using assms by (auto simp: do_do_action_def obind_Ok_iff Let_def dest: frame_poke)
  next
    case 2
    then have "do_end_of_buffer env x = Ok y" using assms by (simp add: do_do_action_def)
    then obtain s1 s2 k where "poke (yy_cp x) (yy_hold_char (l_scan x)) (l_scan x) = Ok s1" "new_file_check s1 = Ok s2"
      "really_a_NUL k x s2 = Ok y \<or> end_of_buffer env k x s2 = Ok y"
      by (auto simp: do_end_of_buffer_def obind_Ok_iff Let_def split: if_splits)
    then show ?thesis using frame_poke frame_new_file frame_really_NUL frame_end_of_buffer frame_trans by metis
  next
    case 3
    then show ?thesis
      using assms
      by (elim insertE emptyE)
        (auto simp: do_do_action_def obind_Ok_iff with_buf_Ok checked_Ok_iff lex_return_def Let_def split: if_splits)
  next
    case 4
    then show ?thesis using assms by (auto simp: do_do_action_def lex_return_def)
  next
    case 5
    then show ?thesis using assms by (simp add: do_do_action_def yy_fatal_error_def)
  qed
qed

lemma frame_step:
  assumes "lex_step env x = Ok y"
  shows "confined (l_scan x) (l_scan y)"
proof (cases "l_pc x")
  case Lex_token
  then show ?thesis using assms by (auto simp: lex_step_def do_token_def obind_Ok_iff Let_def dest: frame_poke)
next
  case yy_match
  then show ?thesis
    using assms by (auto simp: lex_step_def do_yy_match_def obind_Ok_iff checked_Ok_iff dest: frame_advance)
next
  case yy_find_action
  then show ?thesis
    using assms by (auto simp: lex_step_def do_yy_find_action_def obind_Ok_iff checked_Ok_iff dest: frame_before_action split: if_splits)
next
  case Lex_returned
  then show ?thesis using assms by (auto simp: lex_step_def)
next
  case do_action
  then show ?thesis using assms frame_action by (simp add: lex_step_def)
qed

lemma frame_yylex:
  assumes "yylex env s v = LexTok c v' m t" "yy_init s"
  shows "confined s t"
proof -
  obtain x where x: "lex_run env (lex_enter v (s\<lparr>yy_log := []\<rparr>)) = Ok x" "t = l_scan x"
    using assms by (auto simp: yylex_def yylex_init_def split: outcome.splits)
  have "confined s (l_scan x)"
    using x(1) unfolding lex_run_def
    by (rule owhile_invariant) (auto simp: lex_enter_def intro: frame_trans frame_step)
  then show ?thesis using x(2) by simp
qed

end
