(* ===== verification/Scanner_Stack.thy ===== *)
theory Scanner_Stack
  imports Scanner_Frame
begin

text \<open>
  Several buffers: a buffer that is left keeps its unread input and delivers it when it is current
  again, whether the buffers are stacked (\<open>yypush_buffer_state\<close>, \<open>yypop_buffer_state\<close>) or exchanged
  (\<open>yy_switch_to_buffer\<close>); a file pushed while another is being read is an included file. Also
  scanning a string, and destroying the scanner.
\<close>

section \<open>Waiting buffers\<close>

text \<open>Buffer \<open>b\<close>, not current, will deliver \<open>R\<close> once it is loaded.\<close>

definition waits :: "nat \<Rightarrow> string \<Rightarrow> yyscan \<Rightarrow> bool" where
  "waits b R s \<longleftrightarrow>
     (\<exists>x C q p. yy_bufs s b = Some x \<and> text_buffer x C \<and> yy_buf_pos x = int p \<and> p \<le> length C
        \<and> R = drop p C @ q \<and> b_n_chars x = length C \<and> (yy_buffer_status x = YY_BUFFER_EOF_PENDING \<longrightarrow> q = [])
        \<and> (if yy_fill_buffer x then \<exists>f. yy_input_file x = Some f \<and> files s f = stream_of q else q = []))"

lemma load_waits:
  assumes "waits b R s" "current_buffer s = Some b" "yy_start s = 1" "yy_init s"
  shows "\<exists>s'. yy_load_buffer_state s = Ok s' \<and> between R s' \<and> loaded_from b s s' \<and> yy_bufs s' = yy_bufs s"
proof -
  obtain x C q p where x: "yy_bufs s b = Some x" "text_buffer x C" "yy_buf_pos x = int p" "p \<le> length C"
    "R = drop p C @ q" "b_n_chars x = length C" "yy_buffer_status x = YY_BUFFER_EOF_PENDING \<longrightarrow> q = []"
    "if yy_fill_buffer x then \<exists>f. yy_input_file x = Some f \<and> files s f = stream_of q else q = []"
    using assms(1) unfolding waits_def by blast
  have p: "p < length (yy_ch_buf x)" using x(2,4) by (auto simp: text_buffer_def)
  let ?s = "s\<lparr>yy_n_chars := length C, yy_c_buf_p := int p, yytext_ptr := int p, yyin := yy_input_file x,
      yy_hold_char := yy_ch_buf x ! p\<rparr>"
  have load: "yy_load_buffer_state s = Ok ?s" using assms(2) x(1,3,6) p by (simp add: yy_load_buffer_state_def)
  have "poke (int p) (yy_ch_buf x ! p) ?s = Ok (put_buf b x ?s)"
    using poke_eq [of ?s b x p "yy_ch_buf x ! p"] assms(2) x(1) p by simp
  moreover have "filled b x C q (put_buf b x ?s)" using assms(2) x by (auto simp: filled_def)
  ultimately have "between R ?s"
    unfolding between_def using assms(3,4) x(4,5)
    by (intro conjI exI [of _ b] exI [of _ x] exI [of _ C] exI [of _ q] exI [of _ p] exI [of _ "put_buf b x ?s"])
      (simp_all add: same_scan_def)
  then show ?thesis using load by (intro exI [of _ ?s]) (simp add: loaded_from_def)
qed

text \<open>Leaving the current buffer.\<close>

lemma flush_out_waits:
  assumes "between R s" "current_buffer s = Some b"
  shows "\<exists>s'. flush_out_old s = Ok s' \<and> waits b R s' \<and> confined s s' \<and> files s' = files s
    \<and> yy_start s' = 1 \<and> yy_init s' \<and> (\<forall>x. yy_bufs s' b = Some x \<longrightarrow> yy_fill_buffer x \<longrightarrow> yy_input_file x = yyin s)"
proof -
  obtain b' x C q p s1 where s1: "poke (yy_c_buf_p s) (yy_hold_char s) s = Ok s1" "filled b' x C q s1" "same_scan s s1"
    "yy_c_buf_p s = int p" "p \<le> length C" "R = drop p C @ q" "yy_start s = 1" "yy_init s"
    using assms(1) unfolding between_def by blast
  have p: "files s1 = files s" "yy_c_buf_p s1 = int p"
    using s1(1,4) by (auto simp: poke_def with_buf_Ok checked_Ok_iff)
  have f: "confined s s1" by (rule frame_poke [OF s1(1)])
  then have b: "b' = b" using s1(2) assms(2) frame_current by (simp add: filled_def)
  let ?x = "x\<lparr>yy_buf_pos := int p, b_n_chars := yy_n_chars s1\<rparr>"
  have cur: "current_buffer s1 = Some b" "yy_bufs s1 b = Some x" using s1(2) b by (simp_all add: filled_def)
  have "flush_out_old s = Ok (put_buf b ?x s1)"
    using s1(1) cur p(2) assms(2) by (simp add: flush_out_old_def)
  moreover have "waits b R (put_buf b ?x s1)"
    unfolding waits_def using s1(2,5,6) p
    by (intro exI [of _ ?x] exI [of _ C] exI [of _ q] exI [of _ p]) (auto simp: filled_def text_buffer_def)
  moreover have "confined s (put_buf b ?x s1)" using frame_put [OF f assms(2)] .
  moreover have "yy_start (put_buf b ?x s1) = 1" "yy_init (put_buf b ?x s1)" using s1(3,7,8) by (simp_all add: same_scan_def)
  moreover have "yy_fill_buffer x \<longrightarrow> yy_input_file x = yyin s"
    using s1(2) f by (auto simp: filled_def confined_def)
  ultimately show ?thesis using p(1) by (auto intro!: exI [of _ "put_buf b ?x s1"])
qed

text \<open>Another buffer at work leaves it waiting.\<close>

definition apart :: "nat \<Rightarrow> yyscan \<Rightarrow> bool" where
  "apart b s \<longleftrightarrow>
     current_buffer s \<noteq> Some b
     \<and> (\<forall>x. yy_bufs s b = Some x \<longrightarrow> yy_fill_buffer x \<longrightarrow> yy_input_file x \<noteq> yyin s)"

lemma waits_frame:
  assumes "waits b R s" "confined s t" "apart b s"
  shows "waits b R t"
proof -
  have "yy_bufs t b = yy_bufs s b" using assms(2,3) by (simp add: confined_def apart_def)
  moreover have "files t f = files s f" if "yy_bufs s b = Some x" "yy_fill_buffer x" "yy_input_file x = Some f" for x f
    using assms(2,3) that by (auto simp: confined_def apart_def)
  ultimately show ?thesis using assms(1) unfolding waits_def by (auto split: if_splits)
qed

lemma waits_cong: "yy_bufs t b = yy_bufs s b \<Longrightarrow> files t = files s \<Longrightarrow> waits b R t = waits b R s"
  by (simp add: waits_def)

text \<open>What \<open>between\<close> depends on.\<close>

lemma between_cong:
  assumes "between R s" "yy_start t = yy_start s" "yy_init t = yy_init s" "current_buffer t = current_buffer s"
    "\<And>b. current_buffer s = Some b \<Longrightarrow> yy_bufs t b = yy_bufs s b" "yy_c_buf_p t = yy_c_buf_p s" "yy_hold_char t = yy_hold_char s" "yy_n_chars t = yy_n_chars s"
    "yyin t = yyin s" "files t = files s"
  shows "between R t"
proof -
  obtain b x C q p s1 where s1: "poke (yy_c_buf_p s) (yy_hold_char s) s = Ok s1" "filled b x C q s1"
    "yy_c_buf_p s = int p" "p \<le> length C" "R = drop p C @ q" "yy_start s = 1" "yy_init s"
    using assms(1) unfolding between_def by blast
  obtain b' y where y: "current_buffer s = Some b'" "yy_bufs s b' = Some y" "p < length (yy_ch_buf y)"
    "s1 = put_buf b' (y\<lparr>yy_ch_buf := (yy_ch_buf y)[p := yy_hold_char s]\<rparr>) s"
    using s1(1,3) by (auto simp: poke_def with_buf_Ok checked_Ok_iff split: if_splits)
  have "current_buffer s1 = Some b" "yy_bufs s1 b = Some x" using s1(2) by (simp_all add: filled_def)
  then have x: "b = b'" "x = y\<lparr>yy_ch_buf := (yy_ch_buf y)[p := yy_hold_char s]\<rparr>" using y(1,4) by simp_all
  have "poke (yy_c_buf_p t) (yy_hold_char t) t = Ok (put_buf b x t)"
    using s1(3) poke_eq [of t b' y p] assms(4-7) y(1-3) unfolding x by simp
  moreover have "filled b x C q (put_buf b x t)" using s1(2) y(1) x(1) assms(4-10) unfolding y(4) filled_def by (simp split: if_split_asm)
  moreover have "same_scan t (put_buf b x t)" by (simp add: same_scan_def)
  ultimately show ?thesis using s1(3-7) assms(2,3,6) unfolding between_def by metis
qed

lemma between_switch: "between R s \<Longrightarrow> between R (s\<lparr>yy_did_buffer_switch_on_eof := d\<rparr>)"
  by (rule between_cong) simp_all

section \<open>Pushing and popping\<close>

text \<open>The stack as an array with \<open>b\<close> at the top, and the heap below \<open>yy_next_buf\<close>.\<close>

definition stack_top :: "nat \<Rightarrow> nat \<Rightarrow> yyscan \<Rightarrow> bool" where
  "stack_top k b s \<longleftrightarrow>
     (\<exists>st. yy_buffer_stack s = Some st \<and> length st = yy_buffer_stack_max s \<and> yy_buffer_stack_top s = k
        \<and> k < length st \<and> length st < 2 ^ 32 \<and> st ! k = Some b)"

lemma stack_top_current: "stack_top k b s \<Longrightarrow> current_buffer s = Some b"
  by (auto simp: stack_top_def current_buffer_def)

lemma ensure_room:
  assumes "stack_top k b s" "\<And>n. alloc_ok env n"
  shows "\<exists>st. yyensure_buffer_stack env s = Ok (s\<lparr>yy_buffer_stack := Some st, yy_buffer_stack_max := length st\<rparr>)
    \<and> Suc k < length st \<and> st ! k = Some b \<and> yy_buffer_stack_top s = k"
proof -
  obtain st where st: "yy_buffer_stack s = Some st" "length st = yy_buffer_stack_max s" "yy_buffer_stack_top s = k"
    "k < length st" "length st < 2 ^ 32" "st ! k = Some b"
    using assms(1) by (auto simp: stack_top_def)
  have m: "to_size (int (yy_buffer_stack_max s) - 1) = length st - 1"
    using st(2,4,5) by (simp add: to_size_id nat_diff_distrib')
  show ?thesis
  proof (cases "length st - 1 \<le> k")
    case True
    then show ?thesis
      using st m assms(2) by (intro exI [of _ "st @ replicate 8 None"])
        (simp add: yyensure_buffer_stack_def Let_def nth_append)
  next
    case False
    then show ?thesis using st m by (intro exI [of _ st]) (simp add: yyensure_buffer_stack_def)
  qed
qed

text \<open>Moving the array of the stack does not concern the current buffer.\<close>

lemma between_stack:
  "between R s \<Longrightarrow> current_buffer (s\<lparr>yy_buffer_stack := st, yy_buffer_stack_max := m\<rparr>) = current_buffer s \<Longrightarrow>
    between R (s\<lparr>yy_buffer_stack := st, yy_buffer_stack_max := m\<rparr>)"
  by (rule between_cong) simp_all

lemma yypush_waits:
  assumes "stack_top k b s" "\<And>n. alloc_ok env n" "between R s" "waits n T s" "n \<noteq> b"
  shows "\<exists>s' st. yypush_buffer_state env (Some n) s = Ok s' \<and> between T s' \<and> waits b R s' \<and> files s' = files s
    \<and> (\<forall>c. c \<noteq> b \<longrightarrow> yy_bufs s' c = yy_bufs s c)
    \<and> yy_buffer_stack s' = Some st \<and> yy_buffer_stack_top s' = Suc k \<and> Suc k < length st \<and> st ! k = Some b \<and> st ! Suc k = Some n
    \<and> (\<forall>x. yy_bufs s n = Some x \<longrightarrow> yyin s' = yy_input_file x)
    \<and> (\<forall>x. yy_bufs s' b = Some x \<longrightarrow> yy_fill_buffer x \<longrightarrow> yy_input_file x = yyin s)"
proof -
  obtain st where st: "yyensure_buffer_stack env s = Ok (s\<lparr>yy_buffer_stack := Some st, yy_buffer_stack_max := length st\<rparr>)"
    "Suc k < length st" "st ! k = Some b" "yy_buffer_stack_top s = k"
    using ensure_room [OF assms(1,2)] by blast
  let ?s1 = "s\<lparr>yy_buffer_stack := Some st, yy_buffer_stack_max := length st\<rparr>"
  have cur1: "current_buffer ?s1 = Some b" using st(2-4) by (simp add: current_buffer_def)
  have "between R ?s1" using assms(3) cur1 stack_top_current [OF assms(1)] by (intro between_stack) simp_all
  then obtain s2 where s2: "flush_out_old ?s1 = Ok s2" "waits b R s2" "confined ?s1 s2" "files s2 = files s"
    "yy_start s2 = 1" "yy_init s2" "\<forall>x. yy_bufs s2 b = Some x \<longrightarrow> yy_fill_buffer x \<longrightarrow> yy_input_file x = yyin s"
    using flush_out_waits [OF _ cur1] by auto
  have f2: "yy_buffer_stack s2 = Some st" "yy_buffer_stack_top s2 = k" "current_buffer s2 = Some b"
    "\<And>c. c \<noteq> b \<Longrightarrow> yy_bufs s2 c = yy_bufs s c"
    using s2(3) st(4) cur1 frame_current [OF s2(3)] by (auto simp: confined_def)
  let ?s4 = "s2\<lparr>yy_buffer_stack_top := Suc k, yy_buffer_stack := Some (st[Suc k := Some n])\<rparr>"
  have set: "set_current (Some n) (s2\<lparr>yy_buffer_stack_top := k + 1\<rparr>) = Ok ?s4"
    using f2(1) st(2) by (simp add: set_current_def del: of_nat_Suc)
  have cur4: "current_buffer ?s4 = Some n" using st(2) by (simp add: current_buffer_def del: of_nat_Suc)
  have "waits n T ?s4" using assms(4) waits_cong [of ?s4 n s T] f2(4) [OF assms(5)] s2(4) by simp
  then obtain s5 where s5: "yy_load_buffer_state ?s4 = Ok s5" "between T s5" "loaded_from n ?s4 s5" "yy_bufs s5 = yy_bufs ?s4"
    using load_waits [OF _ cur4] s2(5,6) by auto
  let ?s = "s5\<lparr>yy_did_buffer_switch_on_eof := True\<rparr>"
  have "yypush_buffer_state env (Some n) s = Ok ?s"
    using st(1) s2(1) f2(2,3) set s5(1) by (simp add: yypush_buffer_state_def Let_def)
  moreover have "between T ?s" using s5(2) between_switch by blast
  moreover have "waits b R ?s"
    using s2(2) waits_cong [of ?s b s2 R] s5(3,4) by (simp add: loaded_from_def)
  moreover have "yyin s5 = yy_input_file x" if "yy_bufs s n = Some x" for x
    using load_from [OF s5(1) cur4] that f2(4) [OF assms(5)] by auto
  ultimately show ?thesis
    using s5(3,4) f2 s2(4,7) st(2,3) by (intro exI [of _ ?s] exI [of _ "st[Suc k := Some n]"]) (simp add: loaded_from_def)
qed

text \<open>Popping deletes the top and goes on with the buffer below.\<close>

lemma yypop_waits:
  assumes "yy_buffer_stack s = Some st" "yy_buffer_stack_top s = Suc k" "Suc k < length st" "st ! k = Some b"
    "st ! Suc k = Some n" "n \<noteq> b" "yy_bufs s n \<noteq> None" "waits b R s" "yy_start s = 1" "yy_init s"
  shows "\<exists>s'. yypop_buffer_state s = Ok s' \<and> between R s' \<and> current_buffer s' = Some b
    \<and> yy_bufs s' = (yy_bufs s)(n := None) \<and> yy_buffer_stack_top s' = k"
proof -
  have cur: "current_buffer s = Some n" using assms(1-3,5) by (simp add: current_buffer_def del: of_nat_Suc)
  let ?st = "st[Suc k := None]"
  let ?s1 = "s\<lparr>yy_buffer_stack := Some ?st, yy_bufs := (yy_bufs s)(n := None)\<rparr>"
  let ?s3 = "?s1\<lparr>yy_buffer_stack_top := k\<rparr>"
  have del: "yy_delete_buffer (Some n) s = Ok ?s1"
    using assms(1-3,7) cur by (auto simp: yy_delete_buffer_def set_current_def yyfree_def simp del: of_nat_Suc)
  have set: "set_current None ?s1 = Ok ?s1" using assms(1-3) by (simp add: set_current_def del: of_nat_Suc)
  have cur3: "current_buffer ?s3 = Some b" using assms(3,4) by (simp add: current_buffer_def)
  have "waits b R ?s3" using assms(6,8) waits_cong [of ?s3 b s R] by simp
  then obtain s4 where s4: "yy_load_buffer_state ?s3 = Ok s4" "between R s4" "loaded_from b ?s3 s4" "yy_bufs s4 = yy_bufs ?s3"
    using load_waits [OF _ cur3] assms(9,10) by auto
  let ?s = "s4\<lparr>yy_did_buffer_switch_on_eof := True\<rparr>"
  have "yypop_buffer_state s = Ok ?s"
    using cur del set cur3 s4(1) assms(2) by (simp add: yypop_buffer_state_def Let_def)
  moreover have "between R ?s" using s4(2) between_switch by blast
  moreover have "current_buffer ?s = Some b" using loaded_from_current [OF s4(3)] cur3 by simp
  ultimately show ?thesis using s4(3,4) by (intro exI [of _ ?s]) (simp add: loaded_from_def)
qed

section \<open>Including a file\<close>

text \<open>A new buffer on a file, while another one is current.\<close>

lemma create_waits:
  assumes "current_buffer s = Some b" "b \<noteq> yy_next_buf s" "\<And>n. alloc_ok env n" "files s g = stream_of T"
  shows "\<exists>x. yy_create_buffer env (Some g) YY_BUF_SIZE s
      = Ok (Some (yy_next_buf s), put_buf (yy_next_buf s) x (s\<lparr>yy_next_buf := yy_next_buf s + 1\<rparr>))
    \<and> waits (yy_next_buf s) T (put_buf (yy_next_buf s) x (s\<lparr>yy_next_buf := yy_next_buf s + 1\<rparr>)) \<and> yy_input_file x = Some g"
proof -
  let ?n = "yy_next_buf s"
  have len: "length (map (fresh_ch env) [0..<YY_BUF_SIZE + 2]) = YY_BUF_SIZE + 2" by simp
  then obtain a c j where j: "map (fresh_ch env) [0..<YY_BUF_SIZE + 2] = a # c # j"
    by (cases "map (fresh_ch env) [0..<YY_BUF_SIZE + 2]" rule: remdups_adj.cases) auto
  have lj: "length j = YY_BUF_SIZE" using len unfolding j by simp
  let ?x = "(fresh_buffer env)\<lparr>yy_buf_size := YY_BUF_SIZE, yy_is_our_buffer := True, yy_ch_buf := CHR 0x00 # CHR 0x00 # j,
     yy_buf_pos := 0, b_n_chars := 0, yy_at_bol := True, yy_buffer_status := YY_BUFFER_NEW,
     yy_input_file := Some g, yy_fill_buffer := True, yy_bs_lineno := 1, yy_bs_column := 0,
     yy_is_interactive := isatty env g\<rparr>"
  let ?s = "put_buf ?n ?x (s\<lparr>yy_next_buf := ?n + 1\<rparr>)"
  have "yy_create_buffer env (Some g) YY_BUF_SIZE s = Ok (Some ?n, ?s)"
    using assms(1-3) j
    by (simp add: yy_create_buffer_def yyalloc_def yy_init_buffer_def yy_flush_buffer_def wr_def Let_def
        YY_END_OF_BUFFER_CHAR_def put_buf_def)
  moreover have "waits ?n T ?s"
    unfolding waits_def using assms(4) lj
    by (intro exI [of _ ?x] exI [of _ "[]"] exI [of _ T] exI [of _ 0])
      (simp add: text_buffer_def YY_BUF_SIZE_def scan_limit_def)
  ultimately show ?thesis by (intro exI [of _ ?x]) simp
qed

text \<open>Calling \<open>yylex\<close> until it returns 0: the codes of the tokens on the way.\<close>

inductive drains :: "lexenv \<Rightarrow> yyscan \<Rightarrow> int list \<Rightarrow> yyscan \<Rightarrow> bool" for env where
  drains_end: "yylex env s v = LexTok YYEOF v' m t \<Longrightarrow> drains env s [] t"
| drains_token: "yylex env s v = LexTok c v' m t \<Longrightarrow> c \<noteq> YYEOF \<Longrightarrow> drains env t cs u \<Longrightarrow> drains env s (c # cs) u"

lemma drain_tokens:
  assumes "between T s" "\<And>n. alloc_ok env n" "length T \<le> scan_limit"
  shows "\<exists>u. drains env s (map tok_code (tokens T)) u \<and> between [] u \<and> confined s u"
  using assms(1,3)
proof (induction T arbitrary: s rule: tokens.induct)
  case (1 T)
  have pend: "pending_input s = T" using between_pending [OF "1.prems"(1)] .
  have inv: "scan_inv env (scan_msgs T) s []"
    using assms(2) "1.prems" pend by (simp add: scan_inv_def awaits_def)
  have init: "yy_init s" using "1.prems"(1) by (simp add: between_def)
  obtain m r where r: "next_tok T = (m, r)" by (cases "next_tok T")
  show ?case
  proof (cases r)
    case None
    then obtain t where t: "yylex env s 0 = LexTok YYEOF 0 m t" "between [] t"
      using yylex_gives [OF inv, of 0] unfolding pend r None by auto
    moreover have "tokens T = []" by (subst tokens.simps) (simp add: r None)
    ultimately show ?thesis using drains_end frame_yylex [OF t(1) init] by (intro exI [of _ t]) simp
  next
    case (Some p)
    obtain k R where p: "p = (k, R)" by (cases p)
    obtain t where t: "yylex env s 0 = LexTok (tok_code k) (tok_lval k 0) m t" "between R t"
      using yylex_gives [OF inv, of 0] unfolding pend r Some p by auto
    have "length R \<le> scan_limit" using next_tok_shorter [of T m k R] r Some p "1.prems"(2) by simp
    then obtain u where u: "drains env t (map tok_code (tokens R)) u" "between [] u" "confined t u"
      using "1.IH" [OF r [symmetric] Some p [symmetric] t(2)] by blast
    have "tokens T = k # tokens R" by (subst tokens.simps) (simp add: r Some p)
    moreover have "tok_code k \<noteq> YYEOF" using tok_code_pos [of k] by auto
    ultimately have "drains env s (map tok_code (tokens T)) u" using drains_token [OF t(1)] u(1) by simp
    then show ?thesis using u(2,3) frame_yylex [OF t(1) init] frame_trans by blast
  qed
qed

text \<open>
  A file is opened in the middle of another: the tokens of the included file come first, to its
  end, and popping its buffer goes on where the including file was left.
\<close>

lemma include_file:
  assumes "stack_top k b s" "b < yy_next_buf s" "\<And>n. alloc_ok env n" "between R s"
    "files s g = stream_of T" "length T \<le> scan_limit" "yyin s \<noteq> Some g"
  shows "\<exists>s1 s2 u v. yy_create_buffer env (Some g) YY_BUF_SIZE s = Ok (Some (yy_next_buf s), s1)
    \<and> yypush_buffer_state env (Some (yy_next_buf s)) s1 = Ok s2
    \<and> drains env s2 (map tok_code (tokens T)) u
    \<and> yypop_buffer_state u = Ok v \<and> between R v \<and> current_buffer v = Some b \<and> yy_bufs v (yy_next_buf s) = None"
proof -
  let ?n = "yy_next_buf s"
  have n: "?n \<noteq> b" "current_buffer s = Some b" using assms(1,2) stack_top_current by auto
  obtain x where x: "yy_create_buffer env (Some g) YY_BUF_SIZE s = Ok (Some ?n, put_buf ?n x (s\<lparr>yy_next_buf := ?n + 1\<rparr>))"
    "waits ?n T (put_buf ?n x (s\<lparr>yy_next_buf := ?n + 1\<rparr>))" "yy_input_file x = Some g"
    using create_waits [OF n(2) n(1) [symmetric] assms(3,5)] by blast
  let ?s1 = "put_buf ?n x (s\<lparr>yy_next_buf := ?n + 1\<rparr>)"
  have "stack_top k b ?s1" using assms(1) by (simp add: stack_top_def put_buf_def)
  moreover have "between R ?s1" using assms(4) by (rule between_cong) (use n in auto)
  ultimately obtain s2 st where s2: "yypush_buffer_state env (Some ?n) ?s1 = Ok s2" "between T s2" "waits b R s2"
    "yy_buffer_stack s2 = Some st" "yy_buffer_stack_top s2 = Suc k" "Suc k < length st" "st ! k = Some b" "st ! Suc k = Some ?n"
    "yyin s2 = Some g" "\<forall>x. yy_bufs s2 b = Some x \<longrightarrow> yy_fill_buffer x \<longrightarrow> yy_input_file x = yyin s"
    using yypush_waits [OF _ assms(3) _ x(2) n(1), of k R] x(3) by auto
  have yy2: "yy_start s2 = 1" "yy_init s2" using s2(2) by (simp_all add: between_def)
  obtain u where u: "drains env s2 (map tok_code (tokens T)) u" "between [] u" "confined s2 u"
    using drain_tokens [OF s2(2) assms(3,6)] by blast
  have cur2: "current_buffer s2 = Some ?n" using s2(4-6,8) by (simp add: current_buffer_def del: of_nat_Suc)
  have "apart b s2" using cur2 n(1) s2(9,10) assms(7) by (auto simp: apart_def)
  then have "waits b R u" using waits_frame [OF s2(3) u(3)] by simp
  moreover have us: "yy_buffer_stack u = Some st" "yy_buffer_stack_top u = Suc k" "yy_start u = 1" "yy_init u"
    using u(2,3) s2(4,5) by (simp_all add: confined_def between_def)
  moreover have "yy_bufs u ?n \<noteq> None"
    using u(2) frame_current [OF u(3)] cur2 by (cases "yy_bufs u ?n") (auto simp: between_def poke_def)
  ultimately obtain v where "yypop_buffer_state u = Ok v" "between R v" "current_buffer v = Some b"
    "yy_bufs v = (yy_bufs u)(?n := None)"
    using yypop_waits [of u st k b ?n R] us s2(6-8) n(1) by blast
  then show ?thesis using x(1) s2(1) u(1) by auto
qed

end
