(* ===== verification/Scanner_Chars.thy ===== *)
theory Scanner_Chars
  imports Scanner_Stack
begin

text \<open>
  Single characters and whole strings: giving back the tail of a token, pushing a character back
  and reading one, scanning a string in memory, and what \<open>yylex_destroy\<close> frees.
\<close>

section \<open>The state between two calls, taken apart\<close>

lemma betweenE:
  assumes "between R s"
  obtains b y C q p where "current_buffer s = Some b" "yy_bufs s b = Some y" "p < length (yy_ch_buf y)"
    "yy_c_buf_p s = int p" "p \<le> length C" "R = drop p C @ q" "yy_start s = 1" "yy_init s"
    "filled b (y\<lparr>yy_ch_buf := (yy_ch_buf y)[p := yy_hold_char s]\<rparr>) C q
       (put_buf b (y\<lparr>yy_ch_buf := (yy_ch_buf y)[p := yy_hold_char s]\<rparr>) s)"
proof -
  obtain b x C q p s1 where s1: "poke (yy_c_buf_p s) (yy_hold_char s) s = Ok s1" "filled b x C q s1"
    "yy_c_buf_p s = int p" "p \<le> length C" "R = drop p C @ q" "yy_start s = 1" "yy_init s"
    using assms unfolding between_def by blast
  obtain b' y where y: "current_buffer s = Some b'" "yy_bufs s b' = Some y" "p < length (yy_ch_buf y)"
    "s1 = put_buf b' (y\<lparr>yy_ch_buf := (yy_ch_buf y)[p := yy_hold_char s]\<rparr>) s"
    using s1(1,3) by (auto simp: poke_def with_buf_Ok checked_Ok_iff split: if_splits)
  have "current_buffer s1 = Some b" "yy_bufs s1 b = Some x" using s1(2) by (simp_all add: filled_def)
  then have "b = b'" "x = y\<lparr>yy_ch_buf := (yy_ch_buf y)[p := yy_hold_char s]\<rparr>" using y(1,4) by simp_all
  then show thesis using that [of b y p C q] y s1 by simp
qed

lemma betweenI:
  assumes "current_buffer s = Some b" "yy_bufs s b = Some y" "yy_c_buf_p s = int p" "p \<le> length C"
    "x = y\<lparr>yy_ch_buf := (yy_ch_buf y)[p := yy_hold_char s]\<rparr>" "filled b x C q (put_buf b x s)" "yy_start s = 1" "yy_init s"
  shows "between (drop p C @ q) s"
proof -
  have "p < length (yy_ch_buf x)" using assms(4,6) by (auto simp: filled_def text_buffer_def)
  then have "poke (int p) (yy_hold_char s) s = Ok (put_buf b x s)"
    using poke_eq [OF assms(1,2)] by (simp add: assms(5))
  then show ?thesis
    unfolding between_def using assms(3,4,6-8)
    by (intro conjI exI [of _ b] exI [of _ x] exI [of _ C] exI [of _ q] exI [of _ p] exI [of _ "put_buf b x s"])
      (simp_all add: same_scan_def)
qed

text \<open>Changing a character of the text keeps the buffer well formed.\<close>

lemma filled_update:
  assumes "filled b x C q s" "k < length C"
    "x' = x\<lparr>yy_ch_buf := (yy_ch_buf x)[k := c]\<rparr>" "s' = s\<lparr>yy_bufs := (yy_bufs s)(b := Some x')\<rparr>"
  shows "filled b x' (C[k := c]) q s'"
proof -
  obtain junk where j: "yy_ch_buf x = C @ CHR 0x00 # CHR 0x00 # junk" using assms(1) by (auto simp: filled_def text_buffer_def)
  then have "(yy_ch_buf x)[k := c] = C[k := c] @ CHR 0x00 # CHR 0x00 # junk" using assms(2) by (simp add: list_update_append)
  moreover have "length (yy_ch_buf x) = length C + 2 + length junk" using j by simp
  ultimately show ?thesis using assms(1) by (auto simp: filled_def text_buffer_def assms(3,4) split: if_split_asm)
qed

section \<open>Giving characters back\<close>

text \<open>\<open>yyless (n)\<close> keeps \<open>n\<close> characters of the token; the next call starts with the others.\<close>

lemma yyless_held:
  assumes "held b x C q p e s" "p \<le> e" "yyleng s = e - p" "n \<le> e - p"
  shows "\<exists>s'. yyless (int n) s = Ok s' \<and> held b x C q p (p + n) s' \<and> same_scan s s' \<and> yyleng s' = n"
proof -
  obtain s1 where s1: "poke (int e) (yy_hold_char s) s = Ok s1" "filled b x C q s1" "same_scan s s1" "yytext_ptr s1 = int p"
    using held_poke [OF assms(1)] by blast
  define m where "m = p + n"
  have m: "m \<le> length C + 1" "yytext_ptr s1 + int n = int m" "int m - int p = int n"
    using assms(1,2,4) s1(4) by (auto simp: held_def m_def)
  let ?x = "x\<lparr>yy_ch_buf := (yy_ch_buf x)[m := CHR 0x00]\<rparr>"
  have x: "current_buffer s1 = Some b" "yy_bufs s1 b = Some x" "m < length (yy_ch_buf x)" "length C \<le> 2 * scan_limit + 2"
    using s1(2) m(1) by (auto simp: filled_def text_buffer_def)
  let ?s = "(put_buf b ?x (s1\<lparr>yy_c_buf_p := int m, yy_hold_char := yy_ch_buf x ! m\<rparr>))\<lparr>yyleng := n\<rparr>"
  have sz: "to_size (int n) = n" using x(4) m(1) by (simp add: to_size_id scan_limit_def m_def)
  have "yytext_ptr s + int (yyleng s) = int e" using held_eq [OF assms(1)] assms(2,3) by simp
  then have "yyless (int n) s = Ok ?s"
    using s1(1) x sz m(2) by (simp add: yyless_def Let_def peek_def poke_eq)
  moreover have "YY_DO_BEFORE_ACTION (int m) (int p) s1 = Ok ?s"
    unfolding before_action_eq [OF s1(2) m(1)] m(3) sz using s1(4) by (simp add: put_buf_def)
  then have "held b x C q p m ?s" using s1(2) m(1) unfolding held_def by (auto simp: same_scan_def)
  moreover have "same_scan s ?s" using s1(3) by (simp add: same_scan_def)
  ultimately show ?thesis unfolding m_def by (intro exI [of _ ?s]) (simp add: m_def)
qed

text \<open>Pushing a character back in front of the input.\<close>

lemma yyunput_between:
  assumes "between R s" "2 \<le> yy_c_buf_p s"
  shows "\<exists>s'. yyunput c bp s = Ok s' \<and> between (c # R) s' \<and> yytext_ptr s' = bp \<and> yy_c_buf_p s' < int (yy_n_chars s')"
proof -
  obtain b y C q p where s: "current_buffer s = Some b" "yy_bufs s b = Some y" "p < length (yy_ch_buf y)"
    "yy_c_buf_p s = int p" "p \<le> length C" "R = drop p C @ q" "yy_start s = 1" "yy_init s"
    "filled b (y\<lparr>yy_ch_buf := (yy_ch_buf y)[p := yy_hold_char s]\<rparr>) C q
       (put_buf b (y\<lparr>yy_ch_buf := (yy_ch_buf y)[p := yy_hold_char s]\<rparr>) s)"
    using betweenE [OF assms(1)] by metis
  let ?x = "y\<lparr>yy_ch_buf := (yy_ch_buf y)[p := yy_hold_char s]\<rparr>" and ?k = "p - 1"
  have k: "int p - 1 = int ?k" "?k < length C" "Suc ?k = p" using assms(2) s(4,5) by auto
  let ?x' = "?x\<lparr>yy_ch_buf := (yy_ch_buf ?x)[?k := c]\<rparr>"
  let ?s = "(put_buf b ?x' (put_buf b ?x s))\<lparr>yytext_ptr := bp, yy_hold_char := c, yy_c_buf_p := int ?k\<rparr>"
  have "poke (int p) (yy_hold_char s) s = Ok (put_buf b ?x s)" using poke_eq [OF s(1-3)] by simp
  moreover have "poke (int ?k) c (put_buf b ?x s) = Ok (put_buf b ?x' (put_buf b ?x s))"
    by (rule poke_eq) (use s(1,3) in simp_all)
  moreover have "\<not> int p < 2" using assms(2) s(4) by simp
  ultimately have "yyunput c bp s = Ok ?s" unfolding yyunput_def s(4) by (simp only: obind.simps put_buf_simps s(4) k(1) if_False prod.case)
  moreover have "between (drop ?k (C[?k := c]) @ q) ?s"
  proof (rule betweenI [where b = b and y = ?x' and x = ?x'])
    show "filled b ?x' (C[?k := c]) q (put_buf b ?x' ?s)"
      using filled_update [OF s(9) k(2) refl refl, of c] by (simp add: filled_def put_buf_def split: if_split_asm)
    show "?x' = ?x'\<lparr>yy_ch_buf := (yy_ch_buf ?x')[?k := yy_hold_char ?s]\<rparr>" by simp
  qed (use s(1,7,8) k(2) in simp_all)
  moreover have "drop ?k (C[?k := c]) = c # drop p C"
    using k by (metis Cons_nth_drop_Suc drop_update_cancel length_list_update lessI nth_list_update_eq)
  moreover have "int ?k < int (yy_n_chars s)" using k(2) s(9) by (simp add: filled_def)
  ultimately show ?thesis using s(6) by (intro exI [of _ ?s]) simp
qed

text \<open>Reading the next character, when the buffer holds it.\<close>

lemma input_between:
  assumes "between (c # R) s" "yy_c_buf_p s < int (yy_n_chars s)"
  shows "\<exists>s'. input env s = Ok (int (of_char c), s') \<and> between R s'"
proof -
  obtain b y C q p where s: "current_buffer s = Some b" "yy_bufs s b = Some y" "p < length (yy_ch_buf y)"
    "yy_c_buf_p s = int p" "p \<le> length C" "c # R = drop p C @ q" "yy_start s = 1" "yy_init s"
    "filled b (y\<lparr>yy_ch_buf := (yy_ch_buf y)[p := yy_hold_char s]\<rparr>) C q
       (put_buf b (y\<lparr>yy_ch_buf := (yy_ch_buf y)[p := yy_hold_char s]\<rparr>) s)"
    using betweenE [OF assms(1)] by metis
  let ?x = "y\<lparr>yy_ch_buf := (yy_ch_buf y)[p := yy_hold_char s]\<rparr>"
  obtain junk where j: "yy_ch_buf ?x = C @ CHR 0x00 # CHR 0x00 # junk" using s(9) by (auto simp: filled_def text_buffer_def)
  have n: "p < length C" "yy_n_chars s = length C" using assms(2) s(4,9) by (auto simp: filled_def)
  then have c: "C ! p = c" "drop (Suc p) C @ q = R" using s(6) by (simp_all add: Cons_nth_drop_Suc [symmetric])
  have hold: "yy_hold_char s = c" 
  proof -
    have "yy_ch_buf ?x ! p = yy_hold_char s" using s(3) by simp
    moreover have "yy_ch_buf ?x ! p = C ! p" unfolding j using n(1) by (simp add: nth_append)
    ultimately show ?thesis using c(1) by simp
  qed
  let ?x' = "?x\<lparr>yy_ch_buf := (yy_ch_buf ?x)[p := CHR 0x00]\<rparr>"
  let ?s = "(put_buf b ?x' s)\<lparr>yy_c_buf_p := int (Suc p), yy_hold_char := yy_ch_buf y ! Suc p\<rparr>"
  have len: "Suc p < length (yy_ch_buf y)" using arg_cong [OF j, of length] n(1) by simp
  have poke: "poke (int p) (yy_hold_char s) s = Ok (put_buf b ?x s)" "poke (int p) h (put_buf b ?x s) = Ok (put_buf b (?x\<lparr>yy_ch_buf := (yy_ch_buf ?x)[p := h]\<rparr>) (put_buf b ?x s))" for h
    by (rule poke_eq; use s(1-3) in simp)+
  have peek: "peek (int p) (put_buf b ?x s) = Ok c" "peek (int p + 1) (put_buf b ?x' (put_buf b ?x s)) = Ok (yy_ch_buf y ! Suc p)"
    using s(1,3) len hold by (simp_all add: peek_def rd_def nat_add_distrib)
  have same: "put_buf b (?x\<lparr>yy_ch_buf := (yy_ch_buf ?x)[p := CHR 0x00]\<rparr>) (put_buf b ?x s) = put_buf b ?x' s" by (simp add: put_buf_def)
  have step: "input_char (put_buf b ?x s) = Ok (int (of_char c), ?s)"
    unfolding input_char_def using s(4) peek poke(2) [of "CHR 0x00"] by (simp add: YY_SC_TO_UI_def put_buf_def)
  have "input env s = Ok (int (of_char c), ?s)"
  proof (cases "c = CHR 0x00")
    case False
    then show ?thesis using poke(1) s(4) hold step by (simp add: input_def YY_END_OF_BUFFER_CHAR_def)
  next
    case True
    have "yy_ch_buf ?x = (yy_ch_buf ?x)[p := CHR 0x00]" using hold True by simp
    then have "poke (int p) (CHR 0x00) (put_buf b ?x s) = Ok (put_buf b ?x s)" using poke(2) [of "CHR 0x00"] by (simp add: put_buf_def)
    then show ?thesis using poke(1) s(4) hold True step assms(2) by (simp add: input_def YY_END_OF_BUFFER_CHAR_def)
  qed
  moreover have "between (drop (Suc p) (C[p := CHR 0x00]) @ q) ?s"
  proof (rule betweenI [where b = b and y = ?x' and x = ?x'])
    show "filled b ?x' (C[p := CHR 0x00]) q (put_buf b ?x' ?s)"
      using filled_update [OF s(9) n(1) refl refl, of "CHR 0x00"] by (simp add: filled_def put_buf_def split: if_split_asm)
    show "?x' = ?x'\<lparr>yy_ch_buf := (yy_ch_buf ?x')[Suc p := yy_hold_char ?s]\<rparr>" by (simp add: list_update_swap)
  qed (use s(1,7,8) n(1) in simp_all)
  moreover have "drop (Suc p) (C[p := CHR 0x00]) @ q = R" using c(2) by simp
  ultimately show ?thesis by (intro exI [of _ ?s]) simp
qed

section \<open>Pushing back in a full buffer\<close>

text \<open>
  The loop of \<open>yyunput\<close> that makes room: the first \<open>m\<close> characters move up to end at \<open>d\<close>, whether
  or not the two places overlap.
\<close>

lemma move_up_eq:
  "m \<le> d \<Longrightarrow> d \<le> length buf \<Longrightarrow> move_up m (int d) buf = Some (take (d - m) buf @ take m buf @ drop d buf)"
proof (induction m arbitrary: d buf)
  case (Suc k)
  then obtain e where d: "d = Suc e" by (cases d) auto
  let ?buf = "buf[e := buf ! k]"
  have e: "k \<le> e" "e < length buf" using Suc.prems d by auto
  then have "move_up (Suc k) (int d) buf = move_up k (int e) ?buf" using d by (simp add: rd_def wr_def)
  also have "\<dots> = Some (take (e - k) ?buf @ take k ?buf @ drop e ?buf)" using e by (intro Suc.IH) auto
  also have "take (e - k) ?buf @ take k ?buf @ drop e ?buf = take (d - Suc k) buf @ take (Suc k) buf @ drop d buf"
    using e by (simp add: d take_Suc_conv_app_nth Cons_nth_drop_Suc [symmetric])
  finally show ?case .
qed simp

text \<open>How far the next character is from where \<open>unput\<close> can still store one.\<close>

definition push_room :: "yyscan \<Rightarrow> int" where
  "push_room s =
     yy_c_buf_p s
     + (case current_buffer s of
          None \<Rightarrow> 0
        | Some b \<Rightarrow> (case yy_bufs s b of None \<Rightarrow> 0 | Some x \<Rightarrow> int (yy_buf_size x) - int (yy_n_chars s)))"

text \<open>The next character is in a buffer that has its two end marks.\<close>

definition has_char :: "char \<Rightarrow> yyscan \<Rightarrow> bool" where
  "has_char c s \<longleftrightarrow>
     (\<exists>b x p. current_buffer s = Some b \<and> yy_bufs s b = Some x \<and> yy_c_buf_p s = int p \<and> p < yy_n_chars s
        \<and> yy_n_chars s + 2 \<le> length (yy_ch_buf x) \<and> yy_hold_char s = c)"

lemma drop_take_update:
  assumes "p < n" "n \<le> length xs"
  shows "drop p (take n (xs[p := c])) = c # drop (Suc p) (take n xs)"
  using assms by (simp add: drop_take Cons_nth_drop_Suc [symmetric] Suc_diff_Suc [symmetric])

lemma pending_eq:
  "current_buffer s = Some b \<Longrightarrow> yy_bufs s b = Some x \<Longrightarrow> yy_c_buf_p s = int p \<Longrightarrow>
     pending_input s = drop p (take (yy_n_chars s) ((yy_ch_buf x)[p := yy_hold_char s]))
       @ (if yy_fill_buffer x then case yyin s of None \<Rightarrow> [] | Some f \<Rightarrow> stream_chars (files s f) else [])"
  by (simp add: pending_input_def)

lemma input_pending:
  assumes "has_char c s"
  shows "\<exists>s'. input env s = Ok (YY_SC_TO_UI c, s') \<and> pending_input s = c # pending_input s'"
proof -
  obtain b x p where s: "current_buffer s = Some b" "yy_bufs s b = Some x" "yy_c_buf_p s = int p" "p < yy_n_chars s"
    "yy_n_chars s + 2 \<le> length (yy_ch_buf x)" "yy_hold_char s = c"
    using assms by (auto simp: has_char_def)
  let ?x = "x\<lparr>yy_ch_buf := (yy_ch_buf x)[p := CHR 0x00]\<rparr>"
  let ?s = "(put_buf b ?x s)\<lparr>yy_c_buf_p := int (Suc p), yy_hold_char := yy_ch_buf x ! Suc p\<rparr>"
  have len: "p < length (yy_ch_buf x)" "Suc p < length (yy_ch_buf x)" using s(4,5) by auto
  have "input env s = Ok (YY_SC_TO_UI c, ?s)"
    using s len
    by (auto simp: input_def input_char_def poke_def peek_def rd_def wr_def put_buf_def YY_END_OF_BUFFER_CHAR_def nat_add_distrib)
  moreover have "pending_input s = c # pending_input ?s"
  proof -
    let ?b = "yy_ch_buf x"
    have "drop p (take (yy_n_chars s) (?b[p := c])) = c # drop (Suc p) (take (yy_n_chars s) ?b)"
      using s(4,5) by (intro drop_take_update) auto
    moreover have "drop (Suc p) (take (yy_n_chars s) (?b[p := CHR 0x00, Suc p := ?b ! Suc p])) = drop (Suc p) (take (yy_n_chars s) ?b)"
      by (simp add: drop_take list_update_swap [of p "Suc p"])
    ultimately show ?thesis
      using s pending_eq [OF s(1-3)] pending_eq [of ?s b ?x "Suc p"] by (simp cong: option.case_cong)
  qed
  ultimately show ?thesis by blast
qed

lemma yyunput_pending:
  assumes s: "current_buffer s = Some b" "yy_bufs s b = Some x" "yy_c_buf_p s = int p" "p \<le> yy_n_chars s"
    "length (yy_ch_buf x) = yy_buf_size x + 2" "yy_n_chars s \<le> yy_buf_size x" "yy_buf_size x \<le> 2 * scan_limit + 2"
  shows "if push_room s < 2 then yyunput c bp s = Fatal (yy_log s @ ''flex scanner push-back overflow\<newline>'')
         else \<exists>s'. yyunput c bp s = Ok s' \<and> has_char c s' \<and> pending_input s' = c # pending_input s"
proof -
  define n z where "n = yy_n_chars s" and "z = yy_buf_size x"
  let ?buf = "(yy_ch_buf x)[p := yy_hold_char s]"
  let ?x = "x\<lparr>yy_ch_buf := ?buf\<rparr>" and ?s1 = "put_buf b (x\<lparr>yy_ch_buf := ?buf\<rparr>) s"
  have nz: "p \<le> n" "n \<le> z" "length ?buf = z + 2" "length (yy_ch_buf x) = z + 2" using s by (simp_all add: n_def z_def)
  have room: "push_room s = int (p + (z - n))" using s(1-3) nz by (simp add: push_room_def n_def z_def of_nat_diff)
  have first: "poke (int p) (yy_hold_char s) s = Ok ?s1" using nz by (intro poke_eq s(1,2)) simp
  have cur: "current_buffer ?s1 = Some b" "yy_bufs ?s1 b = Some ?x" using s(1) by simp_all
  show ?thesis
  proof (cases "p < 2")
    case False
    then obtain k where p: "p = Suc k" by (cases p) auto
    have k: "int p - 1 = int k" "k < n" using p nz(1) by auto
    let ?x2 = "x\<lparr>yy_ch_buf := ?buf[k := c]\<rparr>"
    let ?s2 = "(put_buf b ?x2 s)\<lparr>yytext_ptr := bp, yy_hold_char := c, yy_c_buf_p := int k\<rparr>"
    have "poke (int k) c ?s1 = Ok (put_buf b ?x2 s)"
      using poke_eq [OF cur, of k c] k(2) nz by (simp add: put_buf_def)
    moreover have "\<not> int p < 2" using False by simp
    ultimately have "yyunput c bp s = Ok ?s2"
      using first unfolding yyunput_def s(3) by (simp only: obind.simps put_buf_simps s(3) k(1) if_False prod.case)
    moreover have "has_char c ?s2"
      unfolding has_char_def using s(1) nz k(2) by (intro exI [of _ b] exI [of _ ?x2] exI [of _ k]) (simp add: n_def)
    moreover have "pending_input ?s2 = c # pending_input s"
      using pending_eq [OF s(1-3)] pending_eq [of ?s2 b ?x2 k] s(1) k(2) nz drop_take_update [of k n ?buf c] p
      by (simp add: n_def cong: option.case_cong)
    moreover have "\<not> push_room s < 2" using room False by simp
    ultimately show ?thesis by auto
  next
    case True
    let ?m = "p + (z - n)"
    have sh: "int (z + 2) - int (n + 2) = int (z - n)" "to_int (int (z - n)) = int (z - n)"
      using nz s(7) by (simp_all add: of_nat_diff to_int_id scan_limit_def z_def)
    let ?up = "take (z - n) ?buf @ take (n + 2) ?buf"
    have up: "move_up (n + 2) (int (z + 2)) ?buf = Some ?up"
      using move_up_eq [of "n + 2" "z + 2" ?buf] nz by simp
    let ?x2 = "x\<lparr>yy_ch_buf := ?up, b_n_chars := z\<rparr>"
    let ?s2 = "(put_buf b ?x2 s)\<lparr>yy_n_chars := z\<rparr>"
    have s2: "(put_buf b (?x\<lparr>yy_ch_buf := ?up, b_n_chars := z\<rparr>) ?s1)\<lparr>yy_n_chars := z\<rparr> = ?s2" by (simp add: put_buf_def)
    have dest: "int (yy_buf_size ?x) + 2 = int (z + 2)" by (simp add: z_def)
    have step: "yyunput c bp s = obind (if int ?m < 2 then yy_fatal_error ''flex scanner push-back overflow'' ?s2
         else Ok (int ?m, bp + int (z - n), ?s2))
       (\<lambda>(cp, bp, s3). obind (poke (cp - 1) c s3) (\<lambda>s4. Ok (s4\<lparr>yytext_ptr := bp, yy_hold_char := c, yy_c_buf_p := cp - 1\<rparr>)))"
    proof -
      have "yy_n_chars ?s1 + 2 = n + 2" "yy_c_buf_p ?s1 = int p" "int p < 2" "int p + int (z - n) = int ?m" "yy_buf_size ?x = z"
        using s(3) True by (simp_all add: n_def z_def)
      moreover have "checked (move_up (n + 2) (int (z + 2)) (yy_ch_buf ?x)) k = k ?up" for k :: "string \<Rightarrow> (int \<times> int \<times> yyscan) outcome"
        using up by simp
      moreover have "int z + 2 = int (z + 2)" by simp
      ultimately show ?thesis
        unfolding yyunput_def s(3) first obind.simps Let_def
        by (simp only: with_buf_simps cur checked_simps sh s2 if_True)
    qed
    show ?thesis
    proof (cases "?m < 2")
      case True
      then show ?thesis using step room by (simp add: yy_fatal_error_def put_buf_def)
    next
      case False
      then obtain k where m: "?m = Suc k" by (cases ?m) auto
      have k: "int ?m - 1 = int k" "k < z" using m nz by auto
      have len: "length ?up = z + 2" using nz by simp
      let ?x3 = "?x2\<lparr>yy_ch_buf := (yy_ch_buf ?x2)[k := c]\<rparr>"
      let ?s3 = "(put_buf b ?x3 ?s2)\<lparr>yytext_ptr := bp + int (z - n), yy_hold_char := c, yy_c_buf_p := int k\<rparr>"
      have "poke (int k) c ?s2 = Ok (put_buf b ?x3 ?s2)"
        by (rule poke_eq) (use s(1) len k(2) in simp_all)
      moreover have "\<not> int ?m < 2" using False by simp
      ultimately have "yyunput c bp s = Ok ?s3"
        unfolding step by (simp only: if_False obind.simps prod.case k(1))
      moreover have "has_char c ?s3"
        unfolding has_char_def using s(1) len k(2) by (intro exI [of _ b] exI [of _ ?x3] exI [of _ k]) simp
      moreover have "pending_input ?s3 = c # pending_input s"
      proof -
        have "drop k (take z (?up[k := c])) = c # drop ?m (take z ?up)" using drop_take_update [of k z ?up c] len k(2) m by simp
        also have "take z ?up = take (z - n) ?buf @ take n ?buf" using nz by (simp add: min.absorb1 min.absorb2)
        also have "drop ?m (take (z - n) ?buf @ take n ?buf) = drop p (take n ?buf)" using nz by (simp add: min.absorb1 min.absorb2)
        finally show ?thesis
          using pending_eq [OF s(1-3)] pending_eq [of ?s3 b ?x3 k] s(1) by (simp add: n_def cong: option.case_cong)
      qed
      ultimately show ?thesis using room False by auto
    qed
  qed
qed

text \<open>Between two calls these lemmas apply.\<close>

lemma between_unput:
  assumes "between R s"
  shows "if push_room s < 2 then yyunput c bp s = Fatal (yy_log s @ ''flex scanner push-back overflow\<newline>'')
         else \<exists>s'. yyunput c bp s = Ok s' \<and> has_char c s' \<and> pending_input s' = c # R"
proof -
  obtain b y C q p where s: "current_buffer s = Some b" "yy_bufs s b = Some y" "yy_c_buf_p s = int p" "p \<le> length C"
    "filled b (y\<lparr>yy_ch_buf := (yy_ch_buf y)[p := yy_hold_char s]\<rparr>) C q
       (put_buf b (y\<lparr>yy_ch_buf := (yy_ch_buf y)[p := yy_hold_char s]\<rparr>) s)"
    using betweenE [OF assms] by metis
  have "p \<le> yy_n_chars s" "length (yy_ch_buf y) = yy_buf_size y + 2" "yy_n_chars s \<le> yy_buf_size y"
    "yy_buf_size y \<le> 2 * scan_limit + 2"
    using s(4,5) by (auto simp: filled_def text_buffer_def)
  from yyunput_pending [OF s(1-3) this, of c bp] show ?thesis unfolding between_pending [OF assms] .
qed

lemma between_push_room: "between R s \<Longrightarrow> yy_c_buf_p s \<le> push_room s"
  by (rule betweenE [of R s]) (auto simp: push_room_def filled_def text_buffer_def)

section \<open>Scanning a string\<close>

text \<open>
  \<open>yy_scan_bytes\<close> before the first call makes a buffer of the bytes and their two end marks, and the
  scanner then delivers these bytes and nothing of its standard input.
\<close>

lemma scan_bytes_loaded:
  assumes "unread inp s" "\<And>n. alloc_ok env n" "n \<le> length bytes" "n \<le> 2 * scan_limit + 2"
  shows "\<exists>b s'. yy_scan_bytes env bytes n s = Ok (Some b, s') \<and> loaded (take n bytes) s'"
proof -
  let ?base = "take n bytes @ [CHR 0x00, CHR 0x00]"
  have n: "length (take n bytes) = n" using assms(3) by simp
  have rd: "?base ! n = CHR 0x00" "?base ! nat (1 + int n) = CHR 0x00"
    using n by (simp_all add: nth_append nat_add_distrib)
  show ?thesis
    using assms(1,2,3,4) rd n
    by (simp add: yy_scan_bytes_def yyalloc_def yy_scan_buffer_def YY_END_OF_BUFFER_CHAR_def Let_def rd_def
        yy_switch_to_buffer_def yyensure_buffer_stack_def flush_out_old_def set_current_def wr_def
        yy_load_buffer_state_def current_buffer_def YY_CURRENT_BUFFER_def unread_def loaded_def text_buffer_def put_buf_def
        cong: option.case_cong)
qed

lemma scan_string_loaded:
  assumes "unread inp s" "\<And>n. alloc_ok env n" "length str \<le> 2 * scan_limit + 2"
  shows "\<exists>b s'. yy_scan_string env str s = Ok (Some b, s') \<and> loaded (takeWhile (\<lambda>c. c \<noteq> CHR 0x00) str) s'"
proof -
  let ?T = "takeWhile (\<lambda>c. c \<noteq> CHR 0x00) str"
  have "take (length ?T) str = ?T" using takeWhile_eq_take [of "\<lambda>c. c \<noteq> CHR 0x00" str] by simp
  then show ?thesis
    using scan_bytes_loaded [OF assms(1,2), of "length ?T" str] assms(3) length_takeWhile_le [of _ str] le_trans
    by (fastforce simp: yy_scan_string_def YY_END_OF_BUFFER_CHAR_def)
qed

section \<open>Destroying the scanner\<close>

text \<open>
  \<open>yylex_destroy\<close> deletes the current buffer and stores \<open>NULL\<close> over it; \<open>yypop_buffer_state\<close> then
  finds no current buffer and returns, so the loop ends with the buffers below still allocated.
\<close>

lemma yylex_destroy_current:
  assumes "yy_buffer_stack s = Some st" "yy_buffer_stack_top s = k" "k < length st" "st ! k = Some b" "yy_bufs s b \<noteq> None"
  shows "yylex_destroy s = Ok (yy_init_globals (s\<lparr>yy_bufs := (yy_bufs s)(b := None)\<rparr>))"
proof -
  have cur: "current_buffer s = Some b" using assms(1-4) by (simp add: current_buffer_def)
  let ?s1 = "s\<lparr>yy_buffer_stack := Some (st[k := None]), yy_bufs := (yy_bufs s)(b := None)\<rparr>"
  have "yy_delete_buffer (Some b) s = Ok ?s1"
    using assms cur by (auto simp: yy_delete_buffer_def set_current_def yyfree_def)
  moreover have "set_current None ?s1 = Ok ?s1" using assms(1-3) by (simp add: set_current_def)
  moreover have "YY_CURRENT_BUFFER ?s1 = Ok None" using assms(1-3) by (simp add: YY_CURRENT_BUFFER_def)
  ultimately show ?thesis
    using cur by (simp add: yylex_destroy_def owhile_unfold yypop_buffer_state_def yy_init_globals_def)
qed

text \<open>A scanner that has been destroyed starts again on standard input.\<close>

lemma destroyed_unread:
  assumes "yy_buffer_stack s = Some st" "yy_buffer_stack_top s = k" "k < length st" "st ! k = Some b" "yy_bufs s b \<noteq> None"
    "files s 0 = stream_of R"
  shows "\<exists>t. yylex_destroy s = Ok t \<and> unread R t"
  using yylex_destroy_current [OF assms(1-5)] assms(6) by (simp add: unread_def yy_init_globals_def)

end
