(* ===== verification/Parser_Types.thy ===== *)
theory Parser_Types
  imports Parser_Machine
begin

text \<open>
  The types of the parser's state, for any scanner: the two stacks are arrays of \<open>yystacksize\<close>
  cells, the states on the stack are a path of the automaton from state 0, the values below the
  states a variable leads to are indices of \<open>sym\<close>. Every block of \<open>yyparse\<close> keeps them, and none
  leaves its arrays, whatever codes the scanner delivers.
\<close>

section \<open>The automaton\<close>

text \<open>The states that follow a state on the stack.\<close>

definition edge :: "int \<Rightarrow> int \<Rightarrow> bool" where
  "edge p q \<longleftrightarrow>
     list_ex (\<lambda>t. grammar_action p t = Shift q) [0..12]
     \<or> p = 0 \<and> q = 1 \<or> p = 1 \<and> q = 6 \<or> operand_state p \<and> q = expr_goto p"

definition state :: "int \<Rightarrow> bool" where
  "state q \<longleftrightarrow> 0 \<le> q \<and> q \<le> 21 \<and> q \<noteq> 2"

definition states :: "int list" where "states = filter state [0..21]"

lemma set_states: "set states = {q. state q}"
  by (auto simp: states_def state_def)

definition succs :: "int \<Rightarrow> int list" where "succs p = filter (edge p) states"
definition preds :: "int \<Rightarrow> int list" where "preds q = filter (\<lambda>p. edge p q) states"

text \<open>The states \<open>k\<close> places below \<open>q\<close>.\<close>

fun below :: "nat \<Rightarrow> int \<Rightarrow> int list" where
  "below 0 q = [q]"
| "below (Suc k) q = concat (map (below k) (preds q))"

definition rule_of_state :: "int \<Rightarrow> int" where
  "rule_of_state q = yydefact ! nat q"

text \<open>A variable's value is below these states.\<close>

definition var_state :: "int \<Rightarrow> bool" where
  "var_state q \<longleftrightarrow> q = 4 \<or> q = 9"

text \<open>A reduction uncovers a state with a successor for the rule's left-hand side.\<close>

definition reduction_ok :: "int \<Rightarrow> bool" where
  "reduction_ok q \<longleftrightarrow>
     (let r = rule_of_state q in
      r = 0 \<or> 2 \<le> r \<and> r \<le> 12 \<and>
        list_all (\<lambda>e. case goto_state (yyr1 ! nat r) e of
                        None \<Rightarrow> False | Some g \<Rightarrow> edge e g \<and> state g \<and> \<not> var_state g)
          (below (nat (yyr2 ! nat r)) q))"

lemma reductions: "list_all reduction_ok states"
  by code_simp

text \<open>The bottom of the stack: a rule is never longer than what is above state 0.\<close>

lemma bottoms:
  "rule_of_state 0 = 3" "list_all (\<lambda>q. rule_of_state q = 0) (succs 0)"
  "list_all (\<lambda>q. rule_of_state q = 0 \<or> yyr2 ! nat (rule_of_state q) \<le> 1) (concat (map succs (succs 0)))"
  "list_all (\<lambda>r. 0 \<le> r \<and> r \<le> 3) yyr2" "yyr2 ! 3 = 0" "length yyr2 = 13"
  by code_simp+

text \<open>Assigning pops a variable's value two below the top, a variable's value is its own.\<close>

lemma var_rules:
  "list_all (\<lambda>q. rule_of_state q = 5 \<longrightarrow> list_all var_state (below 2 q)) states"
  "list_all (\<lambda>q. rule_of_state q = 7 \<longrightarrow> var_state q) states"
  by code_simp+

lemma shifts:
  "list_all (\<lambda>q. list_all (\<lambda>t. case grammar_action q t of
      Shift n \<Rightarrow> state n \<and> edge q n \<and> (var_state n \<longrightarrow> t = 4) | _ \<Rightarrow> True) [0..12]) states"
  by code_simp

lemma tables_total:
  "list_all (\<lambda>q. rd yypact q \<noteq> None \<and> rd yydefact q = Some (rule_of_state q) \<and> rd yystos q \<noteq> None
      \<and> error_shift (yypact ! nat q) = None) states"
  by code_simp

lemma token_table:
  "length yytranslate = 260" "list_all (\<lambda>t. 0 \<le> t \<and> t \<le> 12) yytranslate"
  "list_all (\<lambda>c. yytranslate ! nat c = 4 \<longrightarrow> c = VARIABLE) [0..259]"
  by code_simp+

section \<open>Paths\<close>

definition path :: "int list \<Rightarrow> bool" where
  "path S \<longleftrightarrow> S \<noteq> [] \<and> hd S = 0 \<and> list_all state S \<and> successively edge S"

lemma path_start: "path [0]"
  by (simp add: path_def state_def)

lemma path_push: "path S \<Longrightarrow> edge (last S) q \<Longrightarrow> state q \<Longrightarrow> path (S @ [q])"
  by (auto simp: path_def successively_append_iff)

lemma path_take: "path S \<Longrightarrow> 0 < k \<Longrightarrow> path (take k S)"
  unfolding path_def
  by (metis (no_types, lifting) append_take_drop_id hd_append2 list_all_append successively_append_iff take_eq_Nil2 nat_neq_iff)

lemma path_state: "path S \<Longrightarrow> q \<in> set S \<Longrightarrow> state q"
  by (simp add: path_def list_all_iff)

lemma path_last: "path S \<Longrightarrow> state (last S)"
  using path_state last_in_set path_def by blast

lemma path_below: "path S \<Longrightarrow> k < length S \<Longrightarrow> S ! (length S - Suc k) \<in> set (below k (last S))"
proof (induction k arbitrary: S)
  case 0
  then show ?case by (simp add: last_conv_nth path_def)
next
  case (Suc k)
  obtain T q where S: "S = T @ [q]" using Suc.prems(1) by (metis append_butlast_last_id path_def)
  have T: "T \<noteq> []" using S Suc.prems(2) by auto
  then have "path T" "edge (last T) q" using Suc.prems(1) S by (auto simp: path_def successively_append_iff)
  then have "last T \<in> set (preds q)" using path_last by (simp add: preds_def set_states)
  moreover have "T ! (length T - Suc k) \<in> set (below k (last T))" using Suc.IH [OF \<open>path T\<close>] Suc.prems(2) S by simp
  moreover have "S ! (length S - Suc (Suc k)) = T ! (length T - Suc k)" using S T by (simp add: nth_append)
  ultimately show ?case using S by auto
qed

text \<open>A rule is reduced with its whole right-hand side on the stack.\<close>

lemma path_fits:
  assumes "path S" "rule_of_state (last S) \<noteq> 0" "r = rule_of_state (last S)"
  shows "nat (yyr2 ! nat r) < length S" "2 \<le> r" "r \<le> 12"
proof -
  have "reduction_ok (last S)" using reductions path_last [OF assms(1)] by (auto simp: list_all_iff set_states)
  then show r: "2 \<le> r" "r \<le> 12" using assms by (auto simp: reduction_ok_def Let_def)
  then have r3: "yyr2 ! nat r \<le> 3" using bottoms(4,6) by (auto simp: list_all_length)
  show "nat (yyr2 ! nat r) < length S"
  proof (rule ccontr)
    assume "\<not> nat (yyr2 ! nat r) < length S"
    then have le: "length S \<le> nat (yyr2 ! nat r)" by simp
    then have "length S \<le> 3" using r3 by simp
    moreover have "hd S = 0" "S \<noteq> []" "successively edge S" "list_all state S" using assms(1) by (auto simp: path_def)
    ultimately consider "S = [0]" | p where "S = [0, p]" "p \<in> set (succs 0)"
      | p q where "S = [0, p, q]" "p \<in> set (succs 0)" "q \<in> set (succs p)"
      by (cases S rule: remdups_adj.cases; cases "tl (tl S)") (auto simp: succs_def set_states)
    then show False
    proof cases
      case 1
      then show ?thesis using le bottoms(1,5) assms(3) by simp
    next
      case 2
      then show ?thesis using bottoms(2) assms by (auto simp: list_all_iff)
    next
      case 3
      then have "yyr2 ! nat r \<le> 1" using bottoms(3) assms by (auto simp: list_all_iff)
      then show ?thesis using le 3 by simp
    qed
  qed
qed

lemma path_goto:
  assumes "path S" "rule_of_state (last S) \<noteq> 0" "r = rule_of_state (last S)" "k = nat (yyr2 ! nat r)" "e = S ! (length S - Suc k)"
  shows "\<exists>g. goto_state (yyr1 ! nat r) e = Some g \<and> edge e g \<and> state g \<and> \<not> var_state g"
proof -
  have "reduction_ok (last S)" using reductions path_last [OF assms(1)] by (auto simp: list_all_iff set_states)
  moreover have "e \<in> set (below k (last S))"
    using path_below [OF assms(1)] path_fits(1) [OF assms(1-3)] assms(4,5) by simp
  ultimately show ?thesis
    using assms(2-4) by (auto simp: reduction_ok_def Let_def list_all_iff split: option.splits)
qed

section \<open>The types\<close>

definition var_value :: "cint \<Rightarrow> bool" where
  "var_value v \<longleftrightarrow> 0 \<le> sint v \<and> sint v < 26"

text \<open>The states on the stack, the one about to be pushed included.\<close>

definition yystack :: "'l yyparser \<Rightarrow> int list" where
  "yystack s =
     (if pc s = yynewstate then take (nat (yyssp s + 1)) (yyss s) @ [yystate s]
      else if pc s = yysetstate then take (nat (yyssp s)) (yyss s) @ [yystate s]
      else take (nat (yyssp s + 1)) (yyss s))"

definition stack_typed :: "'l yyparser \<Rightarrow> bool" where
  "stack_typed s \<longleftrightarrow>
     path (yystack s) \<and> last (yystack s) = yystate s \<and> int (length (yystack s)) = yyvsp s + 1
     \<and> 0 \<le> yyvsp s \<and> yyvsp s < int (length (yyvs s)) \<and> yyssp s = (if pc s = yynewstate then yyvsp s - 1 else yyvsp s)
     \<and> (\<forall>i < length (yystack s). var_state (yystack s ! i) \<longrightarrow> var_value (yyvs s ! i))"

text \<open>The blocks between \<open>yybackup\<close> and the end of error recovery: one cell is free.\<close>

definition deciding :: "yylabel \<Rightarrow> bool" where
  "deciding l \<longleftrightarrow> l \<in> {yybackup, yydefault, yyreduce, yyerrlab, yyerrlab1, yyerrloop}"

definition ending :: "yylabel \<Rightarrow> bool" where
  "ending l \<longleftrightarrow> l \<in> {yyacceptlab, yyabortlab, yyexhaustedlab, yyreturn, Returned, Trap, Exited}"

definition globals_typed :: "'l yyparser \<Rightarrow> bool" where
  "globals_typed s \<longleftrightarrow>
     length (sym s) = 26 \<and> 0 \<le> yyerrstatus s \<and> yyerrstatus s \<le> 3 \<and> yylen s = 0
     \<and> YYINITDEPTH \<le> yystacksize s \<and> yystacksize s \<le> YYMAXDEPTH \<and> length (yyvs s) = length (yyss s)
     \<and> (yychar s = VARIABLE \<longrightarrow> var_value (yylval s))"

definition parser_typed :: "'l yyparser \<Rightarrow> bool" where
  "parser_typed s \<longleftrightarrow>
     globals_typed s
     \<and> (ending (pc s) \<or> length (yyss s) = yystacksize s)
     \<and> (deciding (pc s) \<longrightarrow> yyssp s + 1 < int (yystacksize s))
     \<and> (pc s = yyreduce \<longrightarrow> yyn s = rule_of_state (yystate s) \<and> yyn s \<noteq> 0)
     \<and> pc s \<noteq> Fault \<and> pc s \<noteq> yyerrorlab
     \<and> heap_blocks s = (if yyss_moved s \<and> pc s \<noteq> Returned then 1 else 0)
     \<and> (pc s = Returned \<or> stack_typed s)"

text \<open>What a scanner promises: a variable's value is an index of \<open>sym\<close>, and no invalid access.\<close>

locale safe_scanner =
  fixes yylex :: "'l \<Rightarrow> cint \<Rightarrow> 'l lexret" and safe :: "'l \<Rightarrow> bool"
  assumes token: "safe l \<Longrightarrow> yylex l v = LexTok c v' m l' \<Longrightarrow> safe l' \<and> (c = VARIABLE \<longrightarrow> var_value v')"
    and access: "safe l \<Longrightarrow> yylex l v \<noteq> LexBad"

lemmas typed_defs = parser_typed_def globals_typed_def deciding_def ending_def

text \<open>The same stack seen from another block, maybe in larger arrays.\<close>

lemma stack_typed_same:
  assumes "stack_typed s" "yystack t = yystack s" "yystate t = yystate s" "yyvsp t = yyvsp s"
    "yyssp t = (if pc t = yynewstate then yyvsp s - 1 else yyvsp s)" "length (yystack s) \<le> length (yyvs t)"
    "\<And>i. i < length (yystack s) \<Longrightarrow> yyvs t ! i = yyvs s ! i"
  shows "stack_typed t"
  using assms by (auto simp: stack_typed_def)

lemma stack_typed_goto:
  "stack_typed s \<Longrightarrow> pc s \<notin> {yynewstate, yysetstate} \<Longrightarrow> l \<notin> {yynewstate, yysetstate} \<Longrightarrow> stack_typed (goto l s)"
  by (rule stack_typed_same) (auto simp: stack_typed_def yystack_def)

text \<open>The variables the types do not mention.\<close>

lemma yystack_ignores [simp]:
  "yystack (s\<lparr>yyn := v0\<rparr>) = yystack s"
  "yystack (s\<lparr>yytoken := v1\<rparr>) = yystack s"
  "yystack (s\<lparr>stderr := v2\<rparr>) = yystack s"
  "yystack (s\<lparr>stdout := v3\<rparr>) = yystack s"
  "yystack (s\<lparr>scanner := v4\<rparr>) = yystack s"
  "yystack (s\<lparr>yyresult := v5\<rparr>) = yystack s"
  "yystack (s\<lparr>yynerrs := v6\<rparr>) = yystack s"
  by (simp_all add: yystack_def)

lemma stack_typed_ignores [simp]:
  "stack_typed (s\<lparr>yyn := v0\<rparr>) = stack_typed s"
  "stack_typed (s\<lparr>yytoken := v1\<rparr>) = stack_typed s"
  "stack_typed (s\<lparr>stderr := v2\<rparr>) = stack_typed s"
  "stack_typed (s\<lparr>stdout := v3\<rparr>) = stack_typed s"
  "stack_typed (s\<lparr>scanner := v4\<rparr>) = stack_typed s"
  "stack_typed (s\<lparr>yyresult := v5\<rparr>) = stack_typed s"
  "stack_typed (s\<lparr>yynerrs := v6\<rparr>) = stack_typed s"
  by (simp_all add: stack_typed_def)

lemma globals_typed_ignores [simp]:
  "globals_typed (s\<lparr>yyn := v0\<rparr>) = globals_typed s"
  "globals_typed (s\<lparr>yytoken := v1\<rparr>) = globals_typed s"
  "globals_typed (s\<lparr>stderr := v2\<rparr>) = globals_typed s"
  "globals_typed (s\<lparr>stdout := v3\<rparr>) = globals_typed s"
  "globals_typed (s\<lparr>scanner := v4\<rparr>) = globals_typed s"
  "globals_typed (s\<lparr>yyresult := v5\<rparr>) = globals_typed s"
  "globals_typed (s\<lparr>yynerrs := v6\<rparr>) = globals_typed s"
  by (simp_all add: globals_typed_def)

lemma typed_yyn: "pc s \<noteq> yyreduce \<Longrightarrow> parser_typed (s\<lparr>yyn := k\<rparr>) = parser_typed s"
  by (simp add: parser_typed_def)

lemma typed_ignores [simp]:
  "parser_typed (s\<lparr>yytoken := v1\<rparr>) = parser_typed s"
  "parser_typed (s\<lparr>stderr := v2\<rparr>) = parser_typed s"
  "parser_typed (s\<lparr>stdout := v3\<rparr>) = parser_typed s"
  "parser_typed (s\<lparr>scanner := v4\<rparr>) = parser_typed s"
  "parser_typed (s\<lparr>yyresult := v5\<rparr>) = parser_typed s"
  "parser_typed (s\<lparr>yynerrs := v6\<rparr>) = parser_typed s"
  by (simp_all add: parser_typed_def)

lemma typed_newstate:
  assumes "parser_typed s" "pc s = yynewstate"
  shows "parser_typed (do_yynewstate s)"
proof -
  have "yystack (do_yynewstate s) = yystack s" using assms(2) by (simp add: yystack_def do_yynewstate_def)
  moreover have s: "stack_typed s" "yyssp s = yyvsp s - 1" using assms by (simp_all add: parser_typed_def stack_typed_def)
  ultimately have "stack_typed (do_yynewstate s)"
    by (intro stack_typed_same [OF s(1)]) (use s in \<open>auto simp: do_yynewstate_def stack_typed_def\<close>)
  then show ?thesis
    using assms by (auto simp: parser_typed_def globals_typed_def deciding_def ending_def do_yynewstate_def)
qed

text \<open>Writing the state that is being entered.\<close>

lemma typed_written:
  assumes "parser_typed s" "pc s = yysetstate"
  shows "\<exists>ss. wr (yyss s) (yyssp s) (yystate s) = Some ss \<and> length ss = yystacksize s
    \<and> take (nat (yyssp s + 1)) ss = yystack s"
proof -
  have n: "0 \<le> yyssp s" "yyssp s < int (length (yyss s))" "length (yyss s) = yystacksize s"
    using assms by (simp_all add: typed_defs stack_typed_def)
  have "take (nat (yyssp s + 1)) ((yyss s)[nat (yyssp s) := yystate s]) = yystack s"
    using n assms(2) by (simp add: yystack_def nat_add_distrib take_Suc_conv_app_nth nat_less_iff)
  then show ?thesis using n by (simp add: wr_def)
qed

text \<open>Larger stacks hold the same states and values.\<close>

lemma relocate:
  assumes "int k = n + 1" "k \<le> length xs" "k \<le> m"
  shows "length (YYSTACK_RELOCATE fr k m xs) = m" "take (nat (n + 1)) (YYSTACK_RELOCATE fr k m xs) = take (nat (n + 1)) xs"
    "i < k \<Longrightarrow> YYSTACK_RELOCATE fr k m xs ! i = xs ! i"
  using assms by (auto simp: YYSTACK_RELOCATE_def nth_append)

lemma typed_grow:
  assumes "globals_typed s" "stack_typed s" "pc s \<noteq> yynewstate" "pc s \<noteq> yysetstate" "length (yyss s) = yystacksize s"
    "heap_blocks s = (if yyss_moved s then 1 else 0)"
  shows "parser_typed (grow_stacks env s)"
proof -
  define n where "n = min YYMAXDEPTH (yystacksize s * 2)"
  define k where "k = nat (yyssp s + 1)"
  have s: "0 \<le> yyssp s" "yyvsp s = yyssp s" "int k = yyssp s + 1" "k \<le> yystacksize s" "length (yyvs s) = yystacksize s"
    "0 < yystacksize s"
    using assms by (auto simp: k_def stack_typed_def globals_typed_def YYINITDEPTH_def)
  have yystack: "yystack s = take k (yyss s)" using assms(3,4) by (simp add: yystack_def k_def)
  have other: "stack_typed (goto yyexhaustedlab s)" "stack_typed (goto yyexhaustedlab (s\<lparr>yystacksize := n\<rparr>))"
    using assms(2-4) by (auto simp: stack_typed_def yystack_def)
  show ?thesis
  proof (cases "YYMAXDEPTH \<le> yystacksize s \<or> \<not> malloc_ok env (YYSTACK_BYTES n)")
    case True
    then have "grow_stacks env s \<in> {goto yyexhaustedlab s, goto yyexhaustedlab (s\<lparr>yystacksize := n\<rparr>)}"
      by (auto simp: grow_stacks_def Let_def n_def)
    then show ?thesis
      using assms(1,6) other by (elim insertE emptyE) (simp_all add: typed_defs n_def YYMAXDEPTH_def YYINITDEPTH_def)
  next
    case False
    let ?t = "s\<lparr>yystacksize := n, yyss := YYSTACK_RELOCATE (fresh_ss env) k n (yyss s),
        yyvs := YYSTACK_RELOCATE (fresh_vs env) k n (yyvs s),
        heap_blocks := heap_blocks s + 1 - (if yyss_moved s then 1 else 0), yyss_moved := True,
        yyssp := int k - 1, yyvsp := int k - 1, pc := yybackup\<rparr>"
    have n: "k \<le> n" "k < n" using False s(4,6) by (auto simp: n_def)
    note rs = relocate [OF s(3), where xs = "yyss s" and m = n and fr = "fresh_ss env"] and rv = relocate [OF s(3), where xs = "yyvs s" and m = n and fr = "fresh_vs env"]
    have len: "length (yystack s) = k" using s(4) assms(5) by (simp add: yystack)
    have "grow_stacks env s = ?t" using False n(2) by (simp add: grow_stacks_def Let_def n_def [symmetric] k_def [symmetric])
    moreover have "yystack ?t = yystack s" using rs(2) s n(1) assms(3-5) by (simp add: yystack yystack_def k_def)
    then have "stack_typed ?t"
    proof (rule stack_typed_same [OF assms(2)])
      show "yyssp ?t = (if pc ?t = yynewstate then yyvsp s - 1 else yyvsp s)" "yyvsp ?t = yyvsp s" using s(2,3) by simp_all
      show "length (yystack s) \<le> length (yyvs ?t)" using len rv(1) s(4,5) n(1) by simp
      show "yyvs ?t ! i = yyvs s ! i" if "i < length (yystack s)" for i using rv(3) that len s(4,5) n(1) by simp
    qed simp
    moreover have "globals_typed ?t"
      using assms(1,5) rs(1) rv(1) s n(1) by (simp add: globals_typed_def n_def YYMAXDEPTH_def YYINITDEPTH_def)
    ultimately show ?thesis
      using assms(5,6) rs(1) s n by (simp add: parser_typed_def deciding_def)
  qed
qed

lemma typed_setstate:
  assumes "parser_typed s" "pc s = yysetstate"
  shows "parser_typed (do_yysetstate env s)"
proof -
  obtain ss where ss: "wr (yyss s) (yyssp s) (yystate s) = Some ss" "length ss = yystacksize s"
    "take (nat (yyssp s + 1)) ss = yystack s" using typed_written [OF assms] by blast
  let ?s = "s\<lparr>yyss := ss\<rparr>"
  have s: "globals_typed s" "length (yyss s) = yystacksize s" "heap_blocks s = (if yyss_moved s then 1 else 0)" "stack_typed s"
    using assms by (simp_all add: typed_defs)
  have st: "stack_typed (goto yybackup ?s)"
  proof (rule stack_typed_same [OF s(4)])
    show "yystack (goto yybackup ?s) = yystack s" using ss(3) by (simp add: yystack_def)
  qed (use s assms(2) in \<open>auto simp: stack_typed_def\<close>)
  have "grow_stacks env ?s = grow_stacks env (goto yybackup ?s)" by (simp add: grow_stacks_def Let_def)
  moreover have "parser_typed (grow_stacks env (goto yybackup ?s))"
    using s ss by (intro typed_grow [OF _ st]) (simp_all add: globals_typed_def)
  moreover have "parser_typed (goto yybackup ?s)" if "yyssp s < int (yystacksize s) - 1"
    using s ss st that by (simp add: parser_typed_def globals_typed_def)
  ultimately show ?thesis
    using ss(1) by (auto simp: do_yysetstate_def Let_def)
qed

section \<open>Lookahead\<close>

lemma states_all: "list_all P states \<Longrightarrow> state q \<Longrightarrow> P q"
  by (auto simp: list_all_iff set_states)

lemma deciding_ne:
  "deciding l \<Longrightarrow> l \<noteq> yynewstate \<and> l \<noteq> yysetstate \<and> l \<noteq> Returned \<and> l \<noteq> Fault \<and> l \<noteq> yyerrorlab \<and> \<not> ending l"
  by (cases l) (simp_all add: deciding_def ending_def)

lemma ending_ne: "ending l \<Longrightarrow> l \<noteq> yynewstate \<and> l \<noteq> yysetstate \<and> l \<noteq> Fault \<and> l \<noteq> yyerrorlab \<and> l \<noteq> yyreduce \<and> \<not> deciding l"
  by (cases l) (simp_all add: deciding_def ending_def)

text \<open>What is known in a deciding block.\<close>

lemma decidingD:
  assumes "parser_typed s" "deciding (pc s)"
  shows "globals_typed s" "length (yyss s) = yystacksize s" "length (yyvs s) = yystacksize s"
    "yyssp s + 1 < int (yystacksize s)" "heap_blocks s = (if yyss_moved s then 1 else 0)" "stack_typed s" "0 \<le> yyssp s"
    "yyvsp s = yyssp s" "path (yystack s)" "yystack s = take (nat (yyssp s + 1)) (yyss s)"
    "int (length (yystack s)) = yyssp s + 1" "last (yystack s) = yystate s" "state (yystate s)"
proof -
  show s: "globals_typed s" "length (yyss s) = yystacksize s" "yyssp s + 1 < int (yystacksize s)"
    "heap_blocks s = (if yyss_moved s then 1 else 0)" "stack_typed s"
    using assms deciding_ne [OF assms(2)] by (auto simp only: parser_typed_def if_True simp_thms)
  show "length (yyvs s) = yystacksize s" using s(1,2) by (simp add: globals_typed_def)
  show y: "0 \<le> yyssp s" "yyvsp s = yyssp s" "path (yystack s)"
    "int (length (yystack s)) = yyssp s + 1" "last (yystack s) = yystate s"
    using s(5) deciding_ne [OF assms(2)] by (simp_all add: stack_typed_def)
  show "yystack s = take (nat (yyssp s + 1)) (yyss s)" using deciding_ne [OF assms(2)] by (simp add: yystack_def)
  show "state (yystate s)" using path_last [OF y(3)] y(5) by simp
qed

text \<open>The same state with another block to go on with.\<close>

lemma typed_goto:
  assumes "parser_typed s" "deciding (pc s)" "deciding l \<or> ending l \<and> l \<noteq> Returned" "l \<noteq> yyreduce"
  shows "parser_typed (goto l s)"
proof -
  note s = decidingD [OF assms(1,2)]
  have l: "l \<noteq> yynewstate" "l \<noteq> yysetstate" "l \<noteq> Fault" "l \<noteq> yyerrorlab" "l \<noteq> Returned"
    using assms(3) deciding_ne ending_ne by blast+
  have "stack_typed (goto l s)"
    using s(6) l deciding_ne [OF assms(2)] by (intro stack_typed_goto) auto
  then show ?thesis using s(1,2,4,5) l assms(4) by (simp add: parser_typed_def globals_typed_def)
qed

text \<open>Pushing a value and going to a state that follows.\<close>

lemma typed_push:
  assumes s: "parser_typed s" "deciding (pc s)" and k: "0 < k" "k \<le> length (yystack s)" "sp = int k - 1"
    and q: "edge (yystack s ! (k - 1)) q" "state q" "var_state q \<Longrightarrow> var_value v"
  shows "\<exists>vs. wr (yyvs s) (sp + 1) v = Some vs \<and> length vs = yystacksize s \<and>
    stack_typed (s\<lparr>yyvs := vs, yyvsp := sp + 1, yyssp := sp, yystate := q, pc := yynewstate\<rparr>)"
proof -
  let ?t = "s\<lparr>yyvs := (yyvs s)[k := v], yyvsp := sp + 1, yyssp := sp, yystate := q, pc := yynewstate\<rparr>"
  note S = decidingD [OF s]
  have val: "var_value (yyvs s ! i)" if "i < length (yystack s)" "var_state (yystack s ! i)" for i
    using S(6) that by (simp add: stack_typed_def)
  have kl: "k < length (yyvs s)" using k(2) S(3,4,11) by linarith
  then have wr: "wr (yyvs s) (sp + 1) v = Some ((yyvs s)[k := v])" using k(3) by simp
  have "take k (yystack s) = take k (yyss s)" using k(2) unfolding S(10) by (simp add: take_take min_absorb1)
  then have t: "yystack ?t = take k (yystack s) @ [q]" using k(1,3) by (simp add: yystack_def)
  have len: "length (take k (yystack s)) = k" using k(2) by simp
  have "last (take k (yystack s)) = yystack s ! (k - 1)" using k by (subst last_conv_nth) auto
  then have "path (take k (yystack s) @ [q])"
    using k q(1,2) S(9) by (intro path_push path_take) simp_all
  moreover have "var_value ((yyvs s)[k := v] ! i)" if "i < Suc k" "var_state ((take k (yystack s) @ [q]) ! i)" for i
  proof (cases "i = k")
    case True
    then show ?thesis using that(2) q(3) kl len by (simp add: nth_append)
  next
    case False
    then have "i < k" using that(1) by simp
    then show ?thesis using that(2) val [of i] k(2) by (simp add: nth_append)
  qed
  ultimately have "stack_typed ?t" unfolding stack_typed_def t using k(3) kl len by simp
  then show ?thesis using wr S(3) by (intro exI [of _ "(yyvs s)[k := v]"]) simp
qed

lemma typed_shift:
  assumes s: "parser_typed s" "deciding (pc s)" and q: "edge (yystate s) q" "state q" "var_state q \<Longrightarrow> yychar s = VARIABLE"
  shows "parser_typed (shift_token q s)"
proof -
  note S = decidingD [OF s]
  have top: "0 < length (yystack s)" "yystack s ! (length (yystack s) - 1) = yystate s" "yyvsp s = int (length (yystack s)) - 1"
    using S(7,8,9,11,12) by (auto simp: path_def last_conv_nth)
  have "var_state q \<Longrightarrow> var_value (yylval s)" using q(3) S(1) by (simp add: globals_typed_def)
  from typed_push [OF s top(1) order_refl top(3) _ q(2) this] top(2) q(1) obtain vs where
    vs: "wr (yyvs s) (yyvsp s + 1) (yylval s) = Some vs" "length vs = yystacksize s"
      "stack_typed (s\<lparr>yyvs := vs, yyvsp := yyvsp s + 1, yyssp := yyvsp s, yystate := q, pc := yynewstate\<rparr>)" by auto
  let ?t = "s\<lparr>yyerrstatus := (if yyerrstatus s \<noteq> 0 then yyerrstatus s - 1 else yyerrstatus s),
      yychar := (if yychar s \<noteq> YYEOF then YYEMPTY else yychar s), yystate := q, yyvs := vs, yyvsp := yyvsp s + 1, pc := yynewstate\<rparr>"
  have "stack_typed ?t" using vs(3) S(8) by (simp add: stack_typed_def yystack_def)
  moreover have "globals_typed ?t"
    using S(1,2) vs(2) by (auto simp: globals_typed_def YYEMPTY_def VARIABLE_def YYEOF_def)
  moreover have "shift_token q s = ?t" using vs(1) by (simp add: shift_token_def)
  ultimately show ?thesis using S(2,5) by (simp add: parser_typed_def deciding_def)
qed

lemma token_range:
  assumes "YYTRANSLATE c = Some t"
  shows "0 \<le> t" "t \<le> 12" "t = 4 \<Longrightarrow> c = VARIABLE"
proof -
  have t: "t = (if 0 \<le> c \<and> c \<le> 259 then yytranslate ! nat c else 2)"
    using assms by (auto simp: YYTRANSLATE_def YYMAXUTOK_def YYUNDEFTOK_def rd_def token_table(1) split: if_splits)
  show "0 \<le> t" "t \<le> 12"
    using t token_table(1,2) by (auto simp: list_all_length)
  assume "t = 4"
  then have "c \<in> set [0..259]" "yytranslate ! nat c = 4" using t by (auto split: if_splits)
  then show "c = VARIABLE" using token_table(3) by (simp add: list_all_iff)
qed

text \<open>What the tables say to a token, in any state of a deciding block.\<close>

lemma typed_use:
  assumes s: "parser_typed s" "pc s = yybackup" and p: "p = yypact ! nat (yystate s)" "p \<noteq> YYPACT_NINF"
    and t: "0 \<le> yytoken s" "yytoken s \<le> 12" "yytoken s = 4 \<Longrightarrow> yychar s = VARIABLE"
  shows "parser_typed (use_lookahead p s)"
proof -
  have d: "deciding (pc s)" using s(2) by (simp add: deciding_def)
  let ?n = "p + yytoken s"
  have yyn: "parser_typed (s\<lparr>yyn := k\<rparr>)" for k by (simp add: s typed_yyn)
  have to: "parser_typed (goto l (s\<lparr>yyn := k\<rparr>))" if "deciding l \<or> ending l \<and> l \<noteq> Returned" "l \<noteq> yyreduce" for l k
    using typed_goto [OF yyn _ that, of k] d by simp
  have labels: "deciding yydefault" "deciding yyerrlab" "ending yyacceptlab" by (simp_all add: deciding_def ending_def)
  show ?thesis
  proof (cases "?n < 0 \<or> YYLAST < ?n \<or> yycheck ! nat ?n \<noteq> yytoken s")
    case True
    then show ?thesis
      using to [of yydefault] labels by (auto simp: use_lookahead_def Let_def rd_def table_lengths YYLAST_def)
  next
    case False
    then have n: "rd yycheck ?n = Some (yytoken s)" "rd yytable ?n = Some (yytable ! nat ?n)" "0 \<le> yytable ! nat ?n"
      using yytable_nonneg by (auto simp: rd_def table_lengths YYLAST_def)
    let ?a = "yytable ! nat ?n"
    show ?thesis
    proof (cases "?a = 0 \<or> ?a = YYFINAL")
      case True
      then show ?thesis
        using False n to [of yyerrlab 0] to [of yyacceptlab YYFINAL] labels by (auto simp: use_lookahead_def Let_def YYFINAL_def)
    next
      case act: False
      have st: "state (yystate s)" using decidingD(13) [OF s(1) d] .
      have "lr_action (yystate s) (yytoken s) = Shift ?a" using False act p by (simp add: lr_action_def Let_def)
      then have "grammar_action (yystate s) (yytoken s) = Shift ?a"
        using st t(1,2) lr_action_grammar by (simp add: state_def)
      moreover have "yytoken s \<in> set [0..12]" using t by simp
      ultimately have a: "state ?a" "edge (yystate s) ?a" "var_state ?a \<Longrightarrow> yytoken s = 4"
        using states_all [OF shifts st] unfolding list_all_iff by fastforce+
      have "parser_typed (shift_token ?a (s\<lparr>yyn := ?a\<rparr>))"
        using a t(3) d by (intro typed_shift yyn) simp_all
      then show ?thesis using False act n by (simp add: use_lookahead_def Let_def)
    qed
  qed
qed

lemma typed_translate:
  assumes s: "parser_typed s" "pc s = yybackup" and p: "p = yypact ! nat (yystate s)" "p \<noteq> YYPACT_NINF"
  shows "parser_typed (translate_lookahead p s)"
proof (cases "yychar s \<le> YYEOF")
  case True
  have "yystack (s\<lparr>yychar := YYEOF, yytoken := YYEOF\<rparr>) = yystack s" by (simp add: yystack_def)
  then have "parser_typed (s\<lparr>yychar := YYEOF, yytoken := YYEOF\<rparr>)"
    using s by (auto simp: parser_typed_def globals_typed_def stack_typed_def YYEOF_def VARIABLE_def)
  then have "parser_typed (use_lookahead p (s\<lparr>yychar := YYEOF, yytoken := YYEOF\<rparr>))"
    by (rule typed_use) (use s p in \<open>simp_all add: YYEOF_def\<close>)
  then show ?thesis using True by (simp add: translate_lookahead_def)
next
  case False
  obtain t where t: "YYTRANSLATE (yychar s) = Some t" "0 \<le> t" "t \<le> 12" "t = 4 \<Longrightarrow> yychar s = VARIABLE"
  proof -
    have "YYTRANSLATE (yychar s) \<noteq> None"
      by (auto simp: YYTRANSLATE_def YYMAXUTOK_def rd_def token_table(1))
    then show ?thesis using that token_range by blast
  qed
  have "parser_typed (use_lookahead p (s\<lparr>yytoken := t\<rparr>))"
    by (rule typed_use) (use s p t in simp_all)
  then show ?thesis using False t(1) by (simp add: translate_lookahead_def)
qed

lemma translate_scanner: "scanner (translate_lookahead p s) = scanner s"
proof -
  have "scanner (shift_token n s) = scanner s" for n and s :: "'a yyparser"
    by (simp add: shift_token_def split: option.split)
  then have "scanner (use_lookahead p s) = scanner s" for s :: "'a yyparser"
    by (auto simp: use_lookahead_def Let_def split: option.split)
  then show ?thesis by (auto simp: translate_lookahead_def split: option.split)
qed

section \<open>Reductions\<close>

lemma typed_default:
  assumes s: "parser_typed s" "pc s = yydefault"
  shows "parser_typed (do_yydefault s)"
proof -
  have d: "deciding (pc s)" using s(2) by (simp add: deciding_def)
  note S = decidingD [OF s(1) d]
  let ?r = "rule_of_state (yystate s)"
  have r: "rd yydefact (yystate s) = Some ?r" using states_all [OF tables_total S(13)] by simp
  show ?thesis
  proof (cases "?r = 0")
    case True
    have "parser_typed (goto yyerrlab (s\<lparr>yyn := 0\<rparr>))"
      using s d by (intro typed_goto) (simp_all add: typed_yyn deciding_def)
    then show ?thesis using r True by (simp add: do_yydefault_def)
  next
    case False
    have "stack_typed (goto yyreduce (s\<lparr>yyn := ?r\<rparr>))" using S(6) s(2) by (intro stack_typed_goto) simp_all
    then have "parser_typed (goto yyreduce (s\<lparr>yyn := ?r\<rparr>))"
      using S(1,2,4,5) False by (simp add: parser_typed_def globals_typed_def)
    then show ?thesis using r False by (simp add: do_yydefault_def)
  qed
qed

text \<open>The values of the right-hand side are on the stack, a variable's below its state.\<close>

lemma rhs_values:
  assumes s: "parser_typed s" "pc s = yyreduce" and r: "r = yyn s" "len = yyr2 ! nat r"
  shows "rd yyr2 r = Some len" "0 \<le> len" "len \<le> yyssp s" "2 \<le> r" "r \<le> 12"
    "0 \<le> j \<Longrightarrow> j \<le> len \<Longrightarrow> rd (yyvs s) (yyvsp s + 1 - j) = Some (yyvs s ! nat (yyvsp s + 1 - j))"
    "r = 5 \<Longrightarrow> var_value (yyvs s ! nat (yyvsp s - 2))" "r = 7 \<Longrightarrow> var_value (yyvs s ! nat (yyvsp s))"
proof -
  have d: "deciding (pc s)" using s(2) by (simp add: deciding_def)
  note S = decidingD [OF s(1) d]
  have rl: "r = rule_of_state (last (yystack s))" "rule_of_state (last (yystack s)) \<noteq> 0"
    using s r S(12) by (auto simp: parser_typed_def)
  note fits = path_fits [OF S(9) rl(2,1)]
  show b: "2 \<le> r" "r \<le> 12" by (rule fits)+
  show rd: "rd yyr2 r = Some len" using b r by (simp add: rd_def table_lengths)
  show len0: "0 \<le> len" using b r bottoms(4,6) by (simp add: list_all_length)
  show le: "len \<le> yyssp s" using fits(1) len0 S(11) r(2) by linarith
  show "rd (yyvs s) (yyvsp s + 1 - j) = Some (yyvs s ! nat (yyvsp s + 1 - j))" if "0 \<le> j" "j \<le> len"
    using that le S(3,4,8) by (simp add: rd_def)
  have val: "var_value (yyvs s ! i)" if "i < length (yystack s)" "var_state (yystack s ! i)" for i
    using S(6) that by (simp add: stack_typed_def)
  show "var_value (yyvs s ! nat (yyvsp s))" if "r = 7"
  proof -
    have "var_state (last (yystack s))" using that rl states_all [OF var_rules(2)] path_last [OF S(9)] by auto
    moreover have "nat (yyvsp s) = length (yystack s) - 1" "yystack s \<noteq> []" using S(7,8,11) by auto
    ultimately show ?thesis using val [of "nat (yyvsp s)"] by (simp add: last_conv_nth)
  qed
  show "var_value (yyvs s ! nat (yyvsp s - 2))" if "r = 5"
  proof -
    have "yyr2 ! 5 = 3" by code_simp
    then have len: "2 < length (yystack s)" using that r(2) le S(11) by simp
    moreover have "list_all var_state (below 2 (last (yystack s)))"
      using that rl states_all [OF var_rules(1)] path_last [OF S(9)] by auto
    moreover have "nat (yyvsp s - 2) = length (yystack s) - Suc 2" using len S(8,11) by linarith
    ultimately show ?thesis
      using val [of "nat (yyvsp s - 2)"] path_below [OF S(9), of 2] by (simp add: list_all_iff)
  qed
qed

lemma rule_lengths: "map (\<lambda>r. yyr2 ! nat r) [4, 5, 7, 8, 9, 10, 11, 12] = [1, 3, 1, 3, 3, 3, 3, 3]"
  by code_simp

lemma typed_action:
  assumes s: "parser_typed s" "pc s = yyreduce" and t: "t = s\<lparr>yylen := len, yyval := v\<rparr>" "len = yyr2 ! nat (yyn s)"
  shows "yy_action t = Inl Trap \<or> (\<exists>sy out w. yy_action t = Inr (t\<lparr>sym := sy, stdout := out, yyval := w\<rparr>) \<and> length sy = 26)"
proof -
  note V = rhs_values [OF s refl t(2)]
  have sym: "length (sym s) = 26" using s(1) by (simp add: parser_typed_def globals_typed_def)
  have rdv: "rd (yyvs s) (yyvsp s + 1 - j) = Some (yyvs s ! nat (yyvsp s + 1 - j))" if "0 \<le> j" "j \<le> len" for j using V(6) that .
  have same: "t = t\<lparr>sym := sym s, stdout := stdout s, yyval := v\<rparr>" by (simp add: t(1))
  consider "yyn s = 4" | "yyn s = 5" | "yyn s = 7" | "yyn s \<in> {8, 9, 10, 11}" | "yyn s = 12" | "yyn s \<notin> {4, 5, 7, 8, 9, 10, 11, 12}"
    by blast
  then show ?thesis
  proof cases
    case 1
    then have "rd (yyvs s) (yyvsp s) = Some (yyvs s ! nat (yyvsp s))" using rdv [of 1] rule_lengths t(2) by simp
    then show ?thesis
      using 1 sym by (intro disjI2 exI [of _ "sym s"] exI [of _ "stdout s @ dec_int (sint (yyvs s ! nat (yyvsp s))) @ ''\<newline>''"] exI [of _ v])
        (simp add: yy_action_def Let_def t(1))
  next
    case 2
    then have "rd (yyvs s) (yyvsp s) = Some (yyvs s ! nat (yyvsp s))" "rd (yyvs s) (yyvsp s - 2) = Some (yyvs s ! nat (yyvsp s - 2))"
      using rdv [of 1] rdv [of 3] rule_lengths t(2) by simp_all
    then show ?thesis
      using 2 sym V(7) by (intro disjI2 exI [of _ "(sym s)[nat (sint (yyvs s ! nat (yyvsp s - 2))) := yyvs s ! nat (yyvsp s)]"]
          exI [of _ "stdout s"] exI [of _ v]) (simp add: yy_action_def Let_def t(1) wr_def var_value_def)
  next
    case 3
    then have "rd (yyvs s) (yyvsp s) = Some (yyvs s ! nat (yyvsp s))" using rdv [of 1] rule_lengths t(2) by simp
    then show ?thesis
      using 3 sym V(8) by (intro disjI2 exI [of _ "sym s"] exI [of _ "stdout s"] exI [of _ "sym s ! nat (sint (yyvs s ! nat (yyvsp s)))"])
        (simp add: yy_action_def Let_def t(1) rd_def var_value_def)
  next
    case 4
    then have "rd (yyvs s) (yyvsp s) = Some (yyvs s ! nat (yyvsp s))" "rd (yyvs s) (yyvsp s - 2) = Some (yyvs s ! nat (yyvsp s - 2))"
      using rdv [of 1] rdv [of 3] rule_lengths t(2) by auto
    moreover have "yyn s \<noteq> 4" "yyn s \<noteq> 5" "yyn s \<noteq> 7" "yyn s = 8 \<or> yyn s = 9 \<or> yyn s = 10 \<or> yyn s = 11" using 4 by auto
    ultimately have act: "yy_action t = (case arith_action (yyn s) (yyvs s ! nat (yyvsp s - 2)) (yyvs s ! nat (yyvsp s)) of
        None \<Rightarrow> Inl Trap | Some w \<Rightarrow> Inr (t\<lparr>yyval := w\<rparr>))"
      by (simp only: yy_action_def Let_def t(1) yyparser.simps if_False if_True prod.case option.case simp_thms)
        (simp cong: option.case_cong)
    show ?thesis
    proof (cases "arith_action (yyn s) (yyvs s ! nat (yyvsp s - 2)) (yyvs s ! nat (yyvsp s))")
      case (Some w)
      then show ?thesis
        using act sym by (intro disjI2 exI [of _ "sym s"] exI [of _ "stdout s"] exI [of _ w]) (simp add: t(1))
    qed (simp add: act)
  next
    case 5
    then have "rd (yyvs s) (yyvsp s - 1) = Some (yyvs s ! nat (yyvsp s - 1))" using rdv [of 2] rule_lengths t(2) by simp
    then show ?thesis
      using 5 sym by (intro disjI2 exI [of _ "sym s"] exI [of _ "stdout s"] exI [of _ "yyvs s ! nat (yyvsp s - 1)"])
        (simp add: yy_action_def Let_def t(1))
  next
    case 6
    then have "yy_action t = Inr t" by (simp add: yy_action_def Let_def t(1))
    then show ?thesis using sym same by metis
  qed
qed

lemma yystack_rd:
  assumes "parser_typed s" "deciding (pc s)" "i < length (yystack s)"
  shows "rd (yyss s) (int i) = Some (yystack s ! i)"
proof -
  note S = decidingD [OF assms(1,2)]
  have "i < length (yyss s)" using assms(3) S(2,4,11) by linarith
  moreover have "yystack s ! i = yyss s ! i" unfolding S(10) by (rule nth_take) (use assms(3) S(11) in linarith)
  ultimately show ?thesis by simp
qed

lemma typed_reduce:
  assumes s: "parser_typed s" "pc s = yyreduce"
  shows "parser_typed (do_yyreduce s)"
proof -
  have d: "deciding (pc s)" using s(2) by (simp add: deciding_def)
  note S = decidingD [OF s(1) d]
  define len where "len = yyr2 ! nat (yyn s)"
  note V = rhs_values [OF s refl len_def]
  define v where "v = yyvs s ! nat (yyvsp s + 1 - len)"
  define t where "t = s\<lparr>yylen := len, yyval := v\<rparr>"
  have v: "rd (yyvs s) (yyvsp s + (1 - len)) = Some v" using V(6) [of len] V(2) by (simp add: v_def add_diff_eq)
  have red: "do_yyreduce s = (case yy_action t of Inl l \<Rightarrow> goto l s | Inr t1 \<Rightarrow> finish_reduction t1)"
    using V(1) v by (simp add: do_yyreduce_def t_def)
  consider "yy_action t = Inl Trap" | sy out w where "yy_action t = Inr (t\<lparr>sym := sy, stdout := out, yyval := w\<rparr>)" "length sy = 26"
    using typed_action [OF s t_def len_def] by blast
  then show ?thesis
  proof cases
    case 1
    then show ?thesis using red typed_goto [OF s(1) d, of Trap] by (simp add: ending_def)
  next
    case (2 sy out w)
    let ?S = "yystack s" and ?k = "length (yystack s) - nat len"
    have rl: "yyn s = rule_of_state (last ?S)" "rule_of_state (last ?S) \<noteq> 0"
      using s S(12) by (auto simp: parser_typed_def)
    have k: "0 < ?k" "?k \<le> length ?S" "yyssp s - len = int ?k - 1" using V(2,3) S(11) by linarith+
    have e: "?S ! (?k - 1) = ?S ! (length ?S - Suc (nat len))" by (rule arg_cong [where f = "\<lambda>i. ?S ! i"]) simp
    obtain g where g: "goto_state (yyr1 ! nat (yyn s)) (?S ! (?k - 1)) = Some g" "edge (?S ! (?k - 1)) g" "state g" "\<not> var_state g"
      using path_goto [OF S(9) rl(2,1) arg_cong [OF len_def [unfolded atomize_eq], where f = nat] e] by blast
    obtain vs where vs: "wr (yyvs s) (yyssp s - len + 1) w = Some vs" "length vs = yystacksize s"
      "stack_typed (s\<lparr>yyvs := vs, yyvsp := yyssp s - len + 1, yyssp := yyssp s - len, yystate := g, pc := yynewstate\<rparr>)"
      using typed_push [OF s(1) d k g(2,3)] g(4) by blast
    have top: "rd (yyss s) (yyssp s - len) = Some (?S ! (?k - 1))"
    proof -
      have "yyssp s - len = int (?k - 1)" using k by linarith
      moreover have "?k - 1 < length ?S" using k by linarith
      ultimately show ?thesis using yystack_rd [OF s(1) d] by simp
    qed
    have lhs: "rd yyr1 (yyn s) = Some (yyr1 ! nat (yyn s))" using V(4,5) by (simp add: rd_def table_lengths)
    let ?t = "s\<lparr>yylen := 0, sym := sy, stdout := out, yyval := w, yyvs := vs, yyvsp := yyssp s - len + 1, yyssp := yyssp s - len,
        yyn := yyr1 ! nat (yyn s), yystate := g, pc := yynewstate\<rparr>"
    have "do_yyreduce s = ?t"
      using red 2(1) vs(1) top lhs g(1) S(8) by (simp add: t_def finish_reduction_def YYPOPSTACK_def Let_def)
    moreover have "stack_typed ?t" using vs(3) by (simp add: stack_typed_def yystack_def)
    moreover have "globals_typed ?t" using S(1,2) 2(2) vs(2) by (simp add: globals_typed_def)
    ultimately show ?thesis using S(2,5) by (simp add: parser_typed_def deciding_def)
  qed
qed

section \<open>Errors and the end\<close>

lemma typed_errlab:
  assumes s: "parser_typed s" "pc s = yyerrlab"
  shows "parser_typed (do_yyerrlab s)"
proof -
  define u where "u = (if yyerrstatus s = 0 then yyerror ''syntax error'' (s\<lparr>yynerrs := yynerrs s + 1\<rparr>) else s)"
  have u: "parser_typed u" "pc u = yyerrlab" using s by (simp_all add: u_def yyerror_def)
  have to: "parser_typed (goto l u)" if "l = yyabortlab \<or> l = yyerrlab1" for l
    using that u(2) by (intro typed_goto u(1)) (auto simp: deciding_def ending_def)
  have "yystack (u\<lparr>yychar := YYEMPTY\<rparr>) = yystack u" by (simp add: yystack_def)
  then have "parser_typed (u\<lparr>yychar := YYEMPTY\<rparr>)"
    using u by (auto simp: parser_typed_def globals_typed_def stack_typed_def YYEMPTY_def VARIABLE_def)
  then have "parser_typed (goto yyerrlab1 (u\<lparr>yychar := YYEMPTY\<rparr>))"
    by (rule typed_goto) (use u(2) in \<open>simp_all add: deciding_def\<close>)
  then show ?thesis using to by (simp add: do_yyerrlab_def Let_def u_def [symmetric])
qed

lemma typed_errloop:
  assumes s: "parser_typed s" "pc s = yyerrloop"
  shows "parser_typed (do_yyerrloop s)"
proof -
  have d: "deciding (pc s)" using s(2) by (simp add: deciding_def)
  note S = decidingD [OF s(1) d]
  have tab: "rd yypact (yystate s) = Some (yypact ! nat (yystate s))" "error_shift (yypact ! nat (yystate s)) = None"
    "rd yystos (yystate s) \<noteq> None"
    using states_all [OF tables_total S(13)] by (auto simp: rd_def split: if_splits)
  show ?thesis
  proof (cases "yyssp s = 0")
    case True
    then show ?thesis using tab typed_goto [OF s(1) d, of yyabortlab] by (simp add: do_yyerrloop_def ending_def)
  next
    case False
    let ?k = "length (yystack s) - 1"
    have k: "0 < ?k" "?k < length (yystack s)" "int ?k = yyssp s" using False S(7,11) by linarith+
    let ?q = "yystack s ! (?k - 1)"
    have q: "rd (yyss s) (yyssp s - 1) = Some ?q"
    proof -
      have "yyssp s - 1 = int (?k - 1)" "?k - 1 < length (yystack s)" using k by linarith+
      then show ?thesis using yystack_rd [OF s(1) d] by simp
    qed
    let ?t = "s\<lparr>yyvsp := yyvsp s - 1, yyssp := yyssp s - 1, yystate := ?q, pc := yyerrloop\<rparr>"
    have n: "nat (yyssp s) = ?k" "min (nat (yyssp s)) (nat (yyssp s + 1)) = nat (yyssp s)" using k(3) by linarith+
    have "yystack ?t = take (nat (yyssp s)) (yyss s)" by (simp add: yystack_def)
    also have "\<dots> = take (nat (yyssp s)) (yystack s)" unfolding S(10) take_take n(2) ..
    finally have st: "yystack ?t = take ?k (yystack s)" unfolding n(1) .
    have "last (take ?k (yystack s)) = ?q" using k by (subst last_conv_nth) auto
    moreover have "path (take ?k (yystack s))" using path_take [OF S(9) k(1)] .
    moreover have "length (take ?k (yystack s)) = ?k" by simp
    ultimately have "stack_typed ?t"
      unfolding stack_typed_def st using S(3,4,6,8) k by (simp add: stack_typed_def)
    then have "parser_typed ?t" using S(1,2,4,5) by (simp add: parser_typed_def globals_typed_def)
    moreover obtain x where "rd yystos (yystate s) = Some x" using tab(3) by blast
    then have "do_yyerrloop s = ?t" using tab(1,2) q False s(2) by (simp add: do_yyerrloop_def YYPOPSTACK_def Let_def)
    ultimately show ?thesis by simp
  qed
qed

lemma cleanup_states:
  "(\<And>i. i \<le> n \<Longrightarrow> i < length ss \<and> state (ss ! i)) \<Longrightarrow> yycleanup ss n"
proof (induction n)
  case (Suc n)
  then have "Suc n < length ss" "state (ss ! Suc n)" by auto
  then show ?case using Suc states_all [OF tables_total] by (auto simp: rd_nat simp del: of_nat_Suc)
qed simp

text \<open>The last block, whose arrays may be smaller than \<open>yystacksize\<close> says.\<close>

lemma typed_return:
  assumes s: "parser_typed s" "pc s = yyreturn"
  shows "parser_typed (do_yyreturn s)"
proof -
  have S: "globals_typed s" "stack_typed s" "heap_blocks s = (if yyss_moved s then 1 else 0)" "yylen s = 0"
    using s by (auto simp: parser_typed_def globals_typed_def)
  have y: "path (yystack s)" "yyssp s = yyvsp s" "0 \<le> yyssp s" "int (length (yystack s)) = yyssp s + 1"
    using S(2) s(2) by (simp_all add: stack_typed_def)
  have ys: "yystack s = take (nat (yyssp s + 1)) (yyss s)" using s(2) by (simp add: yystack_def)
  have "yycleanup (yyss s) (nat (yyssp s))"
  proof (rule cleanup_states)
    fix i assume "i \<le> nat (yyssp s)"
    then have i: "i < length (yystack s)" using y(3,4) by linarith
    then have "i < length (yyss s)" "i < nat (yyssp s + 1)" unfolding ys by simp_all
    moreover then have "yyss s ! i = yystack s ! i" unfolding ys by simp
    ultimately show "i < length (yyss s) \<and> state (yyss s ! i)" using path_state [OF y(1)] i by simp
  qed
  then show ?thesis
    using S y(2,3) by (simp add: do_yyreturn_def YYPOPSTACK_def Let_def parser_typed_def globals_typed_def deciding_def ending_def)
qed

text \<open>The three blocks that only say what is returned.\<close>

lemma typed_result:
  assumes s: "parser_typed s" "pc s \<in> {yyacceptlab, yyabortlab, yyexhaustedlab}"
  shows "parser_typed (goto yyreturn (s\<lparr>yyresult := r\<rparr>))"
proof -
  have pc: "pc s \<noteq> Returned" "pc s \<noteq> yynewstate" "pc s \<noteq> yysetstate" using s(2) by auto
  then have S: "globals_typed s" "stack_typed s" "heap_blocks s = (if yyss_moved s then 1 else 0)"
    using s(1) by (simp_all add: parser_typed_def)
  have "stack_typed (goto yyreturn (s\<lparr>yyresult := r\<rparr>))" using S(2) pc by (intro stack_typed_goto) simp_all
  then show ?thesis using S by (simp add: parser_typed_def globals_typed_def deciding_def ending_def)
qed

section \<open>Every block keeps the types\<close>

theorem typed_step:
  assumes s: "parser_typed s" and lex: "pc s = yybackup \<Longrightarrow> parser_typed (do_yybackup yylex s)"
  shows "parser_typed (yystep yylex env s)"
proof (cases "pc s")
  case yyerrlab1
  then have "parser_typed (goto yyerrloop s)" using s by (intro typed_goto) (simp_all add: deciding_def)
  moreover have "yystack (goto yyerrloop (s\<lparr>yyerrstatus := 3\<rparr>)) = yystack (goto yyerrloop s)" by (simp add: yystack_def)
  ultimately have "parser_typed (goto yyerrloop (s\<lparr>yyerrstatus := 3\<rparr>))"
    by (auto simp: parser_typed_def globals_typed_def stack_typed_def)
  then show ?thesis using yyerrlab1 by (simp add: yystep_def do_yyerrlab1_def)
next
  case yyexhaustedlab
  have "parser_typed (yyerror m s)" "pc (yyerror m s) = pc s" for m using s by (simp_all add: yyerror_def)
  then have "parser_typed (goto yyreturn ((yyerror ''memory exhausted'' s)\<lparr>yyresult := 2\<rparr>))"
    using yyexhaustedlab by (intro typed_result) simp_all
  then show ?thesis using yyexhaustedlab by (simp add: yystep_def)
next
  case yyerrorlab
  then show ?thesis using s by (simp add: parser_typed_def)
qed (use s lex typed_newstate typed_setstate typed_default typed_reduce typed_errlab typed_errloop typed_return
    in \<open>simp_all add: yystep_def typed_result\<close>)

section \<open>With a scanner that keeps its promise\<close>

lemma step_scanner: "pc s \<noteq> yybackup \<Longrightarrow> scanner (yystep yylex env s) = scanner s"
proof -
  have "scanner (finish_reduction s) = scanner s" for s :: "'a yyparser"
    by (simp add: finish_reduction_def YYPOPSTACK_def Let_def split: option.split)
  moreover have "yy_action s = Inr t \<Longrightarrow> scanner t = scanner s" for s t :: "'a yyparser"
    by (auto simp: yy_action_def Let_def split: option.splits if_splits prod.splits)
  ultimately have "scanner (do_yyreduce s) = scanner s" for s :: "'a yyparser"
    by (auto simp: do_yyreduce_def split: option.split sum.split)
  moreover have "scanner (do_yysetstate env s) = scanner s" for s :: "'a yyparser"
    by (simp add: do_yysetstate_def grow_stacks_def Let_def split: option.split)
  moreover have "scanner (do_yyerrloop s) = scanner s" "scanner (do_yyerrorlab s) = scanner s"
    "scanner (do_yydefault s) = scanner s" for s :: "'a yyparser"
    by (simp_all add: do_yyerrloop_def do_yyerrorlab_def do_yydefault_def YYPOPSTACK_def Let_def split: option.split)
  ultimately show "pc s \<noteq> yybackup \<Longrightarrow> scanner (yystep yylex env s) = scanner s"
    by (cases "pc s") (simp_all add: yystep_def do_yynewstate_def do_yyerrlab_def do_yyerrlab1_def do_yyreturn_def
        yyerror_def YYPOPSTACK_def Let_def)
qed

lemma typed_enter: "length (sym s) = 26 \<Longrightarrow> parser_typed (yyparse_enter env s)"
  by (simp add: parser_typed_def globals_typed_def stack_typed_def yystack_def path_start var_state_def deciding_def
      yyparse_enter_def YYINITDEPTH_def YYMAXDEPTH_def YYEMPTY_def VARIABLE_def)

context safe_scanner
begin

lemma typed_backup:
  assumes s: "parser_typed s" "pc s = yybackup" "safe (scanner s)"
  shows "parser_typed (do_yybackup yylex s) \<and> safe (scanner (do_yybackup yylex s))"
proof -
  have d: "deciding (pc s)" using s(2) by (simp add: deciding_def)
  have st: "state (yystate s)" using decidingD(13) [OF s(1) d] .
  let ?p = "yypact ! nat (yystate s)"
  have p: "rd yypact (yystate s) = Some ?p"
    using states_all [OF tables_total st] by (auto simp: rd_def split: if_splits)
  have yyn: "parser_typed (s\<lparr>yyn := k\<rparr>)" for k by (simp add: s typed_yyn)
  have to: "parser_typed (goto l (s\<lparr>yyn := k\<rparr>))" if "l = yydefault \<or> l = Exited" for l k
    using that d by (intro typed_goto yyn) (auto simp: deciding_def ending_def)
  show ?thesis
  proof (cases "?p = YYPACT_NINF")
    case True
    then show ?thesis using p s(3) to by (simp add: do_yybackup_def)
  next
    case False
    show ?thesis
    proof (cases "yychar s = YYEMPTY")
      case True
      show ?thesis
      proof (cases "yylex (scanner s) (yylval s)")
        case (LexTok c v m l)
        let ?t = "s\<lparr>yyn := ?p, yychar := c, yylval := v, stderr := stderr s @ m, scanner := l\<rparr>"
        have "c = VARIABLE \<longrightarrow> var_value v" "safe l" using token [OF s(3) LexTok] by auto
        then have "parser_typed ?t" using s(1,2)
          by (auto simp: parser_typed_def globals_typed_def stack_typed_def yystack_def)
        then show ?thesis
          using typed_translate [of ?t ?p] False p True LexTok s(2) \<open>safe l\<close> by (simp add: do_yybackup_def translate_scanner)
      next
        case (LexExit m)
        have "parser_typed (goto Exited (s\<lparr>yyn := ?p, stderr := stderr s @ m\<rparr>))"
          using d by (intro typed_goto) (simp_all add: yyn ending_def)
        then show ?thesis using LexExit False p True s(3) by (simp add: do_yybackup_def)
      qed (use access [OF s(3)] s False p True in \<open>simp_all add: do_yybackup_def\<close>)
    next
      case nonempty: False
      then show ?thesis
        using typed_translate [OF yyn, of ?p ?p] False p s by (simp add: do_yybackup_def translate_scanner)
    qed
  qed
qed

lemma typed_safe_step:
  assumes "parser_typed s" "safe (scanner s)"
  shows "parser_typed (yystep yylex env s) \<and> safe (scanner (yystep yylex env s))"
proof (cases "pc s = yybackup")
  case True
  then have "yystep yylex env s = do_yybackup yylex s" by (simp add: yystep_def)
  then show ?thesis using typed_backup [OF assms(1) True assms(2)] by simp
next
  case False
  then show ?thesis using typed_step [OF assms(1)] step_scanner [OF False] assms(2) by simp
qed

lemma typed_run:
  assumes "parser_typed s" "safe (scanner s)"
  shows "parser_typed ((yystep yylex env ^^ n) s) \<and> safe (scanner ((yystep yylex env ^^ n) s))"
  by (induction n) (use assms typed_safe_step in auto)

lemma typed_parse:
  assumes "length (sym s) = 26" "safe (scanner s)" "yyparse yylex env fuel s = Some t"
  shows "parser_typed t \<and> pc t \<in> {Returned, Trap, Exited}"
proof -
  have "parser_typed ((yystep yylex env ^^ fuel) (yyparse_enter env s))"
    using typed_run [OF typed_enter] assms(1,2) by (simp add: yyparse_enter_def)
  then have "parser_typed t" "halted (pc t)" using assms(3) by (auto simp: yyparse_def Let_def split: if_splits)
  then show ?thesis by (auto simp: halted_def parser_typed_def)
qed

end

section \<open>Type safety\<close>

text \<open>
  C16. The types of the parser, for any scanner: as long as the scanner delivers indices of \<open>sym\<close> as
  the values of variables and makes no invalid access itself, and whatever codes it returns, every
  state \<open>yyparse\<close> goes through is well typed: two stacks of \<open>yystacksize\<close> cells, between 200 and
  10000 of them, a path of the automaton on the one, indices of \<open>sym\<close> below the variables on the
  other, the error status between 0 and 3, and one heap block exactly when the stacks were moved.
  No access leaves an array, and no rule is reduced without its right-hand side.
\<close>

theorem yyparse_type_safe:
  assumes "\<And>l v c v' m l'. safe l \<Longrightarrow> yylex l v = LexTok c v' m l' \<Longrightarrow> safe l' \<and> (c = VARIABLE \<longrightarrow> var_value v')"
    and "\<And>l v. safe l \<Longrightarrow> yylex l v \<noteq> LexBad"
    and "length (sym s) = 26" "safe (scanner s)"
  shows "parser_typed ((yystep yylex env ^^ n) (yyparse_enter env s))"
proof -
  have "safe_scanner yylex safe" using assms(1,2) by unfold_locales blast+
  from safe_scanner.typed_run [OF this typed_enter [OF assms(3)]] assms(4) show ?thesis
    by (simp add: yyparse_enter_def)
qed

definition list_lexer :: "(int \<times> cint) list \<Rightarrow> cint \<Rightarrow> (int \<times> cint) list lexret" where
  "list_lexer l v = (case l of [] \<Rightarrow> LexTok YYEOF v [] [] | (c, w) # r \<Rightarrow> LexTok c w [] r)"

definition list_safe :: "(int \<times> cint) list \<Rightarrow> bool" where
  "list_safe l \<longleftrightarrow> list_all (\<lambda>(c, w). c = VARIABLE \<longrightarrow> var_value w) l"

lemma list_lexer_safe:
  "list_safe l \<Longrightarrow> list_lexer l v = LexTok c v' m l' \<Longrightarrow> list_safe l' \<and> (c = VARIABLE \<longrightarrow> var_value v')"
  "list_lexer l v \<noteq> LexBad"
  by (auto simp: list_lexer_def list_safe_def YYEOF_def VARIABLE_def split: list.splits)

theorem yyparse_type_safe_witness:
  "\<forall>env n. parser_typed ((yystep list_lexer env ^^ n)
     (yyparse_enter env (calc_globals 0 [(VARIABLE, 25), (61, 0), (300, 5), (- 7, 9), (VARIABLE, 3)])))"
proof (intro allI yyparse_type_safe [where safe = list_safe])
  show "list_safe (scanner (calc_globals 0 [(VARIABLE, 25), (61, 0), (300, 5), (- 7, 9), (VARIABLE, 3)]))"
    by (simp add: calc_globals_def list_safe_def VARIABLE_def var_value_def)
  show "length (sym (calc_globals 0 [(VARIABLE, 25), (61, 0), (300, 5), (- 7, 9), (VARIABLE, 3 :: cint)])) = 26"
    by (simp add: calc_globals_def)
qed (use list_lexer_safe in blast)+

end
