(* ===== verification/Scanner_Results.thy ===== *)
theory Scanner_Results
  imports Calc_Results Scanner_Chars Parser_Types
begin

text \<open>
  What the scanner promises beyond the calculator's own use of it: it satisfies the parser's
  interface \<open>safe_scanner\<close>, it reads strings, includes files, takes characters back, and destroys
  its buffers.
\<close>

section \<open>The scanner as the parser sees it\<close>

definition scanning :: "lexenv \<Rightarrow> yyscan \<Rightarrow> bool" where
  "scanning env l \<longleftrightarrow> (\<exists>W e. scan_inv env W l e)"

interpretation calc_safe: safe_scanner "yylex env" "scanning env" for env
proof
  fix l v
  assume "scanning env l"
  then obtain W e where l: "scan_inv env W l e" unfolding scanning_def by blast
  show "yylex env l v \<noteq> LexBad"
    using calc_scanner.yylex_eof [OF l, of v] calc_scanner.yylex_tok [OF l, of _ _ v] by (cases "scan_toks l") fastforce+
  fix c v' m l'
  assume lex: "yylex env l v = LexTok c v' m l'"
  show "scanning env l' \<and> (c = VARIABLE \<longrightarrow> var_value v')"
  proof (cases "scan_toks l")
    case Nil
    then show ?thesis
      using calc_scanner.yylex_eof [OF l Nil, of v] lex by (auto simp: scanning_def YYEOF_def VARIABLE_def)
  next
    case (Cons t ts)
    have "tok_ok t" using calc_scanner.toks_ok [OF l] Cons by simp
    then show ?thesis
      using calc_scanner.yylex_tok [OF l Cons, of v] lex
      by (cases t) (auto simp: scanning_def INTEGER_def VARIABLE_def var_value_def sint_variable)
  qed
qed

section \<open>A string instead of standard input\<close>

text \<open>
  C17. The calculator on a string: \<open>yy_scan_string\<close> before the first call and then \<open>yyparse\<close> end as
  the specification says on the bytes of the string before its first NUL; what is on standard input
  does not matter.
\<close>

theorem calculate_string:
  assumes "\<And>n. alloc_ok lenv n" "length str \<le> scan_limit"
  shows "\<exists>b s fuel t. yy_scan_string lenv str (scan_globals inp) = Ok (Some b, s)
    \<and> yyparse (yylex lenv) env fuel (calc_globals junk s) = Some t
    \<and> run_ends (scan_msgs (takeWhile (\<lambda>c. c \<noteq> CHR 0x00) str))
        (program (stack_limit env) (replicate 26 0) '''' (tokens (takeWhile (\<lambda>c. c \<noteq> CHR 0x00) str))) t"
proof -
  let ?T = "takeWhile (\<lambda>c. c \<noteq> CHR 0x00) str"
  have "unread inp (scan_globals inp)" by (simp add: unread_def scan_globals_def)
  moreover have "length str \<le> 2 * scan_limit + 2" using assms(2) by simp
  ultimately obtain b s where s: "yy_scan_string lenv str (scan_globals inp) = Ok (Some b, s)" "loaded ?T s"
    using scan_string_loaded [OF _ assms(1)] by blast
  have T: "pending_input s = ?T" using loaded_pending [OF s(2)] .
  have "length ?T \<le> scan_limit" using assms(2) length_takeWhile_le [of _ str] by (rule order_trans [rotated])
  then have "ready lenv (calc_globals junk s)"
    using assms(1) s(2) T by (simp add: ready_def calc_globals_def awaits_def)
  from yyparse_ends [OF this, of env] obtain fuel t where
    "yyparse (yylex lenv) env fuel (calc_globals junk s) = Some t"
    "run_ends (scan_msgs ?T) (program (stack_limit env) (replicate 26 0) '''' (tokens ?T)) t"
    using T by (auto simp: calc_globals_def)
  then show ?thesis using s(1) by blast
qed

theorem calculate_string_witness:
  "\<exists>b s fuel t. yy_scan_string (with_memory True) (''a=6*7'' @ [CHR 0x00, CHR ''x'']) (scan_globals ''9'') = Ok (Some b, s)
    \<and> yyparse (yylex (with_memory True)) roomy fuel (calc_globals 0 s) = Some t
    \<and> run_ends (scan_msgs ''a=6*7'') (program (stack_limit roomy) (replicate 26 0) '''' (tokens ''a=6*7'')) t"
  using calculate_string [of "with_memory True" "''a=6*7'' @ [CHR 0x00, CHR ''x'']" "''9''" roomy 0]
  by (simp add: scan_limit_def)

section \<open>Including a file\<close>

text \<open>
  C18. A file read in the middle of another: a buffer created on the file and pushed delivers the
  tokens of the file, to its end and nothing else; popping it then frees it and goes on with the
  including buffer exactly where it was left.
\<close>

theorem include_round_trip:
  assumes "stack_top k b s" "b < yy_next_buf s" "\<And>n. alloc_ok env n" "between R s"
    "files s g = stream_of T" "length T \<le> scan_limit" "yyin s \<noteq> Some g"
  shows "\<exists>s1 s2 u v. yy_create_buffer env (Some g) YY_BUF_SIZE s = Ok (Some (yy_next_buf s), s1)
    \<and> yypush_buffer_state env (Some (yy_next_buf s)) s1 = Ok s2
    \<and> drains env s2 (map tok_code (tokens T)) u
    \<and> yypop_buffer_state u = Ok v \<and> between R v \<and> current_buffer v = Some b \<and> yy_bufs v (yy_next_buf s) = None"
  using include_file [OF assms] .

definition two_files :: yyscan where
  "two_files = (scan_globals ''1+2'')\<lparr>files := (\<lambda>f. stream_of (if f = 0 then ''1+2'' else ''a*b''))\<rparr>"

theorem include_round_trip_witness:
  "\<exists>s s1 s2 u v. yylex_init (with_memory True) two_files = Ok s
    \<and> yy_create_buffer (with_memory True) (Some 5) YY_BUF_SIZE s = Ok (Some 1, s1)
    \<and> yypush_buffer_state (with_memory True) (Some 1) s1 = Ok s2
    \<and> drains (with_memory True) s2 (map tok_code (tokens ''a*b'')) u
    \<and> yypop_buffer_state u = Ok v \<and> between ''1+2'' v"
proof -
  have two: "unread ''1+2'' two_files" "yy_next_buf two_files = 0"
    by (simp_all add: unread_def two_files_def scan_globals_def)
  obtain s where s: "yylex_init (with_memory True) two_files = Ok s" "between ''1+2'' s" "files s = files two_files"
    "yyin s = Some 0" "yy_buffer_stack s = Some [Some 0]" "yy_buffer_stack_top s = 0" "yy_buffer_stack_max s = 1" "yy_next_buf s = 1"
    using yylex_init_fresh [OF two(1), of "with_memory True"] two(2) by auto
  have "stack_top 0 0 s" using s(5-7) by (simp add: stack_top_def)
  moreover have "files s 5 = stream_of ''a*b''" using s(3) by (simp add: two_files_def)
  ultimately show ?thesis
    using include_round_trip [of 0 0 s "with_memory True" "''1+2''" 5 "''a*b''"] s by (auto simp: scan_limit_def)
qed

section \<open>Taking characters back\<close>

text \<open>
  C38. \<open>unput\<close> and \<open>input\<close> are inverse. Between two tokens, \<open>unput (c)\<close> ends the program with ``flex
  scanner push-back overflow'' exactly when, the text moved to the end of the buffer, fewer than two
  bytes are in front of the scanner (\<open>push_room\<close>). Otherwise, whether or not the text had to be moved,
  it puts \<open>c\<close> before the input that is left, and \<open>input ()\<close> then returns \<open>c\<close> and leaves that input.
  Where no move was needed, with two bytes in front of the scanner, the scanner is between two tokens
  of these inputs again.
\<close>

theorem unput_input:
  assumes "between R s"
  shows "if push_room s < 2 then unput c s = Fatal (yy_log s @ ''flex scanner push-back overflow\<newline>'')
         else \<exists>s1 s2. unput c s = Ok s1 \<and> pending_input s1 = c # R
                \<and> input env s1 = Ok (YY_SC_TO_UI c, s2) \<and> pending_input s2 = R
                \<and> (2 \<le> yy_c_buf_p s \<longrightarrow> between (c # R) s1 \<and> between R s2)"
proof (cases "push_room s < 2")
  case True
  then show ?thesis using between_unput [OF assms, of c "yytext_ptr s"] by (simp add: unput_def)
next
  case False
  then obtain s1 where s1: "unput c s = Ok s1" "has_char c s1" "pending_input s1 = c # R"
    using between_unput [OF assms, of c "yytext_ptr s"] by (auto simp: unput_def)
  obtain s2 where s2: "input env s1 = Ok (YY_SC_TO_UI c, s2)" "pending_input s2 = R"
    using input_pending [OF s1(2), of env] s1(3) by auto
  have "between (c # R) s1 \<and> between R s2" if "2 \<le> yy_c_buf_p s"
  proof -
    have "between (c # R) s1" "yy_c_buf_p s1 < int (yy_n_chars s1)"
      using yyunput_between [OF assms that, of c "yytext_ptr s"] s1(1) by (auto simp: unput_def)
    then show ?thesis using input_between [of c R s1 env] s2(1) by auto
  qed
  then show ?thesis using False s1(1,3) s2 by auto
qed

text \<open>A scanner that has read \<open>12\<close> of a string.\<close>

definition half_read :: yyscan where
  "half_read = (scan_globals '''')\<lparr>yy_bufs := (\<lambda>b. if b = 0 then Some ((fresh_buffer (with_memory True))
     \<lparr>yy_ch_buf := ''12'' @ [CHR 0x00] @ ''3'' @ [CHR 0x00, CHR 0x00], yy_buf_size := 4, b_n_chars := 4\<rparr>) else None),
     yy_buffer_stack := Some [Some 0], yy_buffer_stack_max := 1, yy_n_chars := 4, yy_c_buf_p := 2,
     yy_hold_char := CHR ''+'', yy_init := True, yy_start := 1\<rparr>"

lemma half_read: "between ''+3'' half_read"
proof -
  let ?y = "(fresh_buffer (with_memory True))
     \<lparr>yy_ch_buf := ''12'' @ [CHR 0x00] @ ''3'' @ [CHR 0x00, CHR 0x00], yy_buf_size := 4, b_n_chars := 4\<rparr>"
  have "between (drop 2 ''12+3'' @ []) half_read"
    by (rule betweenI [where y = ?y and b = 0, OF _ _ _ _ refl])
      (simp_all add: half_read_def scan_globals_def current_buffer_def rd_def filled_def text_buffer_def fresh_buffer_def scan_limit_def)
  then show ?thesis by simp
qed

text \<open>The same text at the start of a buffer with two bytes to spare: \<open>unput\<close> has to move it.\<close>

definition at_front :: yyscan where
  "at_front = (scan_globals '''')\<lparr>yy_bufs := (\<lambda>b. if b = 0 then Some ((fresh_buffer (with_memory True))
     \<lparr>yy_ch_buf := [CHR 0x00] @ ''3'' @ [CHR 0x00, CHR 0x00] @ ''??'', yy_buf_size := 4, b_n_chars := 2\<rparr>) else None),
     yy_buffer_stack := Some [Some 0], yy_buffer_stack_max := 1, yy_n_chars := 2, yy_c_buf_p := 0,
     yy_hold_char := CHR ''+'', yy_init := True, yy_start := 1\<rparr>"

lemma at_front: "between ''+3'' at_front"
proof -
  let ?y = "(fresh_buffer (with_memory True))
     \<lparr>yy_ch_buf := [CHR 0x00] @ ''3'' @ [CHR 0x00, CHR 0x00] @ ''??'', yy_buf_size := 4, b_n_chars := 2\<rparr>"
  have "between (drop 0 ''+3'' @ []) at_front"
    by (rule betweenI [where y = ?y and b = 0, OF _ _ _ _ refl])
      (simp_all add: at_front_def scan_globals_def current_buffer_def rd_def filled_def text_buffer_def fresh_buffer_def scan_limit_def)
  then show ?thesis by simp
qed

theorem unput_input_witness:
  "(\<exists>s1 s2. unput (CHR ''7'') half_read = Ok s1 \<and> between ''7+3'' s1 \<and> input (with_memory True) s1 = Ok (55, s2) \<and> between ''+3'' s2)
   \<and> (\<exists>s1 s2. unput (CHR ''7'') at_front = Ok s1 \<and> pending_input s1 = ''7+3'' \<and> input (with_memory True) s1 = Ok (55, s2)
        \<and> pending_input s2 = ''+3'')"
proof -
  have "push_room half_read = 2" "push_room at_front = 2" "yy_c_buf_p half_read = 2"
    by (simp_all add: push_room_def half_read_def at_front_def scan_globals_def current_buffer_def fresh_buffer_def rd_def
        cong: option.case_cong)
  then show ?thesis
    using unput_input [OF half_read, of "CHR ''7''" "with_memory True"] unput_input [OF at_front, of "CHR ''7''" "with_memory True"]
    by (auto simp: YY_SC_TO_UI_def)
qed

section \<open>Destroying the scanner\<close>

text \<open>
  C39. \<open>yylex_destroy\<close> frees the current buffer only: every buffer below it on the stack stays allocated
  while the stack itself is gone. The scanner can be used again and then reads from the start of
  what standard input still holds.
\<close>

theorem destroy_leaks:
  assumes "yy_buffer_stack s = Some st" "yy_buffer_stack_top s = k" "k < length st" "st ! k = Some b" "yy_bufs s b \<noteq> None"
  shows "\<exists>t. yylex_destroy s = Ok t \<and> yy_bufs t b = None \<and> (\<forall>c. c \<noteq> b \<longrightarrow> yy_bufs t c = yy_bufs s c)
    \<and> yy_buffer_stack t = None \<and> (\<forall>R. files s 0 = stream_of R \<longrightarrow> unread R t)"
  using yylex_destroy_current [OF assms] by (simp add: unread_def yy_init_globals_def)

definition two_buffers :: yyscan where
  "two_buffers = (scan_globals ''1'')\<lparr>yy_bufs := (\<lambda>b. if b < 2 then Some (fresh_buffer (with_memory True)) else None),
     yy_buffer_stack := Some [Some 0, Some 1], yy_buffer_stack_top := 1, yy_buffer_stack_max := 2, yy_init := True\<rparr>"

theorem destroy_leaks_witness:
  "\<exists>t. yylex_destroy two_buffers = Ok t \<and> yy_bufs t 1 = None \<and> yy_bufs t 0 \<noteq> None \<and> yy_buffer_stack t = None \<and> unread ''1'' t"
  using destroy_leaks [of two_buffers "[Some 0, Some 1]" 1 1]
  by (auto simp: two_buffers_def scan_globals_def)

end
