(* ===== verification/Parser_Messages.thy ===== *)
theory Parser_Messages
  imports Parser_Machine
begin

text \<open>
  The messages of the parser, \<open>src/packetdrill/calc.tab.c\<close>: the symbol names, the verbose error
  message that \<open>YYERROR_VERBOSE\<close> compiles in (\<open>yytnamerr\<close>, \<open>yysyntax_error\<close> and the block at
  \<open>yyerrlab\<close> that finds room for it) and the trace printed under \<open>YYDEBUG\<close>. The file as it is
  built has both switches at 0; this is the code they select.

  A \<open>char const *\<close> is the list of the bytes from there to the end of its object, a \<open>char *\<close> that
  is written is a buffer with an offset; \<open>None\<close> is an access outside the object.
\<close>

section \<open>Names\<close>

definition yyrline :: "int list" where
  "yyrline = [0, 15, 15, 16, 19, 20, 23, 24, 25, 26, 27, 28, 29]"

definition yytname :: "string option list" where
  "yytname =
    [Some ''$end'', Some ''error'', Some ''$undefined'', Some ''INTEGER'', Some ''VARIABLE'',
     Some [CHR 0x27, CHR ''+'', CHR 0x27], Some [CHR 0x27, CHR ''-'', CHR 0x27],
     Some [CHR 0x27, CHR ''*'', CHR 0x27], Some [CHR 0x27, CHR ''/'', CHR 0x27],
     Some [CHR 0x27, CHR 0x5C, CHR ''n'', CHR 0x27], Some [CHR 0x27, CHR ''='', CHR 0x27],
     Some [CHR 0x27, CHR ''('', CHR 0x27], Some [CHR 0x27, CHR '')'', CHR 0x27],
     Some ''$accept'', Some ''program'', Some ''statement'', Some ''expr'', None]"

text \<open>The bytes behind \<open>yytname[i]\<close>.\<close>

definition tname :: "int \<Rightarrow> string option" where
  "tname i = (case rd yytname i of Some (Some n) \<Rightarrow> Some (n @ [CHR 0x00]) | _ \<Rightarrow> None)"

section \<open>Strings\<close>

fun yystrlen :: "string \<Rightarrow> nat option" where
  "yystrlen [] = None"
| "yystrlen (c # cs) = (if c = CHR 0x00 then Some 0 else map_option Suc (yystrlen cs))"

text \<open>Copy to offset \<open>p\<close> of \<open>buf\<close>; the offset of the terminating NUL and the buffer.\<close>

fun yystpcpy :: "string \<Rightarrow> int \<Rightarrow> string \<Rightarrow> (int \<times> string) option" where
  "yystpcpy buf p [] = None"
| "yystpcpy buf p (c # cs) =
     (case wr buf p c of
        None \<Rightarrow> None
      | Some buf' \<Rightarrow> if c = CHR 0x00 then Some (p, buf') else yystpcpy buf' (p + 1) cs)"

text \<open>\<open>if (yyres) yyres[k] = c\<close>, the null pointer being \<open>None\<close>.\<close>

type_synonym yyres = "(string \<times> int) option"

definition put_res :: "yyres \<Rightarrow> nat \<Rightarrow> char \<Rightarrow> yyres option" where
  "put_res yyres k c =
     (case yyres of
        None \<Rightarrow> Some None
      | Some (buf, p) \<Rightarrow> map_option (\<lambda>b. Some (b, p)) (wr buf (p + int k) c))"

text \<open>
  The loop over a name in double quotes, from behind the first quote: the length when the quotes
  are stripped, no length when it leaves for \<open>do_not_strip_quotes\<close>.
\<close>

fun strip_quotes :: "yyres \<Rightarrow> nat \<Rightarrow> string \<Rightarrow> (nat option \<times> yyres) option" where
  "strip_quotes yyres k [] = None"
| "strip_quotes yyres k (c # cs) =
     (if c = CHR 0x27 \<or> c = CHR '','' then Some (None, yyres)
      else if c = CHR 0x5C then
        (case cs of
           [] \<Rightarrow> None
         | d # ds \<Rightarrow>
             if d \<noteq> CHR 0x5C then Some (None, yyres)
             else (case put_res yyres k d of
                     None \<Rightarrow> None
                   | Some yyres' \<Rightarrow> strip_quotes yyres' (k + 1) ds))
      else if c = CHR 0x22 then
        (case put_res yyres k (CHR 0x00) of
           None \<Rightarrow> None
         | Some yyres' \<Rightarrow> Some (Some k, yyres'))
      else
        (case put_res yyres k c of
           None \<Rightarrow> None
         | Some yyres' \<Rightarrow> strip_quotes yyres' (k + 1) cs))"

definition yytnamerr :: "yyres \<Rightarrow> string \<Rightarrow> (nat \<times> yyres) option" where
  "yytnamerr yyres yystr =
     (case rd yystr 0 of
        None \<Rightarrow> None
      | Some c \<Rightarrow>
          (case (if c = CHR 0x22 then strip_quotes yyres 0 (tl yystr) else Some (None, yyres)) of
             None \<Rightarrow> None
           | Some (Some k, yyres') \<Rightarrow> Some (k, yyres')
           | Some (None, None) \<Rightarrow> map_option (\<lambda>n. (n, None)) (yystrlen yystr)
           | Some (None, Some (buf, p)) \<Rightarrow>
               map_option (\<lambda>(q, buf'). (nat (q - p), Some (buf', p))) (yystpcpy buf p yystr)))"

section \<open>The message\<close>

definition YYERROR_VERBOSE_ARGS_MAXIMUM :: nat where "YYERROR_VERBOSE_ARGS_MAXIMUM = 5"

definition yyunexpected :: string where "yyunexpected = ''syntax error, unexpected %s''"
definition yyexpecting :: string where "yyexpecting = '', expecting %s''"
definition yyor :: string where "yyor = '' or %s''"

text \<open>\<open>sizeof\<close> of a string constant counts its NUL.\<close>

definition sizeof_yyformat :: nat where
  "sizeof_yyformat =
     (length yyunexpected + 1) + (length yyexpecting + 1) - 1
     + (YYERROR_VERBOSE_ARGS_MAXIMUM - 2) * (length yyor + 1 - 1)"

record yyfmt_state =
  yyarg :: "string option list" \<comment> \<open>\<open>None\<close>: not yet assigned\<close>
  yycount :: nat
  yysize :: nat
  yysize_overflow :: bool
  yyformat :: string
  yyfmt :: int
  yyprefix :: string

definition add_size :: "nat \<Rightarrow> yyfmt_state \<Rightarrow> yyfmt_state" where
  "add_size n f =
     (let yysize1 = to_size (int (yysize f) + int n) in
      f\<lparr>yysize_overflow := yysize_overflow f \<or> yysize1 < yysize f, yysize := yysize1\<rparr>)"

text \<open>One expected token \<open>yyx\<close>: its name becomes an argument, the format grows.\<close>

definition expect_token :: "int \<Rightarrow> yyfmt_state \<Rightarrow> yyfmt_state option" where
  "expect_token yyx f =
     (case tname yyx of
        None \<Rightarrow> None
      | Some name \<Rightarrow>
          (case (wr (yyarg f) (int (yycount f)) (Some name), yytnamerr None name,
                 yystpcpy (yyformat f) (yyfmt f) (yyprefix f @ [CHR 0x00])) of
             (Some args, Some (n, _), Some (q, buf)) \<Rightarrow>
               Some ((add_size n f)\<lparr>yyarg := args, yycount := yycount f + 1, yyfmt := q, yyformat := buf,
                                   yyprefix := yyor\<rparr>)
           | _ \<Rightarrow> None))"

text \<open>\<open>for (yyx = yyxbegin; yyx < yyxend; ++yyx)\<close>, over the values of \<open>yyx\<close>.\<close>

fun expect_loop :: "int \<Rightarrow> nat \<Rightarrow> int list \<Rightarrow> yyfmt_state \<Rightarrow> yyfmt_state option" where
  "expect_loop pact yysize0 [] f = Some f"
| "expect_loop pact yysize0 (yyx # xs) f =
     (case rd yycheck (yyx + pact) of
        None \<Rightarrow> None
      | Some c \<Rightarrow>
          if c = yyx \<and> yyx \<noteq> YYTERROR then
            (if yycount f = YYERROR_VERBOSE_ARGS_MAXIMUM then
               map_option (\<lambda>buf. f\<lparr>yycount := 1, yysize := yysize0, yyformat := buf\<rparr>)
                 (wr (yyformat f) (int (length yyunexpected + 1) - 1) (CHR 0x00))
             else
               (case expect_token yyx f of
                  None \<Rightarrow> None
                | Some f' \<Rightarrow> expect_loop pact yysize0 xs f'))
          else expect_loop pact yysize0 xs f)"

text \<open>\<open>while ((*yyp = *yyf) != '\0')\<close>, at \<open>yyp = p\<close> of the result, \<open>yyf\<close> being the rest of the format.\<close>

fun write_message :: "string option list \<Rightarrow> nat \<Rightarrow> nat \<Rightarrow> string \<Rightarrow> string \<Rightarrow> int \<Rightarrow> string option" where
  "write_message args cnt yyi [] buf p = None"
| "write_message args cnt yyi (c # yyf) buf p =
     (case wr buf p c of
        None \<Rightarrow> None
      | Some buf1 \<Rightarrow>
          if c = CHR 0x00 then Some buf1
          else if c = CHR ''%'' then
            (case yyf of
               [] \<Rightarrow> None
             | d # yyf' \<Rightarrow>
                 if d = CHR ''s'' \<and> yyi < cnt then
                   (case rd args (int yyi) of
                      Some (Some a) \<Rightarrow>
                        (case yytnamerr (Some (buf1, p)) a of
                           Some (n, Some (buf2, _)) \<Rightarrow> write_message args cnt (yyi + 1) yyf' buf2 (p + int n)
                         | _ \<Rightarrow> None)
                    | _ \<Rightarrow> None)
                 else write_message args cnt yyi (d # yyf') buf1 (p + 1))
          else write_message args cnt yyi yyf buf1 (p + 1))"

text \<open>
  The state of the format before the loop. \<open>junk\<close> is what the array \<open>yyformat\<close> holds before it is
  written.
\<close>

definition start_format :: "(nat \<Rightarrow> char) \<Rightarrow> string \<Rightarrow> (nat \<times> yyfmt_state) option" where
  "start_format junk name =
     (case (yytnamerr None name,
            yystpcpy (map junk [0..<sizeof_yyformat]) 0 (yyunexpected @ [CHR 0x00])) of
        (Some (yysize0, _), Some (q, buf)) \<Rightarrow>
          Some (yysize0,
                \<lparr>yyarg = Some name # replicate (YYERROR_VERBOSE_ARGS_MAXIMUM - 1) None, yycount = 1,
                 yysize = yysize0, yysize_overflow = False, yyformat = buf, yyfmt = q,
                 yyprefix = yyexpecting\<rparr>)
      | _ \<Rightarrow> None)"

definition YYSIZE_MAXIMUM :: nat where "YYSIZE_MAXIMUM = to_size (- 1)"

definition make_format :: "(nat \<Rightarrow> char) \<Rightarrow> int \<Rightarrow> int \<Rightarrow> yyfmt_state option" where
  "make_format junk pact ch =
     (case YYTRANSLATE ch of
        None \<Rightarrow> None
      | Some yytype \<Rightarrow>
          (case tname yytype of
             None \<Rightarrow> None
           | Some name \<Rightarrow>
               (case start_format junk name of
                  None \<Rightarrow> None
                | Some (yysize0, f) \<Rightarrow>
                    let yyxbegin = (if pact < 0 then - pact else 0);
                        yychecklim = YYLAST - pact + 1;
                        yyxend = (if yychecklim < YYNTOKENS then yychecklim else YYNTOKENS) in
                    (case expect_loop pact yysize0 [yyxbegin..yyxend - 1] f of
                       None \<Rightarrow> None
                     | Some f' \<Rightarrow> map_option (\<lambda>n. add_size n f') (yystrlen (yyformat f'))))))"

definition yysyntax_error ::
  "(nat \<Rightarrow> char) \<Rightarrow> string option \<Rightarrow> int \<Rightarrow> int \<Rightarrow> (nat \<times> string option) option" where
  "yysyntax_error junk res st ch =
     (case rd yypact st of
        None \<Rightarrow> None
      | Some pact \<Rightarrow>
          if \<not> (YYPACT_NINF < pact \<and> pact \<le> YYLAST) then Some (0, res)
          else
            (case make_format junk pact ch of
               None \<Rightarrow> None
             | Some f \<Rightarrow>
                 if yysize_overflow f then Some (YYSIZE_MAXIMUM, res)
                 else
                   (case res of
                      None \<Rightarrow> Some (yysize f, None)
                    | Some buf \<Rightarrow>
                        map_option (\<lambda>buf'. (yysize f, Some buf'))
                          (write_message (yyarg f) (yycount f) 0 (yyformat f) buf 0))))"

section \<open>Room for the message\<close>

text \<open>\<open>yymsg\<close> points to the local \<open>yymsgbuf\<close> (\<open>None\<close>) or to a block on the heap.\<close>

record yymsg_state =
  yymsgbuf :: string
  yymsg :: "string option"
  yymsg_alloc :: nat

definition sizeof_yymsgbuf :: nat where "sizeof_yymsgbuf = 128"

definition yymsg_enter :: "(nat \<Rightarrow> char) \<Rightarrow> yymsg_state" where
  "yymsg_enter junk =
     \<lparr>yymsgbuf = map junk [0..<sizeof_yymsgbuf], yymsg = None, yymsg_alloc = sizeof_yymsgbuf\<rparr>"

definition YYSTACK_ALLOC_MAXIMUM :: nat where "YYSTACK_ALLOC_MAXIMUM = YYSIZE_MAXIMUM"

definition grow_yymsg :: "cenv \<Rightarrow> (nat \<Rightarrow> char) \<Rightarrow> nat \<Rightarrow> yymsg_state \<Rightarrow> yymsg_state" where
  "grow_yymsg env junk sz m =
     (if yymsg_alloc m < sz \<and> yymsg_alloc m < YYSTACK_ALLOC_MAXIMUM then
        let twice = to_size (2 * int sz);
            alloc = (if \<not> (sz \<le> twice \<and> twice \<le> YYSTACK_ALLOC_MAXIMUM) then YYSTACK_ALLOC_MAXIMUM else twice) in
        if malloc_ok env alloc then m\<lparr>yymsg := Some (map junk [0..<alloc]), yymsg_alloc := alloc\<rparr>
        else m\<lparr>yymsg := None, yymsg_alloc := sizeof_yymsgbuf\<rparr>
      else m)"

text \<open>The message to report, and whether control then goes to \<open>yyexhaustedlab\<close>.\<close>

definition report_error ::
  "cenv \<Rightarrow> (nat \<Rightarrow> char) \<Rightarrow> int \<Rightarrow> int \<Rightarrow> yymsg_state \<Rightarrow> (string \<times> bool \<times> yymsg_state) option" where
  "report_error env junk st ch m =
     (case yysyntax_error junk None st ch of
        None \<Rightarrow> None
      | Some (sz, _) \<Rightarrow>
          let m1 = grow_yymsg env junk sz m;
              buf = (case yymsg m1 of None \<Rightarrow> yymsgbuf m1 | Some b \<Rightarrow> b) in
          if 0 < sz \<and> sz \<le> yymsg_alloc m1 then
            (case yysyntax_error junk (Some buf) st ch of
               Some (_, Some buf') \<Rightarrow>
                 let m2 = (if yymsg m1 = None then m1\<lparr>yymsgbuf := buf'\<rparr> else m1\<lparr>yymsg := Some buf'\<rparr>) in
                 map_option (\<lambda>msg. (msg, False, m2)) (cstring 0 buf')
             | _ \<Rightarrow> None)
          else Some (''syntax error'', sz \<noteq> 0, m1))"

section \<open>The parser with verbose messages\<close>

text \<open>The block at \<open>yyerrlab\<close>; without an error to report it is the one of the terse parser.\<close>

definition do_yyerrlab_verbose ::
  "cenv \<Rightarrow> (nat \<Rightarrow> char) \<Rightarrow> yymsg_state \<times> 'l yyparser \<Rightarrow> yymsg_state \<times> 'l yyparser" where
  "do_yyerrlab_verbose env junk ms =
     (let (m, s) = ms in
      if yyerrstatus s = 0 then
        (case report_error env junk (yystate s) (yychar s) m of
           None \<Rightarrow> (m, goto Fault s)
         | Some (msg, exhausted, m') \<Rightarrow>
             let s1 = yyerror msg (s\<lparr>yynerrs := yynerrs s + 1\<rparr>) in
             (m', goto (if exhausted then yyexhaustedlab else yyerrlab1) s1))
      else (m, do_yyerrlab s))"

definition yystep_verbose ::
  "('l \<Rightarrow> cint \<Rightarrow> 'l lexret) \<Rightarrow> cenv \<Rightarrow> (nat \<Rightarrow> char) \<Rightarrow> yymsg_state \<times> 'l yyparser \<Rightarrow> yymsg_state \<times> 'l yyparser" where
  "yystep_verbose yylex env junk ms =
     (let (m, s) = ms in
      if pc s = yyerrlab then do_yyerrlab_verbose env junk ms
      else if pc s = yyreturn then (m\<lparr>yymsg := None\<rparr>, do_yyreturn s)
      else (m, yystep yylex env s))"

definition yyparse_verbose ::
  "('l \<Rightarrow> cint \<Rightarrow> 'l lexret) \<Rightarrow> cenv \<Rightarrow> (nat \<Rightarrow> char) \<Rightarrow> nat \<Rightarrow> 'l yyparser \<Rightarrow> 'l yyparser option" where
  "yyparse_verbose yylex env junk fuel s =
     (let (m, s') = (yystep_verbose yylex env junk ^^ fuel) (yymsg_enter junk, yyparse_enter env s) in
      if halted (pc s') then Some s' else None)"

section \<open>The trace\<close>

text \<open>What \<open>YYDEBUG\<close> prints of a symbol, of the state stack and of a reduction.\<close>

definition yy_symbol_print :: "int \<Rightarrow> string option" where
  "yy_symbol_print yytype =
     (case rd yytname yytype of
        Some (Some n) \<Rightarrow> Some ((if yytype < YYNTOKENS then ''token '' else ''nterm '') @ n @ '' ()'')
      | _ \<Rightarrow> None)"

definition YY_SYMBOL_PRINT :: "bool \<Rightarrow> string \<Rightarrow> int \<Rightarrow> string option" where
  "YY_SYMBOL_PRINT yydebug title yytype =
     (if yydebug then map_option (\<lambda>x. title @ '' '' @ x @ ''\<newline>'') (yy_symbol_print yytype) else Some [])"

fun stack_print_loop :: "int list \<Rightarrow> nat \<Rightarrow> nat \<Rightarrow> string option" where
  "stack_print_loop ss bottom 0 = Some []"
| "stack_print_loop ss bottom (Suc k) =
     (case rd ss (int bottom) of
        None \<Rightarrow> None
      | Some q \<Rightarrow> map_option (\<lambda>r. '' '' @ dec_int q @ r) (stack_print_loop ss (bottom + 1) k))"

definition yy_stack_print :: "int list \<Rightarrow> nat \<Rightarrow> int \<Rightarrow> string option" where
  "yy_stack_print ss bottom tp =
     map_option (\<lambda>r. ''Stack now'' @ r @ ''\<newline>'') (stack_print_loop ss bottom (nat (tp + 1 - int bottom)))"

fun reduce_print_loop :: "int \<Rightarrow> int \<Rightarrow> nat \<Rightarrow> string option" where
  "reduce_print_loop rule i 0 = Some []"
| "reduce_print_loop rule i (Suc k) =
     (case rd yyprhs rule of
        None \<Rightarrow> None
      | Some p \<Rightarrow>
          (case rd yyrhs (p + i) of
             None \<Rightarrow> None
           | Some x \<Rightarrow>
               (case yy_symbol_print x of
                  None \<Rightarrow> None
                | Some y \<Rightarrow>
                    map_option (\<lambda>r. ''   $'' @ dec_int (i + 1) @ '' = '' @ y @ ''\<newline>'' @ r)
                      (reduce_print_loop rule (i + 1) k))))"

definition yy_reduce_print :: "int \<Rightarrow> string option" where
  "yy_reduce_print rule =
     (case (rd yyr2 rule, rd yyrline rule) of
        (Some nrhs, Some lno) \<Rightarrow>
          map_option (\<lambda>r. ''Reducing stack by rule '' @ dec_int (rule - 1) @ '' (line '' @ dec_int lno @ ''):\<newline>'' @ r)
            (reduce_print_loop rule 0 (nat nrhs))
      | _ \<Rightarrow> None)"

definition yydestruct :: "bool \<Rightarrow> string option \<Rightarrow> int \<Rightarrow> string option" where
  "yydestruct yydebug msg yytype =
     YY_SYMBOL_PRINT yydebug (case msg of None \<Rightarrow> ''Deleting'' | Some m \<Rightarrow> m) yytype"

end
