(* ===== verification/Message_Correct.thy ===== *)
theory Message_Correct
  imports Parser_Messages
begin

text \<open>
  The verbose error message: the text \<open>yysyntax_error\<close> builds for every state and token, that it
  fits the size announced, and that a parser built with \<open>YYERROR_VERBOSE\<close> runs like the terse one.
\<close>

section \<open>Copying strings\<close>

lemma yystrlen_eq: "CHR 0x00 \<notin> set n \<Longrightarrow> yystrlen (n @ CHR 0x00 # r) = Some (length n)"
  by (induction n) auto

lemma wr_append: "rest \<noteq> [] \<Longrightarrow> wr (w @ rest) (int (length w)) c = Some ((w @ [c]) @ tl rest)"
  by (cases rest) (simp_all del: append_assoc add: list_update_append)

lemma yystpcpy_eq:
  "CHR 0x00 \<notin> set n \<Longrightarrow> length n < length rest \<Longrightarrow>
     yystpcpy (w @ rest) (int (length w)) (n @ CHR 0x00 # r)
       = Some (int (length (w @ n)), (w @ n) @ CHR 0x00 # drop (Suc (length n)) rest)"
proof (induction n arbitrary: w rest)
  case Nil
  then show ?case using wr_append [of rest w "CHR 0x00"] by (simp add: drop_Suc)
next
  case (Cons c n)
  then have ne: "rest \<noteq> []" and len: "length n < length (tl rest)" by auto
  have "yystpcpy ((w @ [c]) @ tl rest) (int (length (w @ [c]))) (n @ CHR 0x00 # r)
      = Some (int (length ((w @ [c]) @ n)), ((w @ [c]) @ n) @ CHR 0x00 # drop (Suc (length n)) (tl rest))"
    by (rule Cons.IH) (use Cons.prems len in auto)
  then show ?case using Cons.prems(1) wr_append [OF ne, of w c] by (auto simp: drop_Suc algebra_simps)
qed

text \<open>A name that is not in double quotes is copied as it is.\<close>

definition plain_name :: "string \<Rightarrow> bool" where
  "plain_name n \<longleftrightarrow> n \<noteq> [] \<and> CHR 0x00 \<notin> set n \<and> hd n \<noteq> CHR 0x22"

lemma yytnamerr_length: "plain_name n \<Longrightarrow> yytnamerr None (n @ [CHR 0x00]) = Some (length n, None)"
  by (cases n) (auto simp: plain_name_def yytnamerr_def rd_def yystrlen_eq)

lemma yytnamerr_copies:
  assumes "plain_name n" "length n < length rest"
  shows "yytnamerr (Some (w @ rest, int (length w))) (n @ [CHR 0x00])
       = Some (length n, Some ((w @ n) @ CHR 0x00 # drop (Suc (length n)) rest, int (length w)))"
proof -
  have "rd (n @ [CHR 0x00]) 0 = Some (hd n)" "hd n \<noteq> CHR 0x22" "CHR 0x00 \<notin> set n"
    using assms(1) by (auto simp: rd_def plain_name_def nth_append hd_conv_nth)
  then show ?thesis using yystpcpy_eq [OF _ assms(2), of w "[]"] by (simp add: yytnamerr_def)
qed

section \<open>Names in quotes\<close>

text \<open>The quoted form of a name: backslashes doubled, between double quotes.\<close>

definition quoted :: "string \<Rightarrow> string" where
  "quoted n = CHR 0x22 # concat (map (\<lambda>c. if c = CHR 0x5C then [c, c] else [c]) n) @ [CHR 0x22]"

definition quotable :: "string \<Rightarrow> bool" where
  "quotable n \<longleftrightarrow> list_all (\<lambda>c. c \<notin> {CHR 0x27, CHR '','', CHR 0x22, CHR 0x00}) n"

abbreviation quoted_char :: "char \<Rightarrow> string" where
  "quoted_char c \<equiv> (if c = CHR 0x5C then [c, c] else [c])"

lemma strip_quotes_char:
  assumes "quotable [c]"
  shows "strip_quotes res k (quoted_char c @ cs)
    = (case put_res res k c of None \<Rightarrow> None | Some res' \<Rightarrow> strip_quotes res' (Suc k) cs)"
proof -
  have "c \<noteq> CHR 0x27" "c \<noteq> CHR '',''" "c \<noteq> CHR 0x22" using assms by (simp_all add: quotable_def)
  then show ?thesis by (cases "c = CHR 0x5C") (simp_all split: option.split)
qed

lemma strip_quotes_end:
  "strip_quotes res k (CHR 0x22 # cs)
    = (case put_res res k (CHR 0x00) of None \<Rightarrow> None | Some res' \<Rightarrow> Some (Some k, res'))"
  by simp

declare strip_quotes.simps [simp del]

lemma quotable_Cons: "quotable (c # n) \<longleftrightarrow> quotable [c] \<and> quotable n"
  by (simp add: quotable_def)

lemma strip_quotes_length:
  "quotable n \<Longrightarrow> strip_quotes None k (concat (map quoted_char n) @ CHR 0x22 # r) = Some (Some (k + length n), None)"
proof (induction n arbitrary: k)
  case Nil
  then show ?case by (simp add: strip_quotes_end put_res_def)
next
  case (Cons c n)
  then show ?case
    using strip_quotes_char [of c None k] by (simp add: quotable_Cons [of c n] put_res_def del: if_split)
qed

lemma strip_quotes_copies:
  assumes "quotable n" "length n < length rest"
  shows "strip_quotes (Some ((w @ u) @ rest, int (length w))) (length u) (concat (map quoted_char n) @ CHR 0x22 # r)
       = Some (Some (length u + length n), Some ((w @ u @ n) @ CHR 0x00 # drop (Suc (length n)) rest, int (length w)))"
  using assms
proof (induction n arbitrary: u rest)
  case Nil
  then have "put_res (Some ((w @ u) @ rest, int (length w))) (length u) (CHR 0x00)
      = Some (Some ((w @ u) @ CHR 0x00 # tl rest, int (length w)))"
    using wr_append [of rest "w @ u" "CHR 0x00"] by (simp add: put_res_def)
  then show ?case by (simp add: strip_quotes_end drop_Suc)
next
  case (Cons c n)
  then have ne: "rest \<noteq> []" and len: "length n < length (tl rest)" and q: "quotable [c]" "quotable n"
    by (auto simp: quotable_Cons [of c n])
  let ?rest = "concat (map quoted_char n) @ CHR 0x22 # r"
  have "put_res (Some ((w @ u) @ rest, int (length w))) (length u) c
      = Some (Some ((w @ u @ [c]) @ tl rest, int (length w)))"
    using wr_append [OF ne, of "w @ u" c] by (simp add: put_res_def)
  then have "strip_quotes (Some ((w @ u) @ rest, int (length w))) (length u) (quoted_char c @ ?rest)
      = strip_quotes (Some ((w @ u @ [c]) @ tl rest, int (length w))) (Suc (length u)) ?rest"
    using strip_quotes_char [OF q(1)] by (simp del: append_assoc if_split)
  then show ?case using Cons.IH [OF q(2) len, of "u @ [c]"] by (simp add: drop_Suc del: if_split)
qed

lemma yytnamerr_quoted:
  assumes "quotable n"
  shows "yytnamerr None (quoted n @ [CHR 0x00]) = Some (length n, None)"
    "length n < length rest \<Longrightarrow>
       yytnamerr (Some (w @ rest, int (length w))) (quoted n @ [CHR 0x00])
         = Some (length n, Some ((w @ n) @ CHR 0x00 # drop (Suc (length n)) rest, int (length w)))"
  using strip_quotes_length [OF assms, of 0 "[CHR 0x00]"] strip_quotes_copies [OF assms, of rest w "[]" "[CHR 0x00]"]
  by (simp_all add: yytnamerr_def quoted_def rd_def del: if_split)

section \<open>The format\<close>

definition sym_name :: "int \<Rightarrow> string" where
  "sym_name x = (case rd yytname x of Some (Some n) \<Rightarrow> n | _ \<Rightarrow> [])"

definition short_name :: "string \<Rightarrow> bool" where
  "short_name n \<longleftrightarrow> plain_name n \<and> length n \<le> 10"

lemma sym_names: "list_all (\<lambda>x. tname x = Some (sym_name x @ [CHR 0x00]) \<and> short_name (sym_name x)) [0..12]"
  by code_simp

lemma sym_name: "0 \<le> x \<Longrightarrow> x \<le> 12 \<Longrightarrow> tname x = Some (sym_name x @ [CHR 0x00]) \<and> short_name (sym_name x)"
  using sym_names by (simp add: list_all_iff)

definition fmt_text :: "nat \<Rightarrow> string" where
  "fmt_text k = yyunexpected @ (if k = 0 then [] else yyexpecting @ concat (replicate (k - 1) yyor))"

lemma fmt_text_Suc: "fmt_text (Suc k) = fmt_text k @ (if k = 0 then yyexpecting else yyor)"
proof (cases k)
  case (Suc j)
  have "concat (replicate (Suc j) yyor) = concat (replicate j yyor) @ yyor" by (simp add: replicate_append_same [symmetric])
  then show ?thesis using Suc by (simp add: fmt_text_def)
qed (simp add: fmt_text_def)

lemma fmt_lengths: "length yyunexpected = 27" "length yyexpecting = 14" "length yyor = 6" "sizeof_yyformat = 60"
  by code_simp+

lemma fmt_text_length: "k \<le> 4 \<Longrightarrow> length (fmt_text k) \<le> 59 \<and> 27 \<le> length (fmt_text k)"
  by (cases k) (auto simp: fmt_text_def fmt_lengths length_concat sum_list_replicate)

lemma fmt_no_NUL: "CHR 0x00 \<notin> set yyunexpected" "CHR 0x00 \<notin> set yyexpecting" "CHR 0x00 \<notin> set yyor"
  by code_simp+

lemma fmt_text_no_NUL: "CHR 0x00 \<notin> set (fmt_text k)"
  using fmt_no_NUL by (auto simp: fmt_text_def)

abbreviation args_of :: "string list \<Rightarrow> string option list" where
  "args_of ns \<equiv> map (\<lambda>n. Some (n @ [CHR 0x00])) ns"

text \<open>The state of the format when the names \<open>E\<close> are expected instead of \<open>name\<close>.\<close>

definition formatted :: "string \<Rightarrow> string list \<Rightarrow> yyfmt_state \<Rightarrow> bool" where
  "formatted name E f \<longleftrightarrow>
     (\<exists>r. yyarg f = args_of (name # E) @ r) \<and> yycount f = Suc (length E)
     \<and> yysize f = length name + length (concat E) \<and> \<not> yysize_overflow f
     \<and> (\<exists>r. yyformat f = fmt_text (length E) @ CHR 0x00 # r) \<and> length E \<le> 4 \<and> list_all short_name (name # E)"

definition formatting :: "string \<Rightarrow> string list \<Rightarrow> yyfmt_state \<Rightarrow> bool" where
  "formatting name E f \<longleftrightarrow>
     formatted name E f \<and> length (yyarg f) = 5 \<and> length (yyformat f) = 60
     \<and> yyfmt f = int (length (fmt_text (length E))) \<and> yyprefix f = (if E = [] then yyexpecting else yyor)"

lemma concat_short: "list_all short_name E \<Longrightarrow> length (concat E) \<le> 10 * length E"
  by (induction E) (auto simp: short_name_def)

lemma formatted_size:
  assumes "formatted name E f"
  shows "yysize f \<le> 50"
proof -
  have "length (concat E) \<le> 10 * length E" "length E \<le> 4" "length name \<le> 10"
    using assms concat_short by (auto simp: formatted_def short_name_def)
  then show ?thesis using assms by (simp add: formatted_def)
qed

lemma add_size_small:
  "yysize f \<le> 50 \<Longrightarrow> n \<le> 100 \<Longrightarrow> add_size n f = f\<lparr>yysize_overflow := yysize_overflow f, yysize := yysize f + n\<rparr>"
  by (simp add: add_size_def to_size_id nat_add_distrib Let_def)

lemma start_formatting:
  assumes "short_name name"
  shows "\<exists>f. start_format junk (name @ [CHR 0x00]) = Some (length name, f) \<and> formatting name [] f"
proof -
  have n: "yytnamerr None (name @ [CHR 0x00]) = Some (length name, None)"
    using assms yytnamerr_length by (simp add: short_name_def)
  let ?b = "map junk [0..<sizeof_yyformat]"
  have len: "length yyunexpected < length ?b" by (simp add: fmt_lengths)
  have c: "yystpcpy ?b 0 (yyunexpected @ [CHR 0x00])
      = Some (int (length yyunexpected), yyunexpected @ CHR 0x00 # drop (Suc (length yyunexpected)) ?b)"
    using yystpcpy_eq [OF fmt_no_NUL(1) len, of "[]" "[]"] by simp
  show ?thesis
    unfolding start_format_def n c
    by (simp add: formatting_def formatted_def YYERROR_VERBOSE_ARGS_MAXIMUM_def fmt_text_def fmt_lengths assms)
qed

lemma expect_token_formatting:
  assumes f: "formatting name E f" and "length E < 4" and x: "tname x = Some (n @ [CHR 0x00])" "short_name n"
  shows "\<exists>f'. expect_token x f = Some f' \<and> formatting name (E @ [n]) f'"
proof -
  obtain r r' where a: "yyarg f = args_of (name # E) @ r" "length (yyarg f) = 5" "yycount f = length (args_of (name # E))"
    and fmt: "yyformat f = fmt_text (length E) @ CHR 0x00 # r'" "length (yyformat f) = 60"
      "yyfmt f = int (length (fmt_text (length E)))" "yyprefix f = (if E = [] then yyexpecting else yyor)"
    using f by (auto simp: formatting_def formatted_def)
  have r: "r \<noteq> []" using a(1,2) assms(2) by auto
  have wr: "wr (yyarg f) (int (yycount f)) (Some (n @ [CHR 0x00])) = Some (args_of (name # E @ [n]) @ tl r)"
    unfolding a(1,3) using wr_append [OF r, of "args_of (name # E)" "Some (n @ [CHR 0x00])"] by simp
  have nm: "yytnamerr None (n @ [CHR 0x00]) = Some (length n, None)"
    using x(2) yytnamerr_length by (simp add: short_name_def)
  have pre: "CHR 0x00 \<notin> set (yyprefix f)" "fmt_text (length (E @ [n])) = fmt_text (length E) @ yyprefix f"
    using fmt_no_NUL by (simp_all add: fmt(4) fmt_text_Suc)
  have "length (fmt_text (length (E @ [n]))) \<le> 59" using assms(2) fmt_text_length [of "Suc (length E)"] by simp
  then have room: "length (yyprefix f) < length (CHR 0x00 # r')"
    using fmt(1,2) unfolding pre(2) by simp
  have cp: "yystpcpy (yyformat f) (yyfmt f) (yyprefix f @ [CHR 0x00])
      = Some (int (length (fmt_text (length (E @ [n])))),
          fmt_text (length (E @ [n])) @ CHR 0x00 # drop (Suc (length (yyprefix f))) (CHR 0x00 # r'))"
    unfolding fmt(1,3) pre(2) by (rule yystpcpy_eq [OF pre(1) room])
  have sz: "add_size (length n) f = f\<lparr>yysize_overflow := yysize_overflow f, yysize := yysize f + length n\<rparr>"
    using f x(2) formatted_size by (intro add_size_small) (auto simp: formatting_def short_name_def)
  have "length (yyformat f) = length (fmt_text (length (E @ [n])) @ CHR 0x00 # drop (Suc (length (yyprefix f))) (CHR 0x00 # r'))"
    using room unfolding fmt(1) pre(2) by simp
  moreover have "length (yyarg f) = length (args_of (name # E @ [n]) @ tl r)" using r unfolding a(1) by (cases r) simp_all
  ultimately show ?thesis
    unfolding expect_token_def x(1) option.case wr nm cp prod.case sz
    using f assms(2) x(2) by (auto simp: formatting_def formatted_def)
qed

text \<open>More than four names to expect: the format goes back to the unexpected name alone.\<close>

lemma expect_overflow:
  assumes "formatting name E f"
  shows "\<exists>buf. wr (yyformat f) (int (length yyunexpected + 1) - 1) (CHR 0x00) = Some buf
    \<and> formatted name [] (f\<lparr>yycount := 1, yysize := length name, yyformat := buf\<rparr>)"
proof -
  obtain r where r: "yyformat f = fmt_text (length E) @ CHR 0x00 # r"
    using assms by (auto simp: formatting_def formatted_def)
  then obtain u where u: "yyformat f = yyunexpected @ u" "u \<noteq> []" by (auto simp: fmt_text_def)
  have "int (length yyunexpected + 1) - 1 = int (length yyunexpected)" by simp
  then have "wr (yyformat f) (int (length yyunexpected + 1) - 1) (CHR 0x00) = Some (yyunexpected @ CHR 0x00 # tl u)"
    unfolding u(1) using wr_append [OF u(2), of yyunexpected "CHR 0x00"] by (simp only:) simp
  then show ?thesis
    using assms by (auto simp: formatting_def formatted_def fmt_text_def)
qed

definition expects :: "int \<Rightarrow> int \<Rightarrow> bool" where
  "expects pact x \<longleftrightarrow> rd yycheck (x + pact) = Some x \<and> x \<noteq> YYTERROR"

text \<open>The names that go into the message: at most four.\<close>

definition shown :: "string list \<Rightarrow> string list" where
  "shown E = (if length E \<le> 4 then E else [])"

lemma expect_loop_formatted:
  assumes "formatting name E f" "list_all (\<lambda>x. 0 \<le> x \<and> x \<le> 12 \<and> rd yycheck (x + pact) \<noteq> None) xs"
  shows "\<exists>f'. expect_loop pact (length name) xs f = Some f'
    \<and> formatted name (shown (E @ map sym_name (filter (expects pact) xs))) f'"
  using assms
proof (induction xs arbitrary: E f)
  case Nil
  then show ?case by (auto simp: formatting_def formatted_def shown_def)
next
  case (Cons x xs)
  obtain c where c: "rd yycheck (x + pact) = Some c" using Cons.prems(2) by auto
  have cnt: "yycount f = Suc (length E)" "length E \<le> 4" using Cons.prems(1) by (auto simp: formatting_def formatted_def)
  have x: "tname x = Some (sym_name x @ [CHR 0x00])" "short_name (sym_name x)" using Cons.prems(2) sym_name by auto
  show ?case
  proof (cases "expects pact x")
    case False
    then show ?thesis using Cons.IH [OF Cons.prems(1)] Cons.prems(2) c by (auto simp: expects_def)
  next
    case True
    show ?thesis
    proof (cases "length E < 4")
      case False
      then show ?thesis
        using True c cnt expect_overflow [OF Cons.prems(1)]
        by (auto simp: expects_def YYERROR_VERBOSE_ARGS_MAXIMUM_def shown_def split: if_splits)
    next
      case less: True
      then obtain f' where f': "expect_token x f = Some f'" "formatting name (E @ [sym_name x]) f'"
        using expect_token_formatting [OF Cons.prems(1) _ x] by blast
      then show ?thesis
        using True c cnt less Cons.IH [OF f'(2)] Cons.prems(2)
        by (auto simp: expects_def YYERROR_VERBOSE_ARGS_MAXIMUM_def)
    qed
  qed
qed

section \<open>Writing the message\<close>

definition verbose_message :: "string \<Rightarrow> string list \<Rightarrow> string" where
  "verbose_message name E =
     ''syntax error, unexpected '' @ name
     @ (case E of [] \<Rightarrow> [] | e # es \<Rightarrow> '', expecting '' @ e @ concat (map (\<lambda>e. '' or '' @ e) es))"

text \<open>The three texts around the names.\<close>

definition lit_unexpected :: string where "lit_unexpected = ''syntax error, unexpected ''"
definition lit_expecting :: string where "lit_expecting = '', expecting ''"
definition lit_or :: string where "lit_or = '' or ''"

definition plain_text :: "string \<Rightarrow> bool" where
  "plain_text u \<longleftrightarrow> list_all (\<lambda>c. c \<noteq> CHR 0x00 \<and> c \<noteq> CHR ''%'') u"

lemma write_text:
  "plain_text u \<Longrightarrow> length u \<le> length rest \<Longrightarrow>
     write_message args cnt i (u @ v) (w @ rest) (int (length w))
       = write_message args cnt i v ((w @ u) @ drop (length u) rest) (int (length (w @ u)))"
proof (induction u arbitrary: w rest)
  case (Cons c u)
  then have ne: "rest \<noteq> []" and u: "plain_text u" "length u \<le> length (tl rest)" "c \<noteq> CHR 0x00" "c \<noteq> CHR ''%''"
    by (auto simp: plain_text_def)
  show ?case
    using wr_append [OF ne, of w c] u(3,4) Cons.IH [OF u(1,2), of "w @ [c]"] by (simp add: drop_Suc algebra_simps)
qed simp

lemma write_name:
  assumes "i < cnt" "rd args (int i) = Some (Some (n @ [CHR 0x00]))" "plain_name n" "length n < length rest"
  shows "write_message args cnt i (''%s'' @ v) (w @ rest) (int (length w))
    = write_message args cnt (Suc i) v ((w @ n) @ CHR 0x00 # drop (Suc (length n)) rest) (int (length (w @ n)))"
proof -
  have ne: "rest \<noteq> []" "length n < length (CHR ''%'' # tl rest)" using assms(4) by auto
  have "wr (w @ rest) (int (length w)) (CHR ''%'') = Some (w @ CHR ''%'' # tl rest)"
    using wr_append [OF ne(1), of w "CHR ''%''"] by simp
  moreover have "yytnamerr (Some (w @ CHR ''%'' # tl rest, int (length w))) (n @ [CHR 0x00])
      = Some (length n, Some ((w @ n) @ CHR 0x00 # drop (Suc (length n)) rest, int (length w)))"
    using yytnamerr_copies [OF assms(3) ne(2), of w] by (simp add: drop_Suc)
  ultimately show ?thesis using assms(1,2) by (simp add: add.commute)
qed

lemma write_piece:
  assumes "plain_text u" "i < cnt" "rd args (int i) = Some (Some (n @ [CHR 0x00]))" "plain_name n"
    "length (u @ n) < length rest"
  shows "\<exists>rest'. length rest' = length rest - length (u @ n) \<and>
    write_message args cnt i ((u @ ''%s'') @ v) (w @ rest) (int (length w))
      = write_message args cnt (Suc i) v ((w @ u @ n) @ rest') (int (length (w @ u @ n)))"
proof -
  have "write_message args cnt i (u @ ''%s'' @ v) (w @ rest) (int (length w))
      = write_message args cnt i (''%s'' @ v) ((w @ u) @ drop (length u) rest) (int (length (w @ u)))"
    using assms(1,5) by (intro write_text) simp_all
  also have "\<dots> = write_message args cnt (Suc i) v (((w @ u) @ n) @ CHR 0x00 # drop (Suc (length n)) (drop (length u) rest))
      (int (length ((w @ u) @ n)))"
    using assms(5) by (intro write_name assms(2,3,4)) simp
  finally show ?thesis
    using assms(5) by (intro exI [of _ "CHR 0x00 # drop (Suc (length n)) (drop (length u) rest)"]) simp
qed

lemma write_end: "rest \<noteq> [] \<Longrightarrow> write_message args cnt i (CHR 0x00 # v) (w @ rest) (int (length w)) = Some (w @ CHR 0x00 # tl rest)"
  using wr_append [of rest w "CHR 0x00"] by simp

lemma fmt_pieces: "yyunexpected = lit_unexpected @ ''%s''" "yyexpecting = lit_expecting @ ''%s''"
    "yyor = lit_or @ ''%s''"
  and fmt_plain: "plain_text lit_unexpected" "plain_text lit_expecting" "plain_text lit_or"
  by code_simp+

lemma verbose_message_lit:
  "verbose_message name E =
     lit_unexpected @ name @ (case E of [] \<Rightarrow> [] | e # es \<Rightarrow> lit_expecting @ e @ concat (map (\<lambda>e. lit_or @ e) es))"
  by (simp add: verbose_message_def lit_unexpected_def lit_expecting_def lit_or_def cong: list.case_cong)

text \<open>The arguments behind a position, one for each \<open>%s\<close>.\<close>

lemma write_ors:
  assumes "args = args_of (u @ E) @ r" "length (u @ E) \<le> cnt" "list_all plain_name E"
    "length (concat (map (\<lambda>e. lit_or @ e) E)) < length rest"
  shows "\<exists>rest'. length rest' = length rest - length (concat (map (\<lambda>e. lit_or @ e) E)) \<and>
    write_message args cnt (length u) (concat (replicate (length E) yyor) @ v) (w @ rest) (int (length w))
      = write_message args cnt (length (u @ E)) v ((w @ concat (map (\<lambda>e. lit_or @ e) E)) @ rest')
          (int (length (w @ concat (map (\<lambda>e. lit_or @ e) E))))"
  using assms
proof (induction E arbitrary: u w rest)
  case Nil
  then show ?case by (intro exI [of _ rest]) auto
next
  case (Cons e E)
  have e: "rd args (int (length u)) = Some (Some (e @ [CHR 0x00]))" "length u < cnt" "plain_name e"
    "length (lit_or @ e) < length rest"
    using Cons.prems by (auto simp: nth_append)
  obtain rest1 where r1: "length rest1 = length rest - length (lit_or @ e)"
    "write_message args cnt (length u) ((lit_or @ ''%s'') @ (concat (replicate (length E) yyor) @ v)) (w @ rest) (int (length w))
      = write_message args cnt (Suc (length u)) (concat (replicate (length E) yyor) @ v)
          ((w @ lit_or @ e) @ rest1) (int (length (w @ lit_or @ e)))"
    using write_piece [OF fmt_plain(3) e(2,1,3,4)] by blast
  have "length (concat (map (\<lambda>e. lit_or @ e) E)) < length rest1" using Cons.prems(4) r1(1) by simp
  then obtain rest2 where "length rest2 = length rest1 - length (concat (map (\<lambda>e. lit_or @ e) E))"
    "write_message args cnt (length (u @ [e])) (concat (replicate (length E) yyor) @ v)
        ((w @ lit_or @ e) @ rest1) (int (length (w @ lit_or @ e)))
      = write_message args cnt (length ((u @ [e]) @ E)) v
          (((w @ lit_or @ e) @ concat (map (\<lambda>e. lit_or @ e) E)) @ rest2)
          (int (length ((w @ lit_or @ e) @ concat (map (\<lambda>e. lit_or @ e) E))))"
    using Cons.IH [of "u @ [e]" rest1 "w @ lit_or @ e"] Cons.prems(1-3) by auto
  then show ?case using r1 fmt_pieces(3) by (intro exI [of _ rest2]) simp
qed

lemma write_expecting:
  assumes "args = args_of (name # e # es) @ r" "list_all plain_name (e # es)"
    "length (lit_expecting @ e @ concat (map (\<lambda>e. lit_or @ e) es)) < length rest"
  shows "\<exists>rest'. length rest' = length rest - length (lit_expecting @ e @ concat (map (\<lambda>e. lit_or @ e) es)) \<and>
    write_message args (Suc (Suc (length es))) (Suc 0) (yyexpecting @ concat (replicate (length es) yyor) @ v) (w @ rest) (int (length w))
      = write_message args (Suc (Suc (length es))) (Suc (Suc (length es))) v
          ((w @ lit_expecting @ e @ concat (map (\<lambda>e. lit_or @ e) es)) @ rest')
          (int (length (w @ lit_expecting @ e @ concat (map (\<lambda>e. lit_or @ e) es))))"
proof -
  let ?u = "lit_expecting @ e" and ?c = "Suc (Suc (length es))"
  have e: "rd args (int (Suc 0)) = Some (Some (e @ [CHR 0x00]))" "Suc 0 < ?c" "plain_name e" "length ?u < length rest"
    using assms by (simp_all add: rd_def)
  obtain rest1 where r1: "length rest1 = length rest - length ?u"
    "write_message args ?c (Suc 0) ((lit_expecting @ ''%s'') @ (concat (replicate (length es) yyor) @ v)) (w @ rest) (int (length w))
      = write_message args ?c (Suc (Suc 0)) (concat (replicate (length es) yyor) @ v) ((w @ ?u) @ rest1) (int (length (w @ ?u)))"
    using write_piece [OF fmt_plain(2) e(2,1,3,4)] by blast
  have "length (concat (map (\<lambda>e. lit_or @ e) es)) < length rest1" using assms(3) r1(1) by simp
  then obtain rest2 where "length rest2 = length rest1 - length (concat (map (\<lambda>e. lit_or @ e) es))"
    "write_message args ?c (length [name, e]) (concat (replicate (length es) yyor) @ v) ((w @ ?u) @ rest1) (int (length (w @ ?u)))
      = write_message args ?c (length ([name, e] @ es)) v (((w @ ?u) @ concat (map (\<lambda>e. lit_or @ e) es)) @ rest2)
          (int (length ((w @ ?u) @ concat (map (\<lambda>e. lit_or @ e) es))))"
    using write_ors [of args "[name, e]" es r ?c rest1 v "w @ ?u"] assms(1,2) by auto
  then show ?thesis using r1 fmt_pieces(2) by (intro exI [of _ rest2]) simp
qed

lemma write_verbose:
  assumes "formatted name E f" "length (verbose_message name E) < length buf"
  shows "\<exists>rest. write_message (yyarg f) (yycount f) 0 (yyformat f) buf 0 = Some (verbose_message name E @ CHR 0x00 # rest)
    \<and> length (verbose_message name E @ CHR 0x00 # rest) = length buf"
proof -
  let ?u = "lit_unexpected @ name"
  obtain r r' where f: "yyarg f = args_of (name # E) @ r" "yycount f = Suc (length E)"
    "yyformat f = fmt_text (length E) @ CHR 0x00 # r'" "list_all plain_name (name # E)"
    using assms(1) by (auto simp: formatted_def short_name_def list_all_iff)
  obtain v where v: "yyformat f = yyunexpected @ v" using f(3) by (simp add: fmt_text_def)
  have "rd (yyarg f) (int 0) = Some (Some (name @ [CHR 0x00]))" "0 < yycount f" "plain_name name" and room: "length ?u < length buf"
    using f assms(2) by (simp_all add: verbose_message_lit rd_def)
  then obtain rest1 where r1: "length rest1 = length buf - length ?u"
    "write_message (yyarg f) (yycount f) 0 (yyunexpected @ v) buf 0
      = write_message (yyarg f) (yycount f) (Suc 0) v (?u @ rest1) (int (length ?u))"
    using write_piece [OF fmt_plain(1), of 0 "yycount f" "yyarg f" name buf v "[]"] unfolding fmt_pieces(1) by auto
  show ?thesis
  proof (cases E)
    case Nil
    then have "v = CHR 0x00 # r'" using v f(3) by (simp add: fmt_text_def)
    moreover have "rest1 \<noteq> []" using r1(1) room by auto
    ultimately show ?thesis
      using r1 room v Nil write_end [of rest1 "yyarg f" "yycount f" "Suc 0" r' ?u] by (simp add: verbose_message_lit)
  next
    case (Cons e es)
    let ?e = "lit_expecting @ e @ concat (map (\<lambda>e. lit_or @ e) es)"
    have v': "v = yyexpecting @ concat (replicate (length es) yyor) @ CHR 0x00 # r'"
      using v f(3) Cons by (simp add: fmt_text_def)
    have "length ?e < length rest1" using assms(2) r1(1) Cons by (simp add: verbose_message_lit)
    then obtain rest2 where r2: "length rest2 = length rest1 - length ?e"
      "write_message (yyarg f) (yycount f) (Suc 0) v (?u @ rest1) (int (length ?u))
        = write_message (yyarg f) (yycount f) (yycount f) (CHR 0x00 # r') ((?u @ ?e) @ rest2) (int (length (?u @ ?e)))"
      using write_expecting [of "yyarg f" name e es r rest1 "CHR 0x00 # r'" ?u] f(1,2,4) Cons unfolding v' by auto
    moreover have "rest2 \<noteq> []" using r2(1) \<open>length ?e < length rest1\<close> by auto
    ultimately show ?thesis
      using r1 room v Cons \<open>length ?e < length rest1\<close> write_end [of rest2 "yyarg f" "yycount f" "yycount f" r' "?u @ ?e"]
      by (simp add: verbose_message_lit)
  qed
qed

section \<open>Every state and token\<close>

text \<open>The tokens a state accepts, and the text of its error message for a token.\<close>

definition expected :: "int \<Rightarrow> int list" where
  "expected q = filter (\<lambda>t. case grammar_action q t of Shift _ \<Rightarrow> True | Accept \<Rightarrow> True | _ \<Rightarrow> False) [0..12]"

definition error_text :: "int \<Rightarrow> int \<Rightarrow> string" where
  "error_text q t =
     (if yypact ! nat q = YYPACT_NINF then ''syntax error''
      else verbose_message (sym_name t) (shown (map sym_name (expected q))))"

definition check_range :: "int \<Rightarrow> int list" where
  "check_range pact =
     [(if pact < 0 then - pact else 0)..(if YYLAST - pact + 1 < YYNTOKENS then YYLAST - pact + 1 else YYNTOKENS) - 1]"

lemma expected_table:
  "list_all (\<lambda>q. let p = yypact ! nat q in YYPACT_NINF \<le> p \<and> p \<le> YYLAST \<and>
     (p = YYPACT_NINF \<or> filter (expects p) (check_range p) = expected q
       \<and> list_all (\<lambda>x. 0 \<le> x \<and> x \<le> 12 \<and> rd yycheck (x + p) \<noteq> None) (check_range p))) [0..21]"
  by code_simp

lemma expected_state:
  assumes "0 \<le> q" "q \<le> 21" "p = yypact ! nat q"
  shows "YYPACT_NINF \<le> p" "p \<le> YYLAST"
    "p \<noteq> YYPACT_NINF \<Longrightarrow> filter (expects p) (check_range p) = expected q"
    "p \<noteq> YYPACT_NINF \<Longrightarrow> list_all (\<lambda>x. 0 \<le> x \<and> x \<le> 12 \<and> rd yycheck (x + p) \<noteq> None) (check_range p)"
proof -
  have "q \<in> set [0..21]" using assms by (simp only: set_upto) simp
  then have "let p = yypact ! nat q in YYPACT_NINF \<le> p \<and> p \<le> YYLAST \<and>
     (p = YYPACT_NINF \<or> filter (expects p) (check_range p) = expected q
       \<and> list_all (\<lambda>x. 0 \<le> x \<and> x \<le> 12 \<and> rd yycheck (x + p) \<noteq> None) (check_range p))"
    using expected_table unfolding list_all_iff by blast
  then show "YYPACT_NINF \<le> p" "p \<le> YYLAST"
    "p \<noteq> YYPACT_NINF \<Longrightarrow> filter (expects p) (check_range p) = expected q"
    "p \<noteq> YYPACT_NINF \<Longrightarrow> list_all (\<lambda>x. 0 \<le> x \<and> x \<le> 12 \<and> rd yycheck (x + p) \<noteq> None) (check_range p)"
    unfolding assms(3) by (simp_all add: Let_def)
qed

lemma yytranslate_range: "list_all (\<lambda>t. 0 \<le> t \<and> t \<le> 12) yytranslate" "length yytranslate = 260"
  by code_simp+

lemma YYTRANSLATE_token: "\<exists>t. YYTRANSLATE ch = Some t \<and> 0 \<le> t \<and> t \<le> 12"
  using yytranslate_range
  by (auto simp: YYTRANSLATE_def YYMAXUTOK_def YYUNDEFTOK_def rd_def list_all_length nat_less_iff)

lemma make_format_formatted:
  assumes "0 \<le> q" "q \<le> 21" "p = yypact ! nat q" "p \<noteq> YYPACT_NINF" "YYTRANSLATE ch = Some t"
  defines "E \<equiv> shown (map sym_name (expected q))"
  shows "\<exists>f. make_format junk p ch = Some (f\<lparr>yysize := yysize f + length (fmt_text (length E))\<rparr>)
    \<and> formatted (sym_name t) E f"
proof -
  have t: "tname t = Some (sym_name t @ [CHR 0x00])" "short_name (sym_name t)"
    using YYTRANSLATE_token [of ch] assms(5) sym_name by auto
  obtain f0 where f0: "start_format junk (sym_name t @ [CHR 0x00]) = Some (length (sym_name t), f0)" "formatting (sym_name t) [] f0"
    using start_formatting [OF t(2)] by blast
  obtain f where f: "expect_loop p (length (sym_name t)) (check_range p) f0 = Some f" "formatted (sym_name t) E f"
    using expect_loop_formatted [OF f0(2) expected_state(4) [OF assms(1-4)]] expected_state(3) [OF assms(1-4)]
    by (auto simp: E_def)
  have len: "yystrlen (yyformat f) = Some (length (fmt_text (length E)))"
    using f(2) yystrlen_eq [OF fmt_text_no_NUL] by (auto simp: formatted_def)
  have "length E \<le> 4" by (simp add: E_def shown_def)
  then have "add_size (length (fmt_text (length E))) f = f\<lparr>yysize := yysize f + length (fmt_text (length E))\<rparr>"
    using add_size_small [OF formatted_size [OF f(2)]] fmt_text_length [of "length E"] by simp
  then have "make_format junk p ch = Some (f\<lparr>yysize := yysize f + length (fmt_text (length E))\<rparr>)"
    using f(1) len by (simp add: make_format_def assms(5) t(1) f0(1) check_range_def Let_def del: if_split)
  then show ?thesis using f(2) by blast
qed

lemma fmt_text_message:
  "length (verbose_message name E) + 2 * Suc (length E) = length name + length (concat E) + length (fmt_text (length E))"
proof -
  have "length (concat (map (\<lambda>e. lit_or @ e) es)) + 2 * length es
      = length (concat es) + length (concat (replicate (length es) yyor))" for es
    by (induction es) (simp_all add: fmt_pieces)
  then show ?thesis by (cases E) (simp_all add: verbose_message_lit fmt_text_def fmt_pieces algebra_simps)
qed

text \<open>The size announced is the one of the format, with two bytes more for each name.\<close>

lemma yysyntax_error_message:
  assumes q: "0 \<le> q" "q \<le> 21" "yypact ! nat q \<noteq> YYPACT_NINF" and t: "YYTRANSLATE ch = Some t"
  defines "n \<equiv> length (error_text q t) + 2 * Suc (length (shown (map sym_name (expected q))))"
  shows "yysyntax_error junk None q ch = Some (n, None)" "n \<le> 128"
    "n \<le> length buf \<Longrightarrow> \<exists>rest. yysyntax_error junk (Some buf) q ch = Some (n, Some (error_text q t @ CHR 0x00 # rest))
       \<and> length (error_text q t @ CHR 0x00 # rest) = length buf"
proof -
  let ?p = "yypact ! nat q" and ?E = "shown (map sym_name (expected q))"
  have msg: "error_text q t = verbose_message (sym_name t) ?E" using q(3) by (simp add: error_text_def)
  obtain f where f: "make_format junk ?p ch = Some (f\<lparr>yysize := yysize f + length (fmt_text (length ?E))\<rparr>)"
    "formatted (sym_name t) ?E f" using make_format_formatted [OF q(1,2) refl q(3) t] by blast
  have n: "yysize f + length (fmt_text (length ?E)) = n"
    using f(2) fmt_text_message [of "sym_name t" ?E] by (simp add: formatted_def n_def msg)
  have p: "rd yypact q = Some ?p" "YYPACT_NINF < ?p" "?p \<le> YYLAST"
    using q expected_state(1,2) [OF q(1,2) refl] by (auto simp: rd_def table_lengths)
  show "yysyntax_error junk None q ch = Some (n, None)"
    using p f n by (simp add: yysyntax_error_def formatted_def)
  show "n \<le> 128" using n formatted_size [OF f(2)] fmt_text_length [of "length ?E"] by (simp add: shown_def split: if_splits)
  assume "n \<le> length buf"
  then have "length (verbose_message (sym_name t) ?E) < length buf" by (simp add: n_def msg)
  from write_verbose [OF f(2) this]
  show "\<exists>rest. yysyntax_error junk (Some buf) q ch = Some (n, Some (error_text q t @ CHR 0x00 # rest))
       \<and> length (error_text q t @ CHR 0x00 # rest) = length buf"
    using p f n by (auto simp: yysyntax_error_def formatted_def msg)
qed

lemma yysyntax_error_terse:
  "0 \<le> q \<Longrightarrow> q \<le> 21 \<Longrightarrow> yypact ! nat q = YYPACT_NINF \<Longrightarrow> yysyntax_error junk res q ch = Some (0, res)"
  by (simp add: yysyntax_error_def rd_def table_lengths)

section \<open>Reporting\<close>

text \<open>The local buffer is always large enough, so that nothing is ever allocated for a message.\<close>

definition local_msg :: "yymsg_state \<Rightarrow> bool" where
  "local_msg m \<longleftrightarrow> yymsg m = None \<and> yymsg_alloc m = sizeof_yymsgbuf \<and> length (yymsgbuf m) = sizeof_yymsgbuf"

lemma yymsg_enter_local: "local_msg (yymsg_enter junk)"
  by (simp add: local_msg_def yymsg_enter_def)

lemma verbose_message_no_NUL:
  assumes "list_all short_name (name # E)"
  shows "CHR 0x00 \<notin> set (verbose_message name E)"
proof -
  have "CHR 0x00 \<notin> set lit_unexpected" "CHR 0x00 \<notin> set lit_expecting" "CHR 0x00 \<notin> set lit_or"
    using fmt_plain by (auto simp: plain_text_def list_all_iff)
  then show ?thesis
    using assms by (cases E) (auto simp: verbose_message_lit short_name_def plain_name_def list_all_iff)
qed

lemma expected_short: "list_all short_name (shown (map sym_name (expected q)))"
  using sym_name by (auto simp: shown_def expected_def list_all_iff)

lemma report_error_text:
  assumes "0 \<le> q" "q \<le> 21" "YYTRANSLATE ch = Some t" "local_msg m"
  shows "\<exists>m'. report_error env junk q ch m = Some (error_text q t, False, m') \<and> local_msg m'"
proof (cases "yypact ! nat q = YYPACT_NINF")
  case True
  then show ?thesis
    using assms yysyntax_error_terse [OF assms(1,2) True] by (simp add: report_error_def grow_yymsg_def error_text_def)
next
  case False
  let ?n = "length (error_text q t) + 2 * Suc (length (shown (map sym_name (expected q))))"
  note E = yysyntax_error_message [OF assms(1,2) False assms(3)]
  have buf: "?n \<le> length (yymsgbuf m)" "grow_yymsg env junk ?n m = m" "?n \<le> yymsg_alloc m"
    using E(2) assms(4) by (simp_all add: local_msg_def sizeof_yymsgbuf_def grow_yymsg_def)
  obtain rest where r: "yysyntax_error junk (Some (yymsgbuf m)) q ch = Some (?n, Some (error_text q t @ CHR 0x00 # rest))"
    "length (error_text q t @ CHR 0x00 # rest) = length (yymsgbuf m)"
    using E(3) [OF buf(1)] by blast
  have "short_name (sym_name t)" using YYTRANSLATE_token [of ch] assms(3) sym_name by auto
  then have "CHR 0x00 \<notin> set (error_text q t)"
    using False verbose_message_no_NUL expected_short by (simp add: error_text_def)
  then show ?thesis
    using E(1) buf r assms(4) by (simp add: report_error_def local_msg_def cstring_def takeWhile_no_NUL)
qed

section \<open>The verbose parser runs like the terse one\<close>

text \<open>Control reaches \<open>yyerrlab\<close> in a state of the automaton only.\<close>

definition errlab_ok :: "'l yyparser \<Rightarrow> bool" where
  "errlab_ok s \<longleftrightarrow> (pc s = yyerrlab \<longrightarrow> 0 \<le> yystate s \<and> yystate s \<le> 21)"

lemma lookahead_errlab:
  "pc (shift_token n s) \<noteq> yyerrlab"
  "pc (use_lookahead p s) = yyerrlab \<Longrightarrow> yystate (use_lookahead p s) = yystate s"
  "pc (translate_lookahead p s) = yyerrlab \<Longrightarrow> yystate (translate_lookahead p s) = yystate s"
proof -
  show 1: "pc (shift_token n s) \<noteq> yyerrlab" for n and s :: "'a yyparser"
    by (simp add: shift_token_def split: option.split)
  show 2: "pc (use_lookahead p s) = yyerrlab \<Longrightarrow> yystate (use_lookahead p s) = yystate s" for p and s :: "'a yyparser"
    using 1 by (auto simp: use_lookahead_def Let_def split: option.splits if_splits)
  show "pc (translate_lookahead p s) = yyerrlab \<Longrightarrow> yystate (translate_lookahead p s) = yystate s"
    by (auto simp: translate_lookahead_def split: option.splits if_splits dest: 2)
qed

lemma backup_errlab: "pc s = yybackup \<Longrightarrow> errlab_ok (do_yybackup yylex s)"
  by (auto simp: do_yybackup_def errlab_ok_def Let_def rd_def table_lengths
      split: option.splits if_splits lexret.splits dest!: lookahead_errlab(3))

lemma reduce_errlab: "pc (do_yyreduce s) \<noteq> yyerrlab"
proof -
  have "yy_action s \<noteq> Inl yyerrlab" "pc (finish_reduction s) \<noteq> yyerrlab" for s :: "'a yyparser"
    by (auto simp: yy_action_def finish_reduction_def Let_def split: option.splits if_splits prod.splits)
  then show ?thesis by (auto simp: do_yyreduce_def split: option.splits sum.splits)
qed

lemma yystep_errlab:
  assumes "errlab_ok s"
  shows "errlab_ok (yystep yylex env s)"
proof (cases "pc s")
  case yysetstate
  then show ?thesis
    by (auto simp: yystep_def errlab_ok_def do_yysetstate_def grow_stacks_def Let_def split: option.splits if_splits)
next
  case yydefault
  then show ?thesis
    by (auto simp: yystep_def errlab_ok_def do_yydefault_def rd_def table_lengths split: option.splits if_splits)
next
  case yyerrloop
  then show ?thesis by (auto simp: yystep_def errlab_ok_def do_yyerrloop_def Let_def split: option.splits if_splits)
next
  case yybackup
  then show ?thesis by (simp add: yystep_def backup_errlab)
next
  case yyreduce
  then show ?thesis by (simp add: yystep_def errlab_ok_def reduce_errlab)
qed (use assms in \<open>simp_all add: yystep_def errlab_ok_def do_yynewstate_def do_yyerrlab_def do_yyerrorlab_def
    do_yyerrlab1_def do_yyreturn_def Let_def split: option.split\<close>)

section \<open>What is on standard error does not matter\<close>

abbreviation says :: "string \<Rightarrow> 'l yyparser \<Rightarrow> 'l yyparser" where
  "says e s \<equiv> s\<lparr>stderr := e\<rparr>"

text \<open>Bring the assignment to standard error to the outside.\<close>

lemma says_out:
  "(says e s)\<lparr>pc := v0\<rparr> = says e (s\<lparr>pc := v0\<rparr>)"
  "(says e s)\<lparr>yychar := v1\<rparr> = says e (s\<lparr>yychar := v1\<rparr>)"
  "(says e s)\<lparr>yylval := v2\<rparr> = says e (s\<lparr>yylval := v2\<rparr>)"
  "(says e s)\<lparr>yynerrs := v3\<rparr> = says e (s\<lparr>yynerrs := v3\<rparr>)"
  "(says e s)\<lparr>yystate := v4\<rparr> = says e (s\<lparr>yystate := v4\<rparr>)"
  "(says e s)\<lparr>yyn := v5\<rparr> = says e (s\<lparr>yyn := v5\<rparr>)"
  "(says e s)\<lparr>yyresult := v6\<rparr> = says e (s\<lparr>yyresult := v6\<rparr>)"
  "(says e s)\<lparr>yyerrstatus := v7\<rparr> = says e (s\<lparr>yyerrstatus := v7\<rparr>)"
  "(says e s)\<lparr>yytoken := v8\<rparr> = says e (s\<lparr>yytoken := v8\<rparr>)"
  "(says e s)\<lparr>yyss := v9\<rparr> = says e (s\<lparr>yyss := v9\<rparr>)"
  "(says e s)\<lparr>yyssp := v10\<rparr> = says e (s\<lparr>yyssp := v10\<rparr>)"
  "(says e s)\<lparr>yyvs := v11\<rparr> = says e (s\<lparr>yyvs := v11\<rparr>)"
  "(says e s)\<lparr>yyvsp := v12\<rparr> = says e (s\<lparr>yyvsp := v12\<rparr>)"
  "(says e s)\<lparr>yystacksize := v13\<rparr> = says e (s\<lparr>yystacksize := v13\<rparr>)"
  "(says e s)\<lparr>yyval := v14\<rparr> = says e (s\<lparr>yyval := v14\<rparr>)"
  "(says e s)\<lparr>yylen := v15\<rparr> = says e (s\<lparr>yylen := v15\<rparr>)"
  "(says e s)\<lparr>yyss_moved := v16\<rparr> = says e (s\<lparr>yyss_moved := v16\<rparr>)"
  "(says e s)\<lparr>heap_blocks := v17\<rparr> = says e (s\<lparr>heap_blocks := v17\<rparr>)"
  "(says e s)\<lparr>sym := v18\<rparr> = says e (s\<lparr>sym := v18\<rparr>)"
  "(says e s)\<lparr>stdout := v19\<rparr> = says e (s\<lparr>stdout := v19\<rparr>)"
  "(says e s)\<lparr>scanner := v20\<rparr> = says e (s\<lparr>scanner := v20\<rparr>)"
  by simp_all

lemma says_action: "yy_action (says e s) = map_sum id (says e) (yy_action s)"
  by (cases "rd (yyvs s) (yyvsp s)"; cases "rd (yyvs s) (yyvsp s - 2)"; cases "rd (yyvs s) (yyvsp s - 1)")
    (simp_all add: yy_action_def Let_def says_out split: option.split)

lemma says_finish: "finish_reduction (says e s) = says e (finish_reduction s)"
  by (simp add: finish_reduction_def YYPOPSTACK_def Let_def says_out split: option.split)

lemma says_reduce: "do_yyreduce (says e s) = says e (do_yyreduce s)"
  by (simp add: do_yyreduce_def says_out says_action says_finish split: option.split sum.split)

lemma says_setstate: "do_yysetstate env (says e s) = says e (do_yysetstate env s)"
  by (cases "wr (yyss s) (yyssp s) (yystate s)")
    (simp_all add: do_yysetstate_def grow_stacks_def Let_def says_out)

lemma says_errloop: "do_yyerrloop (says e s) = says e (do_yyerrloop s)"
  by (simp add: do_yyerrloop_def YYPOPSTACK_def Let_def says_out split: option.split)

lemma says_default: "do_yydefault (says e s) = says e (do_yydefault s)"
  by (cases "rd yydefact (yystate s)") (simp_all add: do_yydefault_def says_out)

lemma says_errorlab: "do_yyerrorlab (says e s) = says e (do_yyerrorlab s)"
  by (cases "rd (yyss s) (yyssp s - yylen s)") (simp_all add: do_yyerrorlab_def YYPOPSTACK_def says_out)

lemma says_return: "do_yyreturn (says e s) = says e (do_yyreturn s)"
  by (simp add: do_yyreturn_def YYPOPSTACK_def Let_def says_out)

lemmas says_blocks = says_setstate says_reduce says_errloop says_default says_errorlab says_return says_out

lemma says_step_same:
  "pc s \<notin> {yybackup, yyerrlab, yyexhaustedlab} \<Longrightarrow> yystep yylex env (says e s) = says e (yystep yylex env s)"
  by (cases "pc s") (simp_all add: yystep_def do_yynewstate_def do_yyerrlab1_def says_blocks)

section \<open>The runs\<close>

text \<open>After an error was reported only these blocks are entered: the grammar has no rule with \<open>error\<close>.\<close>

definition giving_up :: "yylabel \<Rightarrow> bool" where
  "giving_up l \<longleftrightarrow> l \<in> {yyerrlab1, yyerrloop, yyabortlab, yyreturn, Returned, Fault}"

lemma no_error_rule:
  assumes "rd yypact q = Some p"
  shows "error_shift p = None"
proof -
  have "p \<in> set yypact" using assms by (auto simp: rd_def split: if_splits)
  moreover have "list_all (\<lambda>p. error_shift p = None) yypact" by code_simp
  ultimately show ?thesis by (simp add: list_all_iff)
qed

lemma giving_up_step:
  assumes "giving_up (pc s)"
  shows "giving_up (pc (yystep yylex env s))" "stderr (yystep yylex env s) = stderr s"
    "yystep yylex env (says e s) = says e (yystep yylex env s)"
proof -
  have loop: "giving_up (pc (do_yyerrloop s))" "stderr (do_yyerrloop s) = stderr s"
    by (simp_all add: do_yyerrloop_def giving_up_def YYPOPSTACK_def Let_def no_error_rule split: option.split)
  have ret: "giving_up (pc (do_yyreturn s))" "stderr (do_yyreturn s) = stderr s"
    by (simp_all add: do_yyreturn_def giving_up_def YYPOPSTACK_def Let_def)
  show "giving_up (pc (yystep yylex env s))" "stderr (yystep yylex env s) = stderr s"
    using assms loop ret by (auto simp: giving_up_def yystep_def do_yyerrlab1_def)
  show "yystep yylex env (says e s) = says e (yystep yylex env s)"
    by (rule says_step_same) (use assms in \<open>auto simp: giving_up_def\<close>)
qed

lemma errlab_gives_up: "pc s = yyerrlab \<Longrightarrow> giving_up (pc (yystep yylex env s))"
  by (simp add: yystep_def do_yyerrlab_def giving_up_def Let_def)

text \<open>
  How the verbose run (\<open>v\<close>) compares with the terse one (\<open>t\<close>): equal until an error is reported, then
  different in that one message.
\<close>

inductive rephrased :: "'l yyparser \<Rightarrow> 'l yyparser \<Rightarrow> bool" for t where
  unreported: "rephrased t t"
| reported: "stderr t = w @ ''syntax error\<newline>'' \<Longrightarrow> 0 \<le> q \<Longrightarrow> q \<le> 21 \<Longrightarrow> YYTRANSLATE c = Some k \<Longrightarrow> giving_up (pc t) \<Longrightarrow>
     rephrased t (says (w @ error_text q k @ ''\<newline>'') t)"

lemma rephrased_pc: "rephrased t v \<Longrightarrow> pc v = pc t"
  by (auto elim: rephrased.cases)

lemma verbose_reports:
  assumes "errlab_ok s" "local_msg m" "pc s = yyerrlab" "yyerrstatus s = 0"
  shows "\<exists>m' v. yystep_verbose yylex env junk (m, s) = (m', v) \<and> local_msg m' \<and> rephrased (yystep yylex env s) v"
proof -
  obtain k where k: "YYTRANSLATE (yychar s) = Some k" using YYTRANSLATE_token by blast
  have q: "0 \<le> yystate s" "yystate s \<le> 21" using assms(1,3) by (auto simp: errlab_ok_def)
  obtain m' where m': "report_error env junk (yystate s) (yychar s) m = Some (error_text (yystate s) k, False, m')" "local_msg m'"
    using report_error_text [OF q k assms(2)] by blast
  let ?t = "yystep yylex env s" and ?e = "stderr s @ error_text (yystate s) k @ ''\<newline>''"
  have "yystep_verbose yylex env junk (m, s) = (m', says ?e ?t)"
    using m'(1) assms(3,4) by (simp add: yystep_verbose_def do_yyerrlab_verbose_def yystep_def do_yyerrlab_def yyerror_def says_out)
  moreover have "stderr ?t = stderr s @ ''syntax error\<newline>''"
    using assms(3,4) by (simp add: yystep_def do_yyerrlab_def yyerror_def Let_def)
  then have "rephrased ?t (says ?e ?t)" using reported [OF _ q k errlab_gives_up [OF assms(3)]] by blast
  ultimately show ?thesis using m'(2) by blast
qed

lemma verbose_step:
  assumes "errlab_ok s" "local_msg m" "rephrased s v"
  shows "\<exists>m' v'. yystep_verbose yylex env junk (m, v) = (m', v') \<and> local_msg m' \<and> rephrased (yystep yylex env s) v'"
  using assms(3)
proof cases
  case unreported
  show ?thesis
  proof (cases "pc s = yyerrlab \<and> yyerrstatus s = 0")
    case True
    then show ?thesis using verbose_reports assms(1,2) unreported by blast
  next
    case False
    then show ?thesis
      using assms(2) rephrased.unreported unreported
      by (auto simp: yystep_verbose_def do_yyerrlab_verbose_def yystep_def local_msg_def)
  qed
next
  case (reported w q c k)
  have "yystep_verbose yylex env junk (m, v) = (m, yystep yylex env v)
      \<or> yystep_verbose yylex env junk (m, v) = (m\<lparr>yymsg := None\<rparr>, yystep yylex env v)"
    using reported(1,6) by (auto simp: yystep_verbose_def giving_up_def yystep_def)
  moreover have "rephrased (yystep yylex env s) (yystep yylex env v)"
    unfolding reported(1) giving_up_step(3) [OF reported(6)]
    using giving_up_step(1,2) [OF reported(6)] reported(2-5) by (intro rephrased.reported) simp_all
  ultimately show ?thesis using assms(2) by (auto simp: local_msg_def)
qed

lemma verbose_run:
  assumes "errlab_ok s" "local_msg m" "rephrased s v"
  shows "\<exists>m' v'. (yystep_verbose yylex env junk ^^ n) (m, v) = (m', v') \<and> rephrased ((yystep yylex env ^^ n) s) v'"
  using assms
proof (induction n arbitrary: m v s)
  case (Suc n)
  from verbose_step [OF Suc.prems] obtain m' v' where
    "yystep_verbose yylex env junk (m, v) = (m', v')" "local_msg m'" "rephrased (yystep yylex env s) v'" by blast
  then show ?case using Suc.IH [OF yystep_errlab [OF Suc.prems(1)]] by (simp add: funpow_swap1 del: funpow.simps add: funpow_Suc_right)
qed auto

lemma yyparse_verbose_rephrased:
  "rel_option rephrased (yyparse yylex env fuel s) (yyparse_verbose yylex env junk fuel s)"
proof -
  have "errlab_ok (yyparse_enter env s)" by (simp add: errlab_ok_def yyparse_enter_def)
  then obtain m' v where
    "(yystep_verbose yylex env junk ^^ fuel) (yymsg_enter junk, yyparse_enter env s) = (m', v)"
    "rephrased ((yystep yylex env ^^ fuel) (yyparse_enter env s)) v"
    using verbose_run [OF _ yymsg_enter_local rephrased.unreported] by blast
  then show ?thesis using rephrased_pc by (fastforce simp: yyparse_verbose_def yyparse_def Let_def)
qed

section \<open>The properties\<close>

text \<open>
  C37. \<open>yytnamerr\<close> undoes the quotes of a token name: a name without apostrophe, comma, double quote
  and NUL, written between double quotes with its backslashes doubled, is stored as it was with a
  NUL behind it, and its length is returned, also when nothing is to be stored; no other byte of the
  buffer changes.
\<close>

theorem yytnamerr_unquotes:
  assumes "quotable n" "length n < length rest"
  shows "yytnamerr None (quoted n @ [CHR 0x00]) = Some (length n, None)
    \<and> yytnamerr (Some (w @ rest, int (length w))) (quoted n @ [CHR 0x00])
        = Some (length n, Some ((w @ n) @ CHR 0x00 # drop (Suc (length n)) rest, int (length w)))"
  using yytnamerr_quoted [OF assms(1)] assms(2) by blast

theorem yytnamerr_unquotes_witness:
  "yytnamerr (Some (''a....z'', 1)) (quoted [CHR ''x'', CHR 0x5C] @ [CHR 0x00])
     = Some (2, Some ([CHR ''a'', CHR ''x'', CHR 0x5C, CHR 0x00, CHR ''.'', CHR ''z''], 1))"
  using yytnamerr_unquotes [of "[CHR ''x'', CHR 0x5C]" "''....z''" "''a''"] by (simp add: quotable_def)

text \<open>
  C20. The error message of the verbose parser: in every state and for every token it is "syntax error"
  in the states that act without looking at it, and otherwise names the unexpected token and, when
  they are at most four, the tokens the state accepts. The local buffer of 128 bytes always
  suffices, so that nothing is allocated and the memory error is never raised.
\<close>

theorem verbose_message_text:
  assumes "0 \<le> q" "q \<le> 21" "YYTRANSLATE ch = Some t" "local_msg m"
  shows "\<exists>m'. report_error env junk q ch m = Some (error_text q t, False, m') \<and> local_msg m'"
  by (rule report_error_text [OF assms])

definition roomy_env :: cenv where
  "roomy_env = \<lparr>malloc_ok = (\<lambda>_. True), fresh_ss = (\<lambda>_. 77), fresh_vs = (\<lambda>_. 99)\<rparr>"

theorem verbose_message_text_witness:
  "\<exists>m'. report_error roomy_env (\<lambda>_. CHR ''?'') 5 41 (yymsg_enter (\<lambda>_. CHR ''?''))
     = Some (''syntax error, unexpected '' @ [CHR 0x27] @ '')'' @ [CHR 0x27] @ '', expecting INTEGER or VARIABLE or ''
             @ [CHR 0x27] @ ''('' @ [CHR 0x27], False, m')"
proof -
  have "YYTRANSLATE 41 = Some 12" by code_simp
  moreover have "error_text 5 12 = ''syntax error, unexpected '' @ [CHR 0x27] @ '')'' @ [CHR 0x27]
      @ '', expecting INTEGER or VARIABLE or '' @ [CHR 0x27] @ ''('' @ [CHR 0x27]" by code_simp
  ultimately show ?thesis
    using verbose_message_text [of 5 41 12 "yymsg_enter (\<lambda>_. CHR ''?'')" roomy_env "\<lambda>_. CHR ''?''"] yymsg_enter_local by auto
qed

text \<open>
  C19. Compiling with \<open>YYERROR_VERBOSE\<close> changes one message and nothing else: whatever the scanner, the
  verbose parser runs for as long as the terse one and ends in the same state, except that when a
  syntax error was reported the last line on standard error is the verbose message.
\<close>

theorem yyparse_verbose_agrees:
  "rel_option rephrased (yyparse yylex env fuel s) (yyparse_verbose yylex env junk fuel s)"
  by (rule yyparse_verbose_rephrased)

end
