(* ===== verification/Sockets.thy ===== *)
theory Sockets
  imports Prelude
begin

text \<open>
  What the C programs see of a connected socket, and the interface between a function that
  delivers single characters and the functions that collect them into lines.

  \<^item> A connection is the list of what successive calls of \<open>recv\<close> or \<open>read\<close> meet: some bytes, or an
    error number. A call takes at most the bytes it asked for and leaves the others; after the
    last item, and from an empty one on, the peer has closed the connection, and every call
    returns no bytes.
  \<^item> \<open>arrives\<close> is the text a reader gets that retries interrupted calls, and \<open>ends\<close> how it stops:
    \<open>None\<close> for the end of the connection, or the error number.
  \<^item> \<open>read_line_spec\<close> is what a line reader with room for \<open>m\<close> characters promises.
\<close>

section \<open>Connections\<close>

definition EINTR :: int where "EINTR = 4"
definition EMSGSIZE :: int where "EMSGSIZE = 90"

datatype item = Got string | Err int

type_synonym conn = "item list"

datatype io = Bytes string | Fail int

fun recv :: "nat \<Rightarrow> conn \<Rightarrow> io \<times> conn" where
  "recv n [] = (Bytes '''', [])"
| "recv n (Got cs # r) =
     (if cs = [] then (Bytes cs, Got cs # r)
      else if length cs \<le> n then (Bytes cs, r)
      else (Bytes (take n cs), Got (drop n cs) # r))"
| "recv n (Err e # r) = (Fail e, r)"

fun arrives :: "conn \<Rightarrow> string" where
  "arrives [] = ''''"
| "arrives (Got cs # r) = (if cs = [] then '''' else cs @ arrives r)"
| "arrives (Err e # r) = (if e = EINTR then arrives r else '''')"

fun ends :: "conn \<Rightarrow> int option" where
  "ends [] = None"
| "ends (Got cs # r) = (if cs = [] then None else ends r)"
| "ends (Err e # r) = (if e = EINTR then ends r else Some e)"

lemma recv_Fail: "recv n ev = (Fail e, ev') \<Longrightarrow> ev = Err e # ev'"
  by (cases "(n, ev)" rule: recv.cases) (auto split: if_splits)

lemma recv_Bytes_length: "recv n ev = (Bytes cs, ev') \<Longrightarrow> length cs \<le> n"
  by (cases "(n, ev)" rule: recv.cases) (auto split: if_splits)

lemma recv_Bytes:
  "recv n ev = (Bytes cs, ev') \<Longrightarrow> cs \<noteq> [] \<Longrightarrow> arrives ev = cs @ arrives ev' \<and> ends ev = ends ev'"
  by (cases "(n, ev)" rule: recv.cases) (auto split: if_splits)

lemma recv_none:
  "recv n ev = (Bytes '''', ev') \<Longrightarrow> 0 < n \<Longrightarrow> arrives ev = '''' \<and> ends ev = None \<and> ev' = ev"
  by (cases "(n, ev)" rule: recv.cases) (auto split: if_splits)

text \<open>What a call meets: nothing more, an interruption, or some bytes.\<close>

lemma recv_meets:
  assumes "0 < n"
  obtains (empty) "arrives ev = []" | (interrupted) ev' where "ev = Err EINTR # ev'"
    | (bytes) cs ev' where "recv n ev = (Bytes cs, ev')" "cs \<noteq> []"
proof (cases ev)
  case Nil
  then show ?thesis using empty by simp
next
  case (Cons x r)
  show ?thesis
  proof (cases x)
    case (Got cs)
    then show ?thesis
      using Cons empty bytes [of cs r] bytes [of "take n cs" "Got (drop n cs) # r"] assms by (cases "cs = []"; cases "length cs \<le> n") auto
  next
    case (Err e)
    then show ?thesis using Cons empty interrupted by (cases "e = EINTR") auto
  qed
qed

section \<open>Lines\<close>

datatype line_end = Newline | Full | At_end

fun read_line_spec :: "nat \<Rightarrow> string \<Rightarrow> string \<times> line_end \<times> string" where
  "read_line_spec 0 t = ('''', Full, t)"
| "read_line_spec (Suc m) [] = ('''', At_end, [])"
| "read_line_spec (Suc m) (c # t) =
     (if c = CHR ''\<newline>'' then ([c], Newline, t)
      else case read_line_spec m t of (l, e, r) \<Rightarrow> (c # l, e, r))"

lemma read_line_spec_split:
  "read_line_spec m t = (l, e, r) \<Longrightarrow> t = l @ r \<and> length l \<le> m \<and> (e = Full \<longrightarrow> length l = m)
     \<and> (e = At_end \<longrightarrow> r = [] \<and> length l < m)
     \<and> (e = Newline \<longrightarrow> l \<noteq> [] \<and> last l = CHR ''\<newline>'' \<and> CHR ''\<newline>'' \<notin> set (butlast l))
     \<and> (e \<noteq> Newline \<longrightarrow> CHR ''\<newline>'' \<notin> set l)"
  by (induction m t arbitrary: l r rule: read_line_spec.induct) (auto split: if_splits prod.splits)

text \<open>A line that fits is delivered whole.\<close>

lemma read_line_spec_line:
  "CHR ''\<newline>'' \<notin> set l \<Longrightarrow> length l < m \<Longrightarrow>
     read_line_spec m (l @ CHR ''\<newline>'' # r) = (l @ ''\<newline>'', Newline, r)"
proof (induction l arbitrary: m)
  case Nil
  then show ?case by (cases m) auto
next
  case (Cons c l)
  then show ?case by (cases m) auto
qed

section \<open>Sources of characters\<close>

datatype getc_result = Got_char char | Got_eof | Got_err int | Got_intr

text \<open>
  A function that delivers the next character of \<open>rest\<close>, or how the text ends; it may also report
  that it was interrupted, having lost nothing, but not for ever.
\<close>

locale retry_source =
  fixes get :: "'s \<Rightarrow> (getc_result \<times> 's) outcome"
    and rest :: "'s \<Rightarrow> string"
    and stop :: "'s \<Rightarrow> int option"
    and inv :: "'s \<Rightarrow> bool"
    and work :: "'s \<Rightarrow> nat"
  assumes get_next:
    "inv s \<Longrightarrow>
       (\<exists>s'. get s = Ok (Got_intr, s') \<and> inv s' \<and> rest s' = rest s \<and> stop s' = stop s \<and> work s' < work s)
       \<or> (case rest s of
            c # r \<Rightarrow> \<exists>s'. get s = Ok (Got_char c, s') \<and> inv s' \<and> rest s' = r \<and> stop s' = stop s
          | [] \<Rightarrow> \<exists>s'. get s = Ok (case stop s of None \<Rightarrow> Got_eof | Some e \<Rightarrow> Got_err e, s')
                \<and> (stop s = None \<longrightarrow> inv s' \<and> rest s' = [] \<and> stop s' = None))"

text \<open>The same for a function that retries by itself.\<close>

locale char_source =
  fixes get :: "'s \<Rightarrow> (getc_result \<times> 's) outcome"
    and rest :: "'s \<Rightarrow> string"
    and stop :: "'s \<Rightarrow> int option"
    and inv :: "'s \<Rightarrow> bool"
  assumes get_char:
      "inv s \<Longrightarrow> rest s = c # r \<Longrightarrow> \<exists>s'. get s = Ok (Got_char c, s') \<and> inv s' \<and> rest s' = r \<and> stop s' = stop s"
    and get_end:
      "inv s \<Longrightarrow> rest s = [] \<Longrightarrow>
         \<exists>s'. get s = Ok (case stop s of None \<Rightarrow> Got_eof | Some e \<Rightarrow> Got_err e, s')
              \<and> (stop s = None \<longrightarrow> inv s' \<and> rest s' = [] \<and> stop s' = None)"

sublocale char_source \<subseteq> retry_source get rest stop inv "\<lambda>_. 0"
proof
  fix s
  assume "inv s"
  then show "(\<exists>s'. get s = Ok (Got_intr, s') \<and> inv s' \<and> rest s' = rest s \<and> stop s' = stop s \<and> (0 :: nat) < 0)
       \<or> (case rest s of
            c # r \<Rightarrow> \<exists>s'. get s = Ok (Got_char c, s') \<and> inv s' \<and> rest s' = r \<and> stop s' = stop s
          | [] \<Rightarrow> \<exists>s'. get s = Ok (case stop s of None \<Rightarrow> Got_eof | Some e \<Rightarrow> Got_err e, s')
                \<and> (stop s = None \<longrightarrow> inv s' \<and> rest s' = [] \<and> stop s' = None))"
    using get_char [of s] get_end [of s] by (cases "rest s") simp_all
qed

end
