(* ===== verification/Line_Readers.thy ===== *)
theory Line_Readers
  imports Sockets
begin

text \<open>
  The buffered readers of \<open>src/intro/reliable_test_client.c\<close> and \<open>reliable_test_server.c\<close>:
  \<open>my_read\<close> with \<open>readline2\<close> on top (the server's \<open>readline\<close> is the same code), and the client's
  own \<open>readline\<close>. The static variables of each are a record; the caller's buffer is an array.
  Both line loops take the function they get characters from as an argument, and are proved
  against \<open>read_line_spec\<close> for every such function that keeps the laws of \<open>Sockets\<close>.
\<close>

section \<open>Arrays filled from the front\<close>

definition overwrite :: "nat \<Rightarrow> 'a list \<Rightarrow> 'a list \<Rightarrow> 'a list" where
  "overwrite p xs buf = take p buf @ xs @ drop (p + length xs) buf"

lemma overwrite_Nil [simp]: "overwrite p [] buf = buf"
  by (simp add: overwrite_def)

lemma overwrite_Cons: "p < length buf \<Longrightarrow> overwrite p (x # xs) buf = overwrite (Suc p) xs (buf[p := x])"
  by (simp add: overwrite_def take_Suc_conv_app_nth)

lemma overwrite_single: "p < length buf \<Longrightarrow> overwrite p [x] buf = buf[p := x]"
  by (simp add: overwrite_Cons)

lemma length_overwrite [simp]: "p + length xs \<le> length buf \<Longrightarrow> length (overwrite p xs buf) = length buf"
  by (simp add: overwrite_def)

lemma cstring_overwrite:
  "length xs < length buf \<Longrightarrow>
     cstring 0 (overwrite 0 (xs @ [CHR 0x00]) buf) = Some (takeWhile (\<lambda>c. c \<noteq> CHR 0x00) xs)"
  by (simp add: cstring_def overwrite_def)

lemma wr_in: "p < length buf \<Longrightarrow> wr buf (int p) c = Some (buf[p := c])"
  by simp

lemma wr_in_Suc: "Suc p < length buf \<Longrightarrow> wr buf (1 + int p) c = Some (buf[Suc p := c])"
  using wr_in [of "Suc p" buf c] by simp

section \<open>\<open>my_read\<close>\<close>

definition MAXLINE :: nat where "MAXLINE = 1024"

record reader =
  read_cnt :: int
  read_ptr :: nat \<comment> \<open>an offset into \<open>read_buf\<close>\<close>
  read_buf :: string
  read_in :: conn

text \<open>The statics when the program starts, on a new connection.\<close>

definition reader_start :: "conn \<Rightarrow> reader" where
  "reader_start ev = \<lparr>read_cnt = 0, read_ptr = 0, read_buf = replicate MAXLINE (CHR 0x00), read_in = ev\<rparr>"

text \<open>\<open>again:\<close> read until the call is not interrupted.\<close>

function read_again :: "nat \<Rightarrow> conn \<Rightarrow> io \<times> conn" where
  "read_again n ev =
     (case recv n ev of
        (Fail e, ev') \<Rightarrow> if e = EINTR then read_again n ev' else (Fail e, ev')
      | (Bytes cs, ev') \<Rightarrow> (Bytes cs, ev'))"
  by pat_completeness auto
termination
  by (relation "measure (\<lambda>(n, ev). length ev)") (auto dest: recv_Fail [OF sym])

declare read_again.simps [simp del]

definition take_char :: "reader \<Rightarrow> (getc_result \<times> reader) outcome" where
  "take_char s =
     checked (rd (read_buf s) (int (read_ptr s))) (\<lambda>c.
       Ok (Got_char c, s\<lparr>read_cnt := read_cnt s - 1, read_ptr := read_ptr s + 1\<rparr>))"

definition my_read :: "reader \<Rightarrow> (getc_result \<times> reader) outcome" where
  "my_read s =
     (if read_cnt s \<le> 0 then
        (case read_again MAXLINE (read_in s) of
           (Fail e, ev) \<Rightarrow> Ok (Got_err e, s\<lparr>read_cnt := - 1, read_in := ev\<rparr>)
         | (Bytes cs, ev) \<Rightarrow>
             let s1 = s\<lparr>read_cnt := int (length cs), read_buf := overwrite 0 cs (read_buf s), read_in := ev\<rparr> in
             if cs = [] then Ok (Got_eof, s1) else take_char (s1\<lparr>read_ptr := 0\<rparr>))
      else take_char s)"

section \<open>\<open>readline2\<close>, the server's \<open>readline\<close>\<close>

definition end_line2 :: "nat \<Rightarrow> nat \<Rightarrow> string \<Rightarrow> 's \<Rightarrow> (int \<times> string \<times> 's) outcome" where
  "end_line2 n ptr buf s = checked (wr buf (int ptr) (CHR 0x00)) (\<lambda>buf1. Ok (int n, buf1, s))"

function readline2_loop ::
  "('s \<Rightarrow> (getc_result \<times> 's) outcome) \<Rightarrow> nat \<Rightarrow> nat \<Rightarrow> nat \<Rightarrow> string \<Rightarrow> 's \<Rightarrow> (int \<times> string \<times> 's) outcome" where
  "readline2_loop get maxlen n ptr buf s =
     (if n < maxlen then
        obind (get s) (\<lambda>(rc, s1).
          case rc of
            Got_char c \<Rightarrow>
              checked (wr buf (int ptr) c) (\<lambda>buf1.
                if c = CHR ''\<newline>'' then end_line2 n (ptr + 1) buf1 s1
                else readline2_loop get maxlen (n + 1) (ptr + 1) buf1 s1)
          | Got_eof \<Rightarrow> end_line2 (n - 1) ptr buf s1
          | _ \<Rightarrow> Ok (- 1, buf, s1))
      else end_line2 n ptr buf s)"
  by pat_completeness auto
termination
  by (relation "measure (\<lambda>(get, maxlen, n, ptr, buf, s). maxlen - n)") auto

declare readline2_loop.simps [simp del]

definition readline2 :: "nat \<Rightarrow> string \<Rightarrow> reader \<Rightarrow> (int \<times> string \<times> reader) outcome" where
  "readline2 maxlen vptr s = readline2_loop my_read maxlen 1 0 vptr s"

definition server_readline :: "nat \<Rightarrow> string \<Rightarrow> reader \<Rightarrow> (int \<times> string \<times> reader) outcome" where
  "server_readline maxlen vptr s = readline2_loop my_read maxlen 1 0 vptr s"

section \<open>The client's \<open>readline\<close>\<close>

record rl_static =
  rl_bp :: nat \<comment> \<open>an offset into \<open>rl_b\<close>\<close>
  rl_cnt :: int
  rl_b :: string
  rl_in :: conn

definition rl_start :: "conn \<Rightarrow> rl_static" where
  "rl_start ev = \<lparr>rl_bp = 0, rl_cnt = 0, rl_b = replicate 1500 (CHR 0x00), rl_in = ev\<rparr>"

definition next_char :: "rl_static \<Rightarrow> (getc_result \<times> rl_static) outcome" where
  "next_char s =
     checked (rd (rl_b s) (int (rl_bp s))) (\<lambda>c. Ok (Got_char c, s\<lparr>rl_bp := rl_bp s + 1\<rparr>))"

text \<open>\<open>if (--cnt <= 0)\<close> and the receive behind it, up to \<open>c = *bp++\<close>.\<close>

definition fetch :: "rl_static \<Rightarrow> (getc_result \<times> rl_static) outcome" where
  "fetch s =
     (let s1 = s\<lparr>rl_cnt := rl_cnt s - 1\<rparr> in
      if rl_cnt s1 \<le> 0 then
        (case recv 1500 (rl_in s) of
           (Fail e, ev) \<Rightarrow>
             Ok (if e = EINTR then Got_intr else Got_err e, s1\<lparr>rl_cnt := - 1, rl_in := ev\<rparr>)
         | (Bytes cs, ev) \<Rightarrow>
             let s2 = s1\<lparr>rl_cnt := int (length cs), rl_b := overwrite 0 cs (rl_b s), rl_in := ev\<rparr> in
             if cs = [] then Ok (Got_eof, s2) else next_char (s2\<lparr>rl_bp := 0\<rparr>))
      else next_char s1)"

record 's rl_loop =
  rl_len :: nat \<comment> \<open>\<open>len\<close>, a \<open>size_t\<close>\<close>
  rl_ptr :: nat \<comment> \<open>\<open>bufptr - bufx\<close>\<close>
  rl_buf :: string
  rl_src :: 's
  rl_errno :: int
  rl_ret :: "int option"

text \<open>
  One round of \<open>while (--len > 0)\<close>, or the code after the loop. The difference \<open>bufptr - bufx\<close> is
  converted to the \<open>int\<close> that the function returns.
\<close>

definition readline_round ::
  "('s \<Rightarrow> (getc_result \<times> 's) outcome) \<Rightarrow> 's rl_loop \<Rightarrow> 's rl_loop outcome" where
  "readline_round get x =
     (let x1 = x\<lparr>rl_len := to_size (int (rl_len x) - 1)\<rparr> in
      if rl_len x1 = 0 then Ok (x1\<lparr>rl_errno := EMSGSIZE, rl_ret := Some (- 1)\<rparr>)
      else
        obind (get (rl_src x)) (\<lambda>(r, s).
          let x2 = x1\<lparr>rl_src := s\<rparr> in
          case r of
            Got_intr \<Rightarrow> Ok (x2\<lparr>rl_len := to_size (int (rl_len x2) + 1), rl_errno := EINTR\<rparr>)
          | Got_err e \<Rightarrow> Ok (x2\<lparr>rl_errno := e, rl_ret := Some (- 1)\<rparr>)
          | Got_eof \<Rightarrow> Ok (x2\<lparr>rl_ret := Some 0\<rparr>)
          | Got_char c \<Rightarrow>
              checked (wr (rl_buf x2) (int (rl_ptr x2)) c) (\<lambda>buf.
                let x3 = x2\<lparr>rl_buf := buf, rl_ptr := rl_ptr x2 + 1\<rparr> in
                if c = CHR ''\<newline>'' then
                  checked (wr (rl_buf x3) (int (rl_ptr x3)) (CHR 0x00)) (\<lambda>buf1.
                    Ok (x3\<lparr>rl_buf := buf1, rl_ret := Some (to_int (int (rl_ptr x3)))\<rparr>))
                else Ok x3)))"

definition readline_loop ::
  "('s \<Rightarrow> (getc_result \<times> 's) outcome) \<Rightarrow> 's rl_loop \<Rightarrow> 's rl_loop outcome" where
  "readline_loop get = owhile (\<lambda>x. rl_ret x = None) (readline_round get)"

definition readline_enter :: "nat \<Rightarrow> string \<Rightarrow> int \<Rightarrow> 's \<Rightarrow> 's rl_loop" where
  "readline_enter len buf errno s =
     \<lparr>rl_len = len, rl_ptr = 0, rl_buf = buf, rl_src = s, rl_errno = errno, rl_ret = None\<rparr>"

text \<open>The result, \<open>errno\<close>, the buffer and the statics after a call.\<close>

definition readline :: "nat \<Rightarrow> string \<Rightarrow> int \<Rightarrow> rl_static \<Rightarrow> (int \<times> int \<times> string \<times> rl_static) outcome" where
  "readline len buf errno s =
     obind (readline_loop fetch (readline_enter len buf errno s)) (\<lambda>x.
       checked (rl_ret x) (\<lambda>rc. Ok (rc, rl_errno x, rl_buf x, rl_src x)))"

section \<open>What the loops promise\<close>

text \<open>The value returned and the bytes stored, by how the line ended.\<close>

fun line2_result :: "int option \<Rightarrow> string \<Rightarrow> line_end \<Rightarrow> int \<times> string" where
  "line2_result stop l Newline = (int (length l), l @ [CHR 0x00])"
| "line2_result stop l Full = (int (length l) + 1, l @ [CHR 0x00])"
| "line2_result stop l At_end =
     (case stop of None \<Rightarrow> (int (length l), l @ [CHR 0x00]) | Some e \<Rightarrow> (- 1, l))"

fun line_result :: "int option \<Rightarrow> string \<Rightarrow> line_end \<Rightarrow> int \<times> string" where
  "line_result stop l Newline = (int (length l), l @ [CHR 0x00])"
| "line_result stop l Full = (- 1, l)"
| "line_result stop l At_end = (case stop of None \<Rightarrow> (0, l) | Some e \<Rightarrow> (- 1, l))"

context char_source
begin

lemma readline2_loop_reads:
  assumes "inv s" "0 < n" "ptr + m < length buf" "maxlen = n + m"
    and "read_line_spec m (rest s) = (l, e, r)" "line2_result (stop s) l e = (rc, out)"
  shows "\<exists>s'. readline2_loop get maxlen n ptr buf s
             = Ok (if rc = - 1 then - 1 else int n - 1 + rc, overwrite ptr out buf, s')
           \<and> (e \<noteq> At_end \<or> stop s = None \<longrightarrow> inv s' \<and> rest s' = r \<and> stop s' = stop s)"
  using assms
proof (induction m arbitrary: n ptr buf s l rc out)
  case 0
  then show ?case
    by (subst readline2_loop.simps) (auto simp: end_line2_def overwrite_single)
next
  case (Suc m)
  show ?case
  proof (cases "rest s")
    case Nil
    then obtain s' where "get s = Ok (case stop s of None \<Rightarrow> Got_eof | Some e \<Rightarrow> Got_err e, s')"
      "stop s = None \<Longrightarrow> inv s' \<and> rest s' = [] \<and> stop s' = None"
      using get_end Suc.prems(1) by blast
    then show ?thesis
      using Suc.prems Nil
      by (subst readline2_loop.simps) (auto simp: end_line2_def overwrite_single of_nat_diff split: option.splits)
  next
    case (Cons c t)
    then obtain s1 where s1: "get s = Ok (Got_char c, s1)" "inv s1" "rest s1 = t" "stop s1 = stop s"
      using get_char Suc.prems(1) by blast
    show ?thesis
    proof (cases "c = CHR ''\<newline>''")
      case True
      then show ?thesis
        using Suc.prems Cons s1
        by (subst readline2_loop.simps) (auto simp: end_line2_def overwrite_Cons wr_in_Suc)
    next
      case False
      obtain l' where l: "read_line_spec m t = (l', e, r)" "l = c # l'"
        using Suc.prems(5) Cons False by (auto split: prod.splits)
      obtain rc' out' where res: "line2_result (stop s1) l' e = (rc', out')" by fastforce
      then have out: "out = c # out'" "rc = (if rc' = - 1 then - 1 else rc' + 1)" "0 \<le> rc' \<or> rc' = - 1"
        using Suc.prems(6) l(2) s1(4) by (cases e; auto split: option.splits)+
      have "\<exists>s'. readline2_loop get maxlen (n + 1) (ptr + 1) (buf[ptr := c]) s1
             = Ok (if rc' = - 1 then - 1 else int (n + 1) - 1 + rc', overwrite (ptr + 1) out' (buf[ptr := c]), s')
           \<and> (e \<noteq> At_end \<or> stop s1 = None \<longrightarrow> inv s' \<and> rest s' = r \<and> stop s' = stop s1)"
        using Suc.prems l(1) res s1 by (intro Suc.IH) auto
      then show ?thesis
        using Suc.prems(3,4) False s1 out by (subst readline2_loop.simps) (auto simp: overwrite_Cons)
    qed
  qed
qed

end

context retry_source
begin

definition readline_ends :: "line_end \<Rightarrow> string \<Rightarrow> nat \<Rightarrow> int \<times> string \<Rightarrow> 's rl_loop \<Rightarrow> 's rl_loop outcome \<Rightarrow> bool" where
  "readline_ends e r ptr res x o1 \<longleftrightarrow>
     (\<exists>y. o1 = Ok y \<and> rl_ret y = Some (to_int (if 0 < fst res then int ptr + fst res else fst res))
        \<and> rl_buf y = overwrite ptr (snd res) (rl_buf x)
        \<and> (e = Full \<longrightarrow> rl_errno y = EMSGSIZE)
        \<and> (e \<noteq> At_end \<or> stop (rl_src x) = None \<longrightarrow> inv (rl_src y) \<and> rest (rl_src y) = r \<and> stop (rl_src y) = stop (rl_src x)))"

lemma readline_loop_step:
  "rl_ret x = None \<Longrightarrow> readline_round get x = Ok y \<Longrightarrow> readline_loop get x = readline_loop get y"
  unfolding readline_loop_def by (rule owhile_step) simp_all

lemma readline_loop_done: "rl_ret x \<noteq> None \<Longrightarrow> readline_loop get x = Ok x"
  unfolding readline_loop_def by (rule owhile_done) simp

lemma to_size_pred: "0 < n \<Longrightarrow> n < 2 ^ 64 \<Longrightarrow> to_size (int n - 1) = n - 1"
  by (simp add: to_size_id nat_diff_distrib)

lemma to_int_simps [simp]: "to_int 0 = 0" "to_int (- 1) = - 1"
  by (simp_all add: to_int_id)

text \<open>The rounds of the loop, by what the reader returns.\<close>

lemma readline_rounds:
  assumes "rl_len x = Suc m + 1" "rl_len x < 2 ^ 64"
  shows "get (rl_src x) = Ok (Got_intr, s') \<Longrightarrow> readline_round get x = Ok (x\<lparr>rl_src := s', rl_errno := EINTR\<rparr>)"
    and "get (rl_src x) = Ok (Got_eof, s') \<Longrightarrow>
      readline_round get x = Ok (x\<lparr>rl_len := Suc m, rl_src := s', rl_ret := Some 0\<rparr>)"
    and "get (rl_src x) = Ok (Got_err k, s') \<Longrightarrow>
      readline_round get x = Ok (x\<lparr>rl_len := Suc m, rl_src := s', rl_errno := k, rl_ret := Some (- 1)\<rparr>)"
    and "get (rl_src x) = Ok (Got_char (CHR ''\<newline>''), s') \<Longrightarrow> rl_ptr x + 1 < length (rl_buf x) \<Longrightarrow>
      readline_round get x = Ok (x\<lparr>rl_len := Suc m, rl_src := s', rl_ptr := rl_ptr x + 1,
        rl_buf := (rl_buf x)[rl_ptr x := CHR ''\<newline>'', rl_ptr x + 1 := CHR 0x00], rl_ret := Some (to_int (int (rl_ptr x + 1)))\<rparr>)"
    and "get (rl_src x) = Ok (Got_char c, s') \<Longrightarrow> c \<noteq> CHR ''\<newline>'' \<Longrightarrow> rl_ptr x < length (rl_buf x) \<Longrightarrow>
      readline_round get x = Ok (x\<lparr>rl_len := Suc m, rl_src := s', rl_ptr := rl_ptr x + 1, rl_buf := (rl_buf x)[rl_ptr x := c]\<rparr>)"
proof -
  have len: "to_size (int (rl_len x) - 1) = Suc m" "to_size (int (Suc m) + 1) = Suc (Suc m)"
    using assms to_size_pred [of "rl_len x"] by (simp_all add: to_size_id nat_add_distrib)
  show "get (rl_src x) = Ok (Got_intr, s') \<Longrightarrow> readline_round get x = Ok (x\<lparr>rl_src := s', rl_errno := EINTR\<rparr>)"
    using len assms(1) by (simp add: readline_round_def Let_def)
qed (use assms to_size_pred [of "rl_len x"] in \<open>simp_all add: readline_round_def Let_def wr_in_Suc\<close>)

lemma readline_loop_reads:
  assumes "inv (rl_src x)" "rl_ret x = None" "rl_len x = m + 1" "rl_len x < 2 ^ 64"
    and "rl_ptr x + m < length (rl_buf x)" "read_line_spec m (rest (rl_src x)) = (l, e, r)"
  shows "readline_ends e r (rl_ptr x) (line_result (stop (rl_src x)) l e) x (readline_loop get x)"
  using assms
proof (induction m arbitrary: x l)
  case 0
  let ?y = "x\<lparr>rl_len := 0, rl_errno := EMSGSIZE, rl_ret := Some (- 1)\<rparr>"
  have "readline_round get x = Ok ?y" using "0.prems"(3) by (simp add: readline_round_def to_size_def)
  then have "readline_loop get x = Ok ?y"
    using readline_loop_step "0.prems"(2) readline_loop_done [of ?y] by simp
  then show ?case using "0.prems" by (auto simp: readline_ends_def)
next
  case (Suc m)
  from Suc.prems show ?case
  proof (induction "work (rl_src x)" arbitrary: x rule: less_induct)
    case less
    note R = readline_rounds [OF less.prems(3,4)] and L = readline_loop_step [OF less.prems(2)]
    consider (intr) s' where "get (rl_src x) = Ok (Got_intr, s')" "inv s'" "rest s' = rest (rl_src x)"
        "stop s' = stop (rl_src x)" "work s' < work (rl_src x)"
      | (eof) s' where "rest (rl_src x) = []"
        "get (rl_src x) = Ok (case stop (rl_src x) of None \<Rightarrow> Got_eof | Some e \<Rightarrow> Got_err e, s')"
        "stop (rl_src x) = None \<Longrightarrow> inv s' \<and> rest s' = [] \<and> stop s' = None"
      | (line) t s' where "rest (rl_src x) = CHR ''\<newline>'' # t" "get (rl_src x) = Ok (Got_char (CHR ''\<newline>''), s')" "inv s'"
        "rest s' = t" "stop s' = stop (rl_src x)"
      | (char) c t s' where "rest (rl_src x) = c # t" "get (rl_src x) = Ok (Got_char c, s')" "inv s'" "rest s' = t"
        "stop s' = stop (rl_src x)" "c \<noteq> CHR ''\<newline>''"
      using get_next [OF less.prems(1)] by (cases "rest (rl_src x)"; cases "hd (rest (rl_src x)) = CHR ''\<newline>''") auto
    then show ?case
    proof cases
      case intr
      let ?y = "x\<lparr>rl_src := s', rl_errno := EINTR\<rparr>"
      have "readline_ends e r (rl_ptr ?y) (line_result (stop (rl_src ?y)) l e) ?y (readline_loop get ?y)"
        using less.prems intr by (intro less.hyps) auto
      then show ?thesis using L [OF R(1) [OF intr(1)]] intr(4) by (simp add: readline_ends_def)
    next
      case eof
      then show ?thesis
        using L [OF R(2)] L [OF R(3)] less.prems(6)
        by (cases "stop (rl_src x)") (auto simp: readline_ends_def readline_loop_done)
    next
      case line
      then show ?thesis
        using L [OF R(4) [OF line(2)]] less.prems(5,6) by (auto simp: readline_ends_def overwrite_Cons readline_loop_done add.commute)
    next
      case char
      let ?y = "x\<lparr>rl_len := Suc m, rl_src := s', rl_ptr := rl_ptr x + 1, rl_buf := (rl_buf x)[rl_ptr x := c]\<rparr>"
      obtain l' where l: "read_line_spec m t = (l', e, r)" "l = c # l'"
        using less.prems(6) char(1,6) by (auto split: prod.splits)
      have "readline_ends e r (rl_ptr ?y) (line_result (stop (rl_src ?y)) l' e) ?y (readline_loop get ?y)"
        using less.prems char l(1) by (intro Suc.IH) auto
      then show ?thesis
        using L [OF R(5) [OF char(2,6)]] less.prems(5) char(5) l(2) read_line_spec_split [OF l(1)]
        by (cases e) (auto simp: readline_ends_def overwrite_Cons add.commute add.left_commute split: option.splits)
    qed
  qed
qed

end

section \<open>The two sources of characters\<close>

lemma read_again_Bytes:
  "read_again n ev = (Bytes cs, ev') \<Longrightarrow> 0 < n \<Longrightarrow>
     length cs \<le> n \<and> (if cs = [] then arrives ev = [] \<and> ends ev = None \<and> arrives ev' = [] \<and> ends ev' = None
                        else arrives ev = cs @ arrives ev' \<and> ends ev = ends ev')"
proof (induction n ev rule: read_again.induct)
  case (1 n ev)
  obtain o1 ev1 where r: "recv n ev = (o1, ev1)" by fastforce
  show ?case
  proof (cases o1)
    case (Bytes bs)
    then show ?thesis
      using "1.prems" r recv_Bytes [of n ev bs ev1] recv_none [of n ev ev1] recv_Bytes_length [of n ev bs ev1]
      by (auto simp: read_again.simps [of n ev])
  next
    case (Fail e)
    then show ?thesis
      using "1.prems" "1.IH" [OF r [symmetric] Fail] r recv_Fail [of n ev e ev1]
      by (auto simp: read_again.simps [of n ev] split: if_splits)
  qed
qed

lemma read_again_Fail: "read_again n ev = (Fail e, ev') \<Longrightarrow> arrives ev = [] \<and> ends ev = Some e"
proof (induction n ev rule: read_again.induct)
  case (1 n ev)
  obtain o1 ev1 where r: "recv n ev = (o1, ev1)" by fastforce
  show ?case
  proof (cases o1)
    case (Fail e1)
    then show ?thesis
      using "1.prems" "1.IH" [OF r [symmetric] Fail] r recv_Fail [of n ev e1 ev1]
      by (auto simp: read_again.simps [of n ev] split: if_splits)
  qed (use "1.prems" r in \<open>auto simp: read_again.simps [of n ev]\<close>)
qed

text \<open>The text a reader still has: what is left in its buffer, then what arrives.\<close>

definition unread_chars :: "nat \<Rightarrow> nat \<Rightarrow> string \<Rightarrow> string" where
  "unread_chars k p buf = take k (drop p buf)"

lemma unread_chars_next:
  "p + Suc k \<le> length buf \<Longrightarrow> unread_chars (Suc k) p buf = buf ! p # unread_chars k (p + 1) buf"
  by (simp add: unread_chars_def Cons_nth_drop_Suc [symmetric])

lemma unread_chars_fresh: "length cs \<le> length buf \<Longrightarrow> unread_chars (length cs) 0 (overwrite 0 cs buf) = cs"
  by (simp add: unread_chars_def overwrite_def)

definition reader_inv :: "reader \<Rightarrow> bool" where
  "reader_inv s \<longleftrightarrow> length (read_buf s) = MAXLINE \<and> read_ptr s + nat (read_cnt s) \<le> MAXLINE"

definition reader_rest :: "reader \<Rightarrow> string" where
  "reader_rest s = unread_chars (nat (read_cnt s)) (read_ptr s) (read_buf s) @ arrives (read_in s)"

lemma take_char_gives:
  assumes "reader_inv s" "0 < read_cnt s"
  obtains c s' where "take_char s = Ok (Got_char c, s')" "reader_inv s'" "reader_rest s = c # reader_rest s'"
    "read_in s' = read_in s"
proof -
  let ?c = "read_buf s ! read_ptr s"
  let ?s = "s\<lparr>read_cnt := read_cnt s - 1, read_ptr := read_ptr s + 1\<rparr>"
  obtain k where k: "nat (read_cnt s) = Suc k" "nat (read_cnt s - 1) = k"
    using assms(2) by (cases "nat (read_cnt s)") auto
  have room: "read_ptr s + Suc k \<le> length (read_buf s)" using assms(1) k(1) by (simp add: reader_inv_def)
  have "take_char s = Ok (Got_char ?c, ?s)" using room by (simp add: take_char_def)
  moreover have "reader_inv ?s" using assms k by (simp add: reader_inv_def)
  moreover have "reader_rest s = ?c # reader_rest ?s"
    using unread_chars_next [OF room] k by (simp add: reader_rest_def)
  ultimately show ?thesis using that by simp
qed

lemma my_read_buffered:
  assumes "reader_inv s" "0 < read_cnt s"
  obtains c s' where "my_read s = Ok (Got_char c, s')" "reader_inv s'" "reader_rest s = c # reader_rest s'"
    "ends (read_in s') = ends (read_in s)"
  using take_char_gives [OF assms] assms(2) by (metis my_read_def not_less)

lemma my_read_refills:
  assumes "reader_inv s" "read_cnt s \<le> 0" "read_again MAXLINE (read_in s) = (Bytes cs, ev)" "cs \<noteq> []"
  obtains c s' where "my_read s = Ok (Got_char c, s')" "reader_inv s'" "reader_rest s = c # reader_rest s'"
    "ends (read_in s') = ends (read_in s)"
proof -
  let ?s = "s\<lparr>read_cnt := int (length cs), read_buf := overwrite 0 cs (read_buf s), read_in := ev, read_ptr := 0\<rparr>"
  have r: "length cs \<le> MAXLINE" "arrives (read_in s) = cs @ arrives ev" "ends (read_in s) = ends ev"
    using read_again_Bytes [OF assms(3)] assms(4) by (auto simp: MAXLINE_def)
  then have "reader_inv ?s" using assms(1) by (simp add: reader_inv_def)
  moreover have "reader_rest ?s = reader_rest s"
    using assms(1,2) r unread_chars_fresh [of cs "read_buf s"] by (simp add: reader_rest_def reader_inv_def unread_chars_def)
  moreover have "my_read s = take_char ?s" using assms(2-4) by (simp add: my_read_def)
  moreover from calculation(1) obtain c s' where "take_char ?s = Ok (Got_char c, s')" "reader_inv s'"
    "reader_rest ?s = c # reader_rest s'" "read_in s' = read_in ?s"
    by (rule take_char_gives) (use assms(4) in auto)
  ultimately show ?thesis using that [of c s'] r(3) by simp
qed

interpretation my_reads: char_source my_read reader_rest "\<lambda>s. ends (read_in s)" reader_inv
proof
  fix s c r
  assume s: "reader_inv s" "reader_rest s = c # r"
  show "\<exists>s'. my_read s = Ok (Got_char c, s') \<and> reader_inv s' \<and> reader_rest s' = r
            \<and> ends (read_in s') = ends (read_in s)"
  proof (cases "0 < read_cnt s")
    case True
    show ?thesis using my_read_buffered [OF s(1) True] s(2) by (metis list.inject)
  next
    case False
    then have "arrives (read_in s) = c # r" using s(2) by (simp add: reader_rest_def unread_chars_def)
    then obtain cs ev where "read_again MAXLINE (read_in s) = (Bytes cs, ev)" "cs \<noteq> []"
      using read_again_Bytes [of MAXLINE "read_in s"] read_again_Fail [of MAXLINE "read_in s"]
      by (cases "read_again MAXLINE (read_in s)"; cases "fst (read_again MAXLINE (read_in s))")
        (fastforce simp: MAXLINE_def)+
    with False have "read_cnt s \<le> 0" "read_again MAXLINE (read_in s) = (Bytes cs, ev)" "cs \<noteq> []" by simp_all
    from my_read_refills [OF s(1) this] show ?thesis using s(2) by (metis list.inject)
  qed
next
  fix s
  assume s: "reader_inv s" "reader_rest s = []"
  then have cnt: "read_cnt s \<le> 0" "arrives (read_in s) = []"
    by (auto simp: reader_rest_def unread_chars_def reader_inv_def MAXLINE_def)
  obtain o1 ev where r: "read_again MAXLINE (read_in s) = (o1, ev)" by fastforce
  show "\<exists>s'. my_read s = Ok (case ends (read_in s) of None \<Rightarrow> Got_eof | Some e \<Rightarrow> Got_err e, s')
      \<and> (ends (read_in s) = None \<longrightarrow> reader_inv s' \<and> reader_rest s' = [] \<and> ends (read_in s') = None)"
    using s cnt r read_again_Bytes [of MAXLINE "read_in s"] read_again_Fail [of MAXLINE "read_in s"]
    by (cases o1) (auto simp: my_read_def reader_inv_def reader_rest_def unread_chars_def MAXLINE_def split: if_splits)
qed

definition rl_inv :: "rl_static \<Rightarrow> bool" where
  "rl_inv s \<longleftrightarrow> length (rl_b s) = 1500 \<and> rl_bp s + nat (rl_cnt s - 1) \<le> 1500"

definition rl_rest :: "rl_static \<Rightarrow> string" where
  "rl_rest s = unread_chars (nat (rl_cnt s - 1)) (rl_bp s) (rl_b s) @ arrives (rl_in s)"

text \<open>After \<open>--cnt\<close> or a receive, \<open>cnt\<close> counts the character about to be taken as well.\<close>

lemma next_char_gives:
  assumes "length (rl_b s) = 1500" "rl_bp s + nat (rl_cnt s) \<le> 1500" "0 < rl_cnt s"
  obtains c s' where "next_char s = Ok (Got_char c, s')" "rl_inv s'"
    "unread_chars (nat (rl_cnt s)) (rl_bp s) (rl_b s) @ arrives (rl_in s) = c # rl_rest s'" "rl_in s' = rl_in s"
proof -
  let ?c = "rl_b s ! rl_bp s" and ?s = "s\<lparr>rl_bp := rl_bp s + 1\<rparr>"
  obtain k where k: "nat (rl_cnt s) = Suc k" "nat (rl_cnt s - 1) = k"
    using assms(3) by (cases "nat (rl_cnt s)") auto
  have room: "rl_bp s + Suc k \<le> length (rl_b s)" using assms(1,2) k(1) by simp
  have "next_char s = Ok (Got_char ?c, ?s)" using room by (simp add: next_char_def)
  moreover have "rl_inv ?s" using assms k by (simp add: rl_inv_def)
  moreover have "unread_chars (nat (rl_cnt s)) (rl_bp s) (rl_b s) @ arrives (rl_in s) = ?c # rl_rest ?s"
    using unread_chars_next [OF room] k by (simp add: rl_rest_def)
  ultimately show ?thesis using that by simp
qed

lemma fetch_buffered:
  assumes "rl_inv s" "1 < rl_cnt s"
  obtains c s' where "fetch s = Ok (Got_char c, s')" "rl_inv s'" "rl_rest s = c # rl_rest s'"
    "ends (rl_in s') = ends (rl_in s)"
proof -
  let ?s = "s\<lparr>rl_cnt := rl_cnt s - 1\<rparr>"
  have "length (rl_b ?s) = 1500" "rl_bp ?s + nat (rl_cnt ?s) \<le> 1500" "0 < rl_cnt ?s"
    using assms by (simp_all add: rl_inv_def)
  from next_char_gives [OF this] obtain c s' where "next_char ?s = Ok (Got_char c, s')" "rl_inv s'"
    "unread_chars (nat (rl_cnt ?s)) (rl_bp ?s) (rl_b ?s) @ arrives (rl_in ?s) = c # rl_rest s'" "rl_in s' = rl_in ?s"
    by blast
  moreover have "fetch s = next_char ?s" using assms(2) by (simp add: fetch_def Let_def)
  ultimately show ?thesis using that [of c s'] by (simp add: rl_rest_def)
qed

lemma fetch_receives:
  assumes "rl_inv s" "rl_cnt s \<le> 1" "recv 1500 (rl_in s) = (Bytes cs, ev)" "cs \<noteq> []"
  obtains c s' where "fetch s = Ok (Got_char c, s')" "rl_inv s'" "rl_rest s = c # rl_rest s'"
    "ends (rl_in s') = ends (rl_in s)"
proof -
  let ?s = "s\<lparr>rl_cnt := int (length cs), rl_b := overwrite 0 cs (rl_b s), rl_in := ev, rl_bp := 0\<rparr>"
  have r: "length cs \<le> 1500" "arrives (rl_in s) = cs @ arrives ev" "ends (rl_in s) = ends ev"
    using recv_Bytes [OF assms(3,4)] recv_Bytes_length [OF assms(3)] by auto
  then have "length (rl_b ?s) = 1500" "rl_bp ?s + nat (rl_cnt ?s) \<le> 1500" "0 < rl_cnt ?s"
    using assms(1,4) by (simp_all add: rl_inv_def)
  from next_char_gives [OF this] obtain c s' where "next_char ?s = Ok (Got_char c, s')" "rl_inv s'"
    "unread_chars (nat (rl_cnt ?s)) (rl_bp ?s) (rl_b ?s) @ arrives (rl_in ?s) = c # rl_rest s'" "rl_in s' = rl_in ?s"
    by blast
  moreover have "fetch s = next_char ?s" using assms(2-4) by (simp add: fetch_def Let_def)
  moreover have "rl_rest s = unread_chars (nat (rl_cnt ?s)) (rl_bp ?s) (rl_b ?s) @ arrives (rl_in ?s)"
    using assms(1,2) r(1,2) unread_chars_fresh [of cs "rl_b s"]
    by (simp add: rl_rest_def rl_inv_def unread_chars_def)
  ultimately show ?thesis using that [of c s'] r(3) by simp
qed

lemma fetch_ends:
  assumes "rl_inv s" "rl_cnt s \<le> 1" "arrives (rl_in s) = []"
  shows "(\<exists>s'. fetch s = Ok (Got_intr, s') \<and> rl_inv s' \<and> rl_rest s' = rl_rest s \<and> ends (rl_in s') = ends (rl_in s)
              \<and> length (rl_in s') < length (rl_in s))
       \<or> (\<exists>s'. fetch s = Ok (case ends (rl_in s) of None \<Rightarrow> Got_eof | Some e \<Rightarrow> Got_err e, s')
                \<and> (ends (rl_in s) = None \<longrightarrow> rl_inv s' \<and> rl_rest s' = [] \<and> ends (rl_in s') = None))"
proof (cases "rl_in s")
  case (Cons x ev)
  then show ?thesis
    using assms by (cases x) (auto simp: fetch_def Let_def rl_inv_def rl_rest_def unread_chars_def split: if_splits)
qed (use assms in \<open>auto simp: fetch_def Let_def rl_inv_def rl_rest_def unread_chars_def\<close>)

interpretation fetches: retry_source fetch rl_rest "\<lambda>s. ends (rl_in s)" rl_inv "\<lambda>s. length (rl_in s)"
proof
  fix s
  assume s: "rl_inv s"
  let ?thesis = "(\<exists>s'. fetch s = Ok (Got_intr, s') \<and> rl_inv s' \<and> rl_rest s' = rl_rest s \<and> ends (rl_in s') = ends (rl_in s)
              \<and> length (rl_in s') < length (rl_in s))
       \<or> (case rl_rest s of
            c # r \<Rightarrow> \<exists>s'. fetch s = Ok (Got_char c, s') \<and> rl_inv s' \<and> rl_rest s' = r \<and> ends (rl_in s') = ends (rl_in s)
          | [] \<Rightarrow> \<exists>s'. fetch s = Ok (case ends (rl_in s) of None \<Rightarrow> Got_eof | Some e \<Rightarrow> Got_err e, s')
                \<and> (ends (rl_in s) = None \<longrightarrow> rl_inv s' \<and> rl_rest s' = [] \<and> ends (rl_in s') = None))"
  consider (buffered) "1 < rl_cnt s" | (none) "rl_cnt s \<le> 1" "arrives (rl_in s) = []"
    | (intr) ev where "rl_cnt s \<le> 1" "rl_in s = Err EINTR # ev"
    | (bytes) cs ev where "rl_cnt s \<le> 1" "recv 1500 (rl_in s) = (Bytes cs, ev)" "cs \<noteq> []"
    by (rule recv_meets [of 1500 "rl_in s"]) (use not_less in \<open>auto\<close>)
  then show ?thesis
  proof cases
    case buffered
    obtain c s' where "fetch s = Ok (Got_char c, s')" "rl_inv s'" "rl_rest s = c # rl_rest s'"
      "ends (rl_in s') = ends (rl_in s)"
      by (rule fetch_buffered [OF s buffered])
    then show ?thesis by simp
  next
    case none
    then have "rl_rest s = []" by (simp add: rl_rest_def unread_chars_def)
    then show ?thesis using fetch_ends [OF s none] by simp
  next
    case intr
    then show ?thesis
      using s by (auto simp: fetch_def Let_def rl_inv_def rl_rest_def unread_chars_def)
  next
    case bytes
    obtain c s' where "fetch s = Ok (Got_char c, s')" "rl_inv s'" "rl_rest s = c # rl_rest s'"
      "ends (rl_in s') = ends (rl_in s)"
      by (rule fetch_receives [OF s bytes])
    then show ?thesis by simp
  qed
qed

section \<open>The readers against their specification\<close>

lemma readline2_reads:
  assumes "reader_inv s" "0 < maxlen" "maxlen \<le> length buf"
    and "read_line_spec (maxlen - 1) (reader_rest s) = (l, e, r)"
    and "line2_result (ends (read_in s)) l e = (rc, out)"
  shows "\<exists>s'. readline2 maxlen buf s = Ok (rc, overwrite 0 out buf, s')
           \<and> (e \<noteq> At_end \<or> ends (read_in s) = None \<longrightarrow>
                reader_inv s' \<and> reader_rest s' = r \<and> ends (read_in s') = ends (read_in s))"
proof -
  have "0 + (maxlen - 1) < length buf" "maxlen = 1 + (maxlen - 1)" "(if rc = - 1 then - 1 else int 1 - 1 + rc) = rc"
    using assms(2,3) by auto
  then show ?thesis
    using my_reads.readline2_loop_reads [OF assms(1) zero_less_one _ _ assms(4,5), of 0 buf maxlen]
    by (simp add: readline2_def)
qed

lemma readline_reads:
  assumes "rl_inv s" "0 < len" "len \<le> length buf" "len < 2 ^ 64"
    and "read_line_spec (len - 1) (rl_rest s) = (l, e, r)"
    and "line_result (ends (rl_in s)) l e = (rc, out)"
  shows "\<exists>errno' s'. readline len buf errno s = Ok (to_int rc, errno', overwrite 0 out buf, s')
           \<and> (e = Full \<longrightarrow> errno' = EMSGSIZE)
           \<and> (e \<noteq> At_end \<or> ends (rl_in s) = None \<longrightarrow>
                rl_inv s' \<and> rl_rest s' = r \<and> ends (rl_in s') = ends (rl_in s))"
proof -
  let ?x = "readline_enter len buf errno s"
  have "fetches.readline_ends e r 0 (line_result (ends (rl_in s)) l e) ?x (readline_loop fetch ?x)"
    using fetches.readline_loop_reads [of ?x "len - 1" l e r] assms by (simp add: readline_enter_def)
  then show ?thesis
    using assms(6) unfolding fetches.readline_ends_def readline_def
    by (auto simp: readline_enter_def split: if_splits)
qed

text \<open>The readers before their first call.\<close>

lemma reader_start_simps [simp]:
  "reader_inv (reader_start ev)" "reader_rest (reader_start ev) = arrives ev" "read_in (reader_start ev) = ev"
  by (simp_all add: reader_inv_def reader_start_def reader_rest_def unread_chars_def)

lemma rl_start_simps [simp]:
  "rl_inv (rl_start ev)" "rl_rest (rl_start ev) = arrives ev" "rl_in (rl_start ev) = ev"
  by (simp_all add: rl_inv_def rl_start_def rl_rest_def unread_chars_def)

end
