(* ===== verification/Echo_Programs.thy ===== *)
theory Echo_Programs
  imports Line_Readers
begin

text \<open>
  The two programs around the line readers: the server of \<open>src/intro/reliable_test_server.c\<close>, which
  answers every line it receives with a numbered message, and the client of
  \<open>src/intro/reliable_test_client.c\<close>, which sends the lines of its standard input and prints one
  answer for each. System calls are arguments: their results, and for a socket the bytes that
  arrive on it. A process that exits early is \<open>Fatal\<close> with what it printed last; a write outside
  the 20 or 120 bytes of \<open>buf\<close> is \<open>Bad\<close>.
\<close>

section \<open>Addresses and system calls\<close>

record sockaddr_in =
  sin_family :: int
  sin_port :: "16 word"
  sin_addr :: "32 word"

definition AF_INET :: int where "AF_INET = 2"

unbundle bit_operations_syntax

definition htons :: "16 word \<Rightarrow> 16 word" where
  "htons w = push_bit 8 w OR drop_bit 8 w"

lemma htons_htons: "htons (htons w) = w"
  unfolding htons_def by (rule bit_word_eqI) (auto simp: bit_simps)

record sys =
  socket_rt :: int
  bind_rt :: "sockaddr_in \<Rightarrow> int"
  listen_rt :: int
  connect_rt :: "sockaddr_in \<Rightarrow> int"
  accept_rt :: int
  send_rt :: "nat \<Rightarrow> int" \<comment> \<open>what the n-th call of \<open>send\<close> returns\<close>
  send_errno :: int \<comment> \<open>\<open>errno\<close> after a call of \<open>send\<close> that failed\<close>
  inet_pton :: "string \<Rightarrow> 32 word option"
  strerror :: "int \<Rightarrow> string"

definition init_sock :: "sys \<Rightarrow> 16 word \<Rightarrow> int outcome" where
  "init_sock sy port =
     (let serv_addr = \<lparr>sin_family = AF_INET, sin_port = htons port, sin_addr = 0\<rparr> in
      if bind_rt sy serv_addr \<noteq> 0 then Fatal ''bind error''
      else if listen_rt sy < 0 then Fatal ''bind error''
      else Ok (socket_rt sy))"

definition tcp_connect :: "sys \<Rightarrow> string \<Rightarrow> int \<Rightarrow> int outcome" where
  "tcp_connect sy address port =
     (let server_addr = \<lparr>sin_family = AF_INET, sin_port = htons (word_of_int port),
                          sin_addr = (case inet_pton sy address of None \<Rightarrow> 0 | Some a \<Rightarrow> a)\<rparr> in
      if connect_rt sy server_addr < 0 then Fatal ''connect failed ''
      else Ok (socket_rt sy))"

text \<open>What \<open>perror\<close> writes to standard error.\<close>

definition perror :: "(int \<Rightarrow> string) \<Rightarrow> string \<Rightarrow> int \<Rightarrow> string" where
  "perror strerr msg errno = msg @ '': '' @ strerr errno @ ''\<newline>''"

section \<open>The server\<close>

record server =
  sv_buf :: string
  sv_count :: cint
  sv_reader :: reader
  sv_out :: string
  sv_sent :: "string list"
  sv_done :: bool

definition receive_msg :: "cint \<Rightarrow> string" where
  "receive_msg c = ''receive msg '' @ dec_int (sint c) @ ''\<newline>''"

text \<open>\<open>sprintf\<close> stores the text and a NUL, whether they fit or not.\<close>

definition sprintf :: "string \<Rightarrow> string \<Rightarrow> string option" where
  "sprintf buf str = (if length str < length buf then Some (overwrite 0 (str @ [CHR 0x00]) buf) else None)"

definition server_round :: "sys \<Rightarrow> server \<Rightarrow> server outcome" where
  "server_round sy x =
     obind (server_readline 20 (sv_buf x) (sv_reader x)) (\<lambda>(rc, buf, r).
       let x1 = x\<lparr>sv_buf := buf, sv_reader := r\<rparr> in
       if \<not> 0 < rc then Ok (x1\<lparr>sv_done := True\<rparr>)
       else
         checked (cstring 0 buf) (\<lambda>line.
         checked (sprintf buf (receive_msg (sv_count x))) (\<lambda>buf1.
         checked (cstring 0 buf1) (\<lambda>msg.
           let x2 = x1\<lparr>sv_buf := buf1, sv_count := sv_count x + 1,
                       sv_out := sv_out x @ ''>>>>'' @ line @ ''\<newline>'' @ ''>>>>'' @ msg @ ''\<newline>''\<rparr> in
           if send_rt sy (length (sv_sent x)) < 0 then Fatal ''send failed''
           else Ok (x2\<lparr>sv_sent := sv_sent x @ [take (length (receive_msg (sv_count x))) buf1]\<rparr>)))))"

definition server_loop :: "sys \<Rightarrow> server \<Rightarrow> server outcome" where
  "server_loop sy = owhile (\<lambda>x. \<not> sv_done x) (server_round sy)"

text \<open>\<open>main\<close>: \<open>buf\<close> and \<open>count\<close> hold whatever the stack held.\<close>

definition server_main :: "sys \<Rightarrow> string \<Rightarrow> cint \<Rightarrow> conn \<Rightarrow> server outcome" where
  "server_main sy buf count ev =
     obind (init_sock sy 9090) (\<lambda>fd.
       server_loop sy
         \<lparr>sv_buf = buf, sv_count = count, sv_reader = reader_start ev,
          sv_out = ''server socket: '' @ dec_int fd @ ''\<newline>'' @ ''client_fd: '' @ dec_int (accept_rt sy) @ ''\<newline>'',
          sv_sent = [], sv_done = False\<rparr>)"

section \<open>The client\<close>

record client =
  cl_buf :: string
  cl_stdin :: string
  cl_rl :: rl_static
  cl_errno :: int
  cl_out :: string
  cl_sent :: "string list"
  cl_done :: bool

text \<open>\<open>program_name\<close> is never set; the C library prints a null string as \<open>(null)\<close>.\<close>

definition client_error :: "sys \<Rightarrow> int \<Rightarrow> string \<Rightarrow> 'a outcome" where
  "client_error sy err fmt =
     Fatal (''(null): '' @ fmt @ (if err \<noteq> 0 then '': '' @ strerror sy err @ '' ('' @ dec_int err @ '')\<newline>'' else ''''))"

text \<open>\<open>fgets\<close> into \<open>n\<close> bytes of \<open>buf\<close>; \<open>None\<close> is \<open>NULL\<close>.\<close>

definition fgets :: "nat \<Rightarrow> string \<Rightarrow> string \<Rightarrow> (string \<times> string) option" where
  "fgets n buf inp =
     (case read_line_spec (n - 1) inp of
        (l, e, r) \<Rightarrow> if l = [] then None else Some (overwrite 0 (l @ [CHR 0x00]) buf, r))"

definition client_round :: "sys \<Rightarrow> client \<Rightarrow> client outcome" where
  "client_round sy x =
     (case fgets 120 (cl_buf x) (cl_stdin x) of
        None \<Rightarrow> Ok (x\<lparr>cl_done := True\<rparr>)
      | Some (buf, inp) \<Rightarrow>
          checked (cstring 0 buf) (\<lambda>msg.
            if send_rt sy (length (cl_sent x)) < 0 then client_error sy (send_errno sy) ''send failed''
            else
              obind (readline 120 buf (cl_errno x) (cl_rl x)) (\<lambda>(rc, errno, buf1, rl).
                if rc < 0 then client_error sy errno ''readline failed''
                else if rc = 0 then client_error sy 0 ''server terminated\<newline>''
                else
                  checked (cstring 0 buf1) (\<lambda>answer.
                    Ok (x\<lparr>cl_buf := buf1, cl_stdin := inp, cl_rl := rl, cl_errno := errno,
                          cl_out := cl_out x @ answer, cl_sent := cl_sent x @ [msg]\<rparr>)))))"

definition client_loop :: "sys \<Rightarrow> client \<Rightarrow> client outcome" where
  "client_loop sy = owhile (\<lambda>x. \<not> cl_done x) (client_round sy)"

definition client_main :: "sys \<Rightarrow> string \<Rightarrow> string \<Rightarrow> string \<Rightarrow> conn \<Rightarrow> client outcome" where
  "client_main sy buf argv1 inp ev =
     obind (tcp_connect sy argv1 9090) (\<lambda>fd.
       client_loop sy
         \<lparr>cl_buf = buf, cl_stdin = inp, cl_rl = rl_start ev, cl_errno = 0, cl_out = '''', cl_sent = [],
          cl_done = False\<rparr>)"

section \<open>The client's \<open>main2\<close>\<close>

text \<open>The earlier version of the loop, with a buffer of 20 bytes; \<open>main\<close> does not call it.\<close>

definition client2_round :: "sys \<Rightarrow> client \<Rightarrow> client outcome" where
  "client2_round sy x =
     (case fgets 20 (cl_buf x) (cl_stdin x) of
        None \<Rightarrow> Ok (x\<lparr>cl_done := True\<rparr>)
      | Some (buf, inp) \<Rightarrow>
          checked (cstring 0 buf) (\<lambda>msg.
            let rc = send_rt sy (length (cl_sent x));
                out = cl_out x @ ''>>>>'' @ msg @ ''\<newline>'' @ ''send: '' @ dec_int rc @ ''\<newline>'' in
            if rc < 0 then Fatal ''send failed''
            else
              obind (readline 20 buf (cl_errno x) (cl_rl x)) (\<lambda>(rc, errno, buf1, rl).
                if rc < 0 then Fatal ''readline failed''
                else if rc = 0 then Fatal ''server terminated\<newline>''
                else
                  checked (cstring 0 buf1) (\<lambda>answer.
                    Ok (x\<lparr>cl_buf := buf1, cl_stdin := inp, cl_rl := rl, cl_errno := errno,
                          cl_out := out @ answer, cl_sent := cl_sent x @ [msg]\<rparr>)))))"

definition client_main2 :: "sys \<Rightarrow> string \<Rightarrow> string \<Rightarrow> string \<Rightarrow> conn \<Rightarrow> client outcome" where
  "client_main2 sy buf argv1 inp ev =
     obind (tcp_connect sy argv1 9090) (\<lambda>fd.
       owhile (\<lambda>x. \<not> cl_done x) (client2_round sy)
         \<lparr>cl_buf = buf, cl_stdin = inp, cl_rl = rl_start ev, cl_errno = 0, cl_out = '''', cl_sent = [],
          cl_done = False\<rparr>)"

end
