(* ===== verification/Echo_Correct.thy ===== *)
theory Echo_Correct
  imports Echo_Programs
begin

text \<open>
  What the two programs of \<open>Echo_Programs\<close> do, on any way the network cuts the bytes into pieces:
  the server answers every chunk of at most 19 bytes that its reader delivers, in order, as long as
  the number it prints has at most six characters; the client sends its lines and prints as many
  lines of answers. For lines of at most 18 characters the chunks are the lines.
\<close>

section \<open>The numbered answer\<close>

lemma receive_msg_plain: "CHR 0x00 \<notin> set (receive_msg c)"
  using dec_nat_plain by (auto simp: receive_msg_def dec_int_def)

lemma length_dec_nat_ge: "10 ^ k \<le> n \<Longrightarrow> k < length (dec_nat n)"
proof (induction k arbitrary: n)
  case 0
  then show ?case using length_dec_nat_pos by simp
next
  case (Suc k)
  have "1 \<le> (10 :: nat) ^ k" by simp
  then have n: "\<not> n < 10" "10 ^ k \<le> n div 10"
    using Suc.prems unfolding power_Suc by (linarith, simp add: less_eq_div_iff_mult_less_eq)
  then show ?case using Suc.IH [OF n(2)] by (subst dec_nat.simps) simp
qed

text \<open>The answer fits the 20 bytes of \<open>buf\<close> exactly when its number has at most six characters.\<close>

lemma receive_msg_fits:
  assumes "- (2 ^ 31) \<le> k" "k < 2 ^ 31"
  shows "length (receive_msg (word_of_int k)) < 20 \<longleftrightarrow> - 99999 \<le> k \<and> k \<le> 999999"
proof -
  have k: "sint (word_of_int k :: cint) = k" using to_int_id [OF assms] by (simp add: to_int_def)
  have "length (dec_int k) \<le> 6 \<longleftrightarrow> - 99999 \<le> k \<and> k \<le> 999999"
  proof (cases "k < 0")
    case True
    then show ?thesis
      using length_dec_nat [of "nat (- k)" 4] length_dec_nat_ge [of 5 "nat (- k)"]
      by (auto simp: dec_int_def not_le le_nat_iff intro: ccontr)
  next
    case False
    then show ?thesis
      using length_dec_nat [of "nat k" 5] length_dec_nat_ge [of 6 "nat k"]
      by (auto simp: dec_int_def not_le le_nat_iff intro: ccontr)
  qed
  then show ?thesis unfolding receive_msg_def k by simp linarith
qed

section \<open>The server\<close>

lemma read_line_spec_nonempty: "t \<noteq> [] \<Longrightarrow> read_line_spec (Suc m) t = (l, e, r) \<Longrightarrow> l \<noteq> []"
  by (cases t) (auto split: if_splits prod.splits)

text \<open>The pieces that the server's \<open>readline\<close> with its 20 bytes cuts a text into.\<close>

function server_chunks :: "string \<Rightarrow> string list" where
  "server_chunks t =
     (if t = [] then [] else case read_line_spec 19 t of (l, e, r) \<Rightarrow> l # server_chunks r)"
  by pat_completeness auto
termination
proof (relation "measure length")
  fix t x l y e r
  assume t: "t \<noteq> []" "(l, y) = read_line_spec 19 t" "(e, r) = y"
  then have spec: "read_line_spec (Suc 18) t = (l, e, r)" by simp
  show "(r, t) \<in> measure length"
    using read_line_spec_split [OF spec] read_line_spec_nonempty [OF t(1) spec] by (cases l) auto
qed simp

declare server_chunks.simps [simp del]

lemma server_chunks_Nil [simp]: "server_chunks [] = []"
  by (simp add: server_chunks.simps)

lemma server_chunks_line:
  "CHR ''\<newline>'' \<notin> set l \<Longrightarrow> length l \<le> 18 \<Longrightarrow>
     server_chunks (l @ CHR ''\<newline>'' # r) = (l @ ''\<newline>'') # server_chunks r"
  using read_line_spec_line [of l 19 r] by (subst server_chunks.simps) simp

fun answers :: "int \<Rightarrow> string list \<Rightarrow> string list" where
  "answers k [] = []"
| "answers k (l # ls) = receive_msg (word_of_int k) # answers (k + 1) ls"

text \<open>What the server prints about one piece.\<close>

definition server_log :: "int \<Rightarrow> string \<Rightarrow> string" where
  "server_log k l =
     ''>>>>'' @ takeWhile (\<lambda>c. c \<noteq> CHR 0x00) l @ ''\<newline>'' @ ''>>>>'' @ receive_msg (word_of_int k) @ ''\<newline>''"

fun server_logs :: "int \<Rightarrow> string list \<Rightarrow> string" where
  "server_logs k [] = ''''"
| "server_logs k (l # ls) = server_log k l @ server_logs (k + 1) ls"

text \<open>A server whose connection will end properly, and all of whose sends succeed.\<close>

definition serving :: "sys \<Rightarrow> server \<Rightarrow> int \<Rightarrow> string \<Rightarrow> bool" where
  "serving sy x k t \<longleftrightarrow>
     (\<forall>n. 0 \<le> send_rt sy n) \<and> length (sv_buf x) = 20 \<and> sv_count x = word_of_int k
     \<and> reader_inv (sv_reader x) \<and> reader_rest (sv_reader x) = t \<and> ends (read_in (sv_reader x)) = None
     \<and> \<not> sv_done x"

lemma server_readline_reads:
  assumes "serving sy x k t" "read_line_spec 19 t = (l, e, r)" "line2_result None l e = (rc, out)"
  shows "\<exists>s'. server_readline 20 (sv_buf x) (sv_reader x) = Ok (rc, overwrite 0 out (sv_buf x), s')
           \<and> reader_inv s' \<and> reader_rest s' = r \<and> ends (read_in s') = None"
  using readline2_reads [of "sv_reader x" 20 "sv_buf x" l e r rc out] assms
  by (simp add: serving_def server_readline_def readline2_def)

lemma line2_result_None:
  "line2_result None l e = (int (length l) + (if e = Full then 1 else 0), l @ [CHR 0x00])"
  by (cases e) auto

lemma server_round_answers:
  assumes "serving sy x k t" "t \<noteq> []" "read_line_spec 19 t = (l, e, r)" "- 99999 \<le> k" "k \<le> 999999"
  shows "\<exists>x'. server_round sy x = Ok x' \<and> serving sy x' (k + 1) r
           \<and> sv_sent x' = sv_sent x @ [receive_msg (word_of_int k)] \<and> sv_out x' = sv_out x @ server_log k l"
proof -
  let ?msg = "receive_msg (word_of_int k)"
  obtain s' where s': "server_readline 20 (sv_buf x) (sv_reader x)
      = Ok (int (length l) + (if e = Full then 1 else 0), overwrite 0 (l @ [CHR 0x00]) (sv_buf x), s')"
    "reader_inv s'" "reader_rest s' = r" "ends (read_in s') = None"
    using server_readline_reads [OF assms(1,3) line2_result_None] by blast
  have l: "0 < length l" "length l \<le> 19"
    using read_line_spec_nonempty [of t 18 l e r] read_line_spec_split [OF assms(3)] assms(2,3) by auto
  have buf: "length (sv_buf x) = 20" "sv_count x = word_of_int k" "\<And>n. 0 \<le> send_rt sy n" "\<not> sv_done x"
    using assms(1) by (simp_all add: serving_def)
  let ?buf = "overwrite 0 (l @ [CHR 0x00]) (sv_buf x)"
  have fits: "length ?msg < length ?buf" using receive_msg_fits [of k] assms(4,5) l buf(1) by simp
  have str: "cstring 0 ?buf = Some (takeWhile (\<lambda>c. c \<noteq> CHR 0x00) l)"
    "cstring 0 (overwrite 0 (?msg @ [CHR 0x00]) ?buf) = Some ?msg"
    using cstring_overwrite [of l "sv_buf x"] cstring_overwrite [OF fits] takeWhile_no_NUL receive_msg_plain l buf(1)
    by simp_all
  have "take (length ?msg) (overwrite 0 (?msg @ [CHR 0x00]) ?buf) = ?msg" by (simp add: overwrite_def)
  moreover have "length (overwrite 0 (?msg @ [CHR 0x00]) ?buf) = 20" using fits l buf(1) by simp
  moreover have "(word_of_int k :: cint) + 1 = word_of_int (k + 1)" by simp
  ultimately show ?thesis
    using s' l str fits buf assms(1)
    by (simp add: server_round_def sprintf_def Let_def serving_def server_log_def not_less)
qed

lemma server_loop_step: "\<not> sv_done x \<Longrightarrow> server_round sy x = Ok y \<Longrightarrow> server_loop sy x = server_loop sy y"
  unfolding server_loop_def by (rule owhile_step) simp_all

lemma server_loop_ends:
  assumes "serving sy x k []"
  shows "\<exists>y. server_loop sy x = Ok y \<and> sv_sent y = sv_sent x \<and> sv_out y = sv_out x"
proof -
  have spec: "read_line_spec 19 [] = ([], At_end, [])" by (simp add: eval_nat_numeral)
  obtain s' where "server_readline 20 (sv_buf x) (sv_reader x) = Ok (0, overwrite 0 [CHR 0x00] (sv_buf x), s')"
    using server_readline_reads [OF assms spec line2_result_None] by auto
  then have "server_round sy x = Ok (x\<lparr>sv_buf := overwrite 0 [CHR 0x00] (sv_buf x), sv_reader := s', sv_done := True\<rparr>)"
    by (simp add: server_round_def Let_def)
  then show ?thesis
    using server_loop_step [of x sy] assms
    by (auto simp: serving_def server_loop_def owhile_done)
qed

lemma server_loop_answers:
  "serving sy x k t \<Longrightarrow> - 99999 \<le> k \<Longrightarrow> k + int (length (server_chunks t)) \<le> 1000000 \<Longrightarrow>
     \<exists>y. server_loop sy x = Ok y \<and> sv_sent y = sv_sent x @ answers k (server_chunks t)
         \<and> sv_out y = sv_out x @ server_logs k (server_chunks t)"
proof (induction t arbitrary: x k rule: server_chunks.induct)
  case (1 t)
  show ?case
  proof (cases "t = []")
    case True
    then show ?thesis using server_loop_ends "1.prems"(1) by fastforce
  next
    case False
    obtain l e r where spec: "read_line_spec 19 t = (l, e, r)" by (metis prod_cases3)
    then have ch: "server_chunks t = l # server_chunks r" using False by (simp add: server_chunks.simps [of t])
    then obtain y where y: "server_round sy x = Ok y" "serving sy y (k + 1) r"
      "sv_sent y = sv_sent x @ [receive_msg (word_of_int k)]" "sv_out y = sv_out x @ server_log k l"
      using server_round_answers [OF "1.prems"(1) False spec] "1.prems"(2,3) by auto
    have "\<exists>z. server_loop sy y = Ok z \<and> sv_sent z = sv_sent y @ answers (k + 1) (server_chunks r)
         \<and> sv_out z = sv_out y @ server_logs (k + 1) (server_chunks r)"
      using "1.prems"(2,3) ch y(2) by (intro "1.IH" [OF False spec [symmetric] refl]) auto
    then show ?thesis
      using y ch "1.prems"(1) server_loop_step [of x sy y] by (auto simp: serving_def)
  qed
qed

text \<open>With a number outside that range the answer does not fit \<open>buf\<close>.\<close>

lemma server_loop_overflows:
  assumes "serving sy x k t" "t \<noteq> []" "- (2 ^ 31) \<le> k" "k < 2 ^ 31" "k < - 99999 \<or> 999999 < k"
  shows "server_loop sy x = Bad"
proof -
  obtain l e r where spec: "read_line_spec 19 t = (l, e, r)" by (metis prod_cases3)
  obtain s' where s': "server_readline 20 (sv_buf x) (sv_reader x)
      = Ok (int (length l) + (if e = Full then 1 else 0), overwrite 0 (l @ [CHR 0x00]) (sv_buf x), s')"
    using server_readline_reads [OF assms(1) spec line2_result_None] by blast
  have l: "0 < length l" "length l \<le> 19"
    using read_line_spec_nonempty [of t 18 l e r] read_line_spec_split [OF spec] assms(2) spec by auto
  then have buf: "length (overwrite 0 (l @ [CHR 0x00]) (sv_buf x)) = 20" "sv_count x = word_of_int k" "\<not> sv_done x"
    "cstring 0 (overwrite 0 (l @ [CHR 0x00]) (sv_buf x)) = Some (takeWhile (\<lambda>c. c \<noteq> CHR 0x00) l)"
    using assms(1) cstring_overwrite [of l "sv_buf x"] by (simp_all add: serving_def)
  have "\<not> length (receive_msg (word_of_int k)) < 20" using receive_msg_fits [OF assms(3,4)] assms(5) by linarith
  then have "server_round sy x = Bad"
    using s' l buf by (simp add: server_round_def sprintf_def Let_def not_less)
  then show ?thesis using buf(3) unfolding server_loop_def by (subst owhile_unfold) simp
qed

section \<open>The client\<close>

definition as_lines :: "string list \<Rightarrow> string" where
  "as_lines ls = concat (map (\<lambda>l. l @ ''\<newline>'') ls)"

lemma as_lines_simps [simp]:
  "as_lines [] = ''''" "as_lines (l # ls) = l @ CHR ''\<newline>'' # as_lines ls"
  by (simp_all add: as_lines_def)

text \<open>A line without newline and NUL, of at most \<open>m\<close> characters.\<close>

definition plain_line :: "nat \<Rightarrow> string \<Rightarrow> bool" where
  "plain_line m l \<longleftrightarrow> CHR ''\<newline>'' \<notin> set l \<and> CHR 0x00 \<notin> set l \<and> length l \<le> m"

text \<open>A client with lines to send and answers to come, all of whose sends succeed.\<close>

definition asking :: "sys \<Rightarrow> client \<Rightarrow> string list \<Rightarrow> string list \<Rightarrow> bool" where
  "asking sy x ls as \<longleftrightarrow>
     (\<forall>n. 0 \<le> send_rt sy n) \<and> length (cl_buf x) = 120 \<and> cl_stdin x = as_lines ls
     \<and> rl_inv (cl_rl x) \<and> rl_rest (cl_rl x) = as_lines as \<and> ends (rl_in (cl_rl x)) = None
     \<and> \<not> cl_done x \<and> list_all (plain_line 118) ls \<and> list_all (plain_line 118) as"

lemma spec_plain_line:
  "plain_line 118 l \<Longrightarrow> read_line_spec 119 (l @ CHR ''\<newline>'' # r) = (l @ ''\<newline>'', Newline, r)"
  by (rule read_line_spec_line) (auto simp: plain_line_def)

lemma cstring_plain_line:
  assumes "plain_line 118 l" "length buf = 120"
  shows "cstring 0 (overwrite 0 (l @ ''\<newline>'' @ [CHR 0x00]) buf) = Some (l @ ''\<newline>'')"
proof -
  have "CHR 0x00 \<notin> set (l @ ''\<newline>'')" "length (l @ ''\<newline>'') < length buf" using assms by (auto simp: plain_line_def)
  then show ?thesis using cstring_overwrite [of "l @ ''\<newline>''" buf] takeWhile_no_NUL by simp
qed

lemma client_sends:
  assumes "asking sy x (l # ls) as"
  obtains buf where "fgets 120 (cl_buf x) (cl_stdin x) = Some (buf, as_lines ls)" "length buf = 120"
    "cstring 0 buf = Some (l @ ''\<newline>'')"
  using assms spec_plain_line [of l "as_lines ls"] cstring_plain_line [of l "cl_buf x"] that
  by (simp add: fgets_def asking_def plain_line_def)

lemma client_round_asks:
  assumes "asking sy x (l # ls) (a # as)"
  shows "\<exists>y. client_round sy x = Ok y \<and> asking sy y ls as
           \<and> cl_sent y = cl_sent x @ [l @ ''\<newline>''] \<and> cl_out y = cl_out x @ a @ ''\<newline>''"
proof -
  obtain buf where buf: "fgets 120 (cl_buf x) (cl_stdin x) = Some (buf, as_lines ls)" "length buf = 120"
    "cstring 0 buf = Some (l @ ''\<newline>'')"
    by (rule client_sends [OF assms])
  have a: "plain_line 118 a" "rl_rest (cl_rl x) = a @ CHR ''\<newline>'' # as_lines as" using assms by (simp_all add: asking_def)
  have "\<exists>errno' s'. readline 120 buf (cl_errno x) (cl_rl x)
      = Ok (int (length a) + 1, errno', overwrite 0 (a @ ''\<newline>'' @ [CHR 0x00]) buf, s')
      \<and> rl_inv s' \<and> rl_rest s' = as_lines as \<and> ends (rl_in s') = None"
    using readline_reads [of "cl_rl x" 120 buf "a @ ''\<newline>''" Newline "as_lines as" "int (length a) + 1" "a @ ''\<newline>'' @ [CHR 0x00]" "cl_errno x"]
      spec_plain_line [OF a(1), of "as_lines as"] a buf(2) assms
    by (simp add: asking_def plain_line_def to_int_id)
  then obtain errno s' where s': "readline 120 buf (cl_errno x) (cl_rl x)
      = Ok (int (length a) + 1, errno, overwrite 0 (a @ ''\<newline>'' @ [CHR 0x00]) buf, s')"
      "rl_inv s'" "rl_rest s' = as_lines as" "ends (rl_in s') = None" by blast
  moreover have "length (overwrite 0 (a @ ''\<newline>'' @ [CHR 0x00]) buf) = 120" using a(1) buf(2) by (simp add: plain_line_def)
  moreover have "\<not> send_rt sy (length (cl_sent x)) < 0" using assms by (simp add: asking_def not_less)
  ultimately show ?thesis
    using buf cstring_plain_line [OF a(1) buf(2)] assms
    by (simp add: client_round_def asking_def)
qed

lemma client_loop_step: "\<not> cl_done x \<Longrightarrow> client_round sy x = Ok y \<Longrightarrow> client_loop sy x = client_loop sy y"
  unfolding client_loop_def by (rule owhile_step) simp_all

lemma client_round_ends:
  assumes "asking sy x [] as"
  shows "client_round sy x = Ok (x\<lparr>cl_done := True\<rparr>)"
  using assms by (simp add: client_round_def fgets_def asking_def eval_nat_numeral)

text \<open>When the answers run out, the client gives up.\<close>

lemma client_round_gives_up:
  assumes "asking sy x (l # ls) []"
  shows "client_round sy x = Fatal ''(null): server terminated\<newline>''"
proof -
  obtain buf where buf: "fgets 120 (cl_buf x) (cl_stdin x) = Some (buf, as_lines ls)" "length buf = 120"
    "cstring 0 buf = Some (l @ ''\<newline>'')"
    by (rule client_sends [OF assms])
  have "read_line_spec 119 [] = ([], At_end, [])" by (simp add: eval_nat_numeral)
  then have "\<exists>errno' s'. readline 120 buf (cl_errno x) (cl_rl x) = Ok (0, errno', buf, s')"
    using readline_reads [of "cl_rl x" 120 buf "[]" At_end "[]" 0 "[]" "cl_errno x"] buf(2) assms
    by (auto simp: asking_def)
  then show ?thesis
    using buf assms by (auto simp: client_round_def asking_def not_less client_error_def)
qed

lemma client_loop_asks:
  "asking sy x ls as \<Longrightarrow> length ls \<le> length as \<Longrightarrow>
     \<exists>y. client_loop sy x = Ok y \<and> cl_sent y = cl_sent x @ map (\<lambda>l. l @ ''\<newline>'') ls
         \<and> cl_out y = cl_out x @ as_lines (take (length ls) as)"
proof (induction ls arbitrary: x as)
  case Nil
  then show ?case
    using client_round_ends [OF Nil.prems(1)] client_loop_step [of x sy]
    by (auto simp: asking_def client_loop_def owhile_done)
next
  case (Cons l ls)
  then obtain a as' where as: "as = a # as'" by (cases as) auto
  obtain y where y: "client_round sy x = Ok y" "asking sy y ls as'"
    "cl_sent y = cl_sent x @ [l @ ''\<newline>'']" "cl_out y = cl_out x @ a @ ''\<newline>''"
    using client_round_asks Cons.prems(1) as by blast
  then show ?case
    using Cons.IH [OF y(2)] Cons.prems as client_loop_step [of x sy y] by (auto simp: asking_def)
qed

lemma client_loop_gives_up:
  "asking sy x ls as \<Longrightarrow> length as < length ls \<Longrightarrow>
     client_loop sy x = Fatal ''(null): server terminated\<newline>''"
proof (induction as arbitrary: x ls)
  case Nil
  then obtain l ls' where "ls = l # ls'" by (cases ls) auto
  then have "client_round sy x = Fatal ''(null): server terminated\<newline>''" "\<not> cl_done x"
    using client_round_gives_up Nil.prems(1) by (auto simp: asking_def)
  then show ?case unfolding client_loop_def by (subst owhile_unfold) simp
next
  case (Cons a as)
  then obtain l ls' where ls: "ls = l # ls'" by (cases ls) auto
  obtain y where y: "client_round sy x = Ok y" "asking sy y ls' as"
    using client_round_asks Cons.prems(1) ls by blast
  then show ?case
    using Cons.IH [OF y(2)] Cons.prems ls client_loop_step [of x sy y] by (auto simp: asking_def)
qed

section \<open>Client and server together\<close>

lemma server_chunks_lines:
  "list_all (plain_line 18) ls \<Longrightarrow> server_chunks (as_lines ls) = map (\<lambda>l. l @ ''\<newline>'') ls"
  by (induction ls) (auto simp: server_chunks_line plain_line_def)

text \<open>The text of an answer, without its newline.\<close>

definition answer_text :: "int \<Rightarrow> string" where
  "answer_text k = ''receive msg '' @ dec_int (sint (word_of_int k :: cint))"

lemma answer_text_msg: "receive_msg (word_of_int k) = answer_text k @ ''\<newline>''"
  by (simp add: receive_msg_def answer_text_def)

lemma answer_text_plain: "- 99999 \<le> k \<Longrightarrow> k \<le> 999999 \<Longrightarrow> plain_line 118 (answer_text k)"
proof -
  assume "- 99999 \<le> k" "k \<le> 999999"
  then have "length (receive_msg (word_of_int k)) < 20" using receive_msg_fits [of k] by simp
  then have "length (answer_text k) \<le> 118" by (simp add: answer_text_msg)
  moreover have "CHR ''\<newline>'' \<notin> set (answer_text k)" "CHR 0x00 \<notin> set (answer_text k)"
    using dec_nat_plain by (auto simp: answer_text_def dec_int_def)
  ultimately show ?thesis by (simp add: plain_line_def)
qed

fun answer_texts :: "int \<Rightarrow> nat \<Rightarrow> string list" where
  "answer_texts k 0 = []"
| "answer_texts k (Suc n) = answer_text k # answer_texts (k + 1) n"

lemma length_answer_texts [simp]: "length (answer_texts k n) = n"
  by (induction n arbitrary: k) auto

lemma answers_texts: "concat (answers k ls) = as_lines (answer_texts k (length ls))"
  by (induction ls arbitrary: k) (simp_all add: answer_text_msg)

lemma answer_texts_plain:
  "- 99999 \<le> k \<Longrightarrow> k + int n \<le> 1000000 \<Longrightarrow> list_all (plain_line 118) (answer_texts k n)"
  by (induction n arbitrary: k) (auto simp: answer_text_plain)

lemma server_starts:
  assumes "bind_rt sy \<lparr>sin_family = AF_INET, sin_port = htons 9090, sin_addr = 0\<rparr> = 0" "0 \<le> listen_rt sy"
  shows "server_main sy buf count ev = server_loop sy
         \<lparr>sv_buf = buf, sv_count = count, sv_reader = reader_start ev,
          sv_out = ''server socket: '' @ dec_int (socket_rt sy) @ ''\<newline>'' @ ''client_fd: '' @ dec_int (accept_rt sy) @ ''\<newline>'',
          sv_sent = [], sv_done = False\<rparr>"
  using assms by (simp add: server_main_def init_sock_def)

end
