(* ===== verification/Echo_Results.thy ===== *)
theory Echo_Results
  imports Echo_Correct
begin

text \<open>
  The results about the programs under \<open>src/intro\<close>: the two line readers against
  \<open>read_line_spec\<close>, the server and the client each on its own, and a whole session of both.
\<close>

section \<open>A concrete system\<close>

text \<open>Every call succeeds; used to exercise the theorems.\<close>

definition calm :: sys where
  "calm = \<lparr>socket_rt = 3, bind_rt = (\<lambda>_. 0), listen_rt = 0, connect_rt = (\<lambda>_. 0), accept_rt = 4,
           send_rt = (\<lambda>_. 1), send_errno = 0, inet_pton = (\<lambda>_. Some 0x7F000001), strerror = (\<lambda>_. ''error'')\<rparr>"

lemma calm_simps [simp]:
  "socket_rt calm = 3" "bind_rt calm a = 0" "listen_rt calm = 0" "connect_rt calm a = 0" "accept_rt calm = 4"
  "send_rt calm n = 1" "strerror calm k = ''error''"
  by (simp_all add: calm_def)

section \<open>The line readers\<close>

text \<open>
  C21. The client's \<open>readline\<close>: however the bytes of the connection are cut into pieces, and
  whatever calls are interrupted, one call delivers the next line of the text, with a NUL, if it fits
  in \<open>len\<close> bytes, and returns its length, converted to \<open>int\<close> (so the length itself for lines shorter
  than 2^31 bytes); a line that does not fit gives -1 with \<open>EMSGSIZE\<close> after
  \<open>len - 1\<close> bytes; the end of the connection gives 0 and an error -1. The text after what was
  taken is still there for the next call, and no byte outside the buffer is touched.
\<close>

theorem readline_correct:
  assumes "rl_inv s" "0 < len" "len \<le> length buf" "len < 2 ^ 64"
    and "read_line_spec (len - 1) (rl_rest s) = (l, e, r)"
    and "line_result (ends (rl_in s)) l e = (rc, out)"
  shows "\<exists>errno' s'. readline len buf errno s = Ok (to_int rc, errno', overwrite 0 out buf, s')
           \<and> (e = Full \<longrightarrow> errno' = EMSGSIZE)
           \<and> (e \<noteq> At_end \<or> ends (rl_in s) = None \<longrightarrow>
                rl_inv s' \<and> rl_rest s' = r \<and> ends (rl_in s') = ends (rl_in s))"
  by (rule readline_reads [OF assms])

theorem readline_correct_witness:
  "\<exists>errno' s'. readline 8 (replicate 8 CHR ''x'') 0 (rl_start [Got ''he'', Err EINTR, Got ''llo\<newline>wor'', Got ''ld''])
     = Ok (6, errno', ''hello\<newline>'' @ [CHR 0x00, CHR ''x''], s') \<and> rl_rest s' = ''world''"
proof -
  let ?ev = "[Got ''he'', Err EINTR, Got ''llo\<newline>wor'', Got ''ld'']"
  have "read_line_spec (8 - 1) (rl_rest (rl_start ?ev)) = (''hello\<newline>'', Newline, ''world'')"
    by (simp add: eval_nat_numeral)
  then show ?thesis
    using readline_correct [of "rl_start ?ev" 8 "replicate 8 CHR ''x''" "''hello\<newline>''" Newline "''world''" 6
        "''hello\<newline>'' @ [CHR 0x00]" 0]
    by (auto simp: overwrite_def to_int_id)
qed

text \<open>
  C22. \<open>readline2\<close> and the server's \<open>readline\<close> (the same code over \<open>my_read\<close>): one call stores the
  next line, or the first \<open>maxlen - 1\<close> bytes of a longer one, or what is left at the end of the
  connection, always followed by a NUL; it returns the number of bytes stored, except that a full
  buffer gives \<open>maxlen\<close>, one more than the bytes stored. The rest of the text is kept.
\<close>

theorem server_readline_correct:
  assumes "reader_inv s" "0 < maxlen" "maxlen \<le> length buf"
    and "read_line_spec (maxlen - 1) (reader_rest s) = (l, e, r)"
    and "line2_result (ends (read_in s)) l e = (rc, out)"
  shows "\<exists>s'. server_readline maxlen buf s = Ok (rc, overwrite 0 out buf, s')
           \<and> readline2 maxlen buf s = Ok (rc, overwrite 0 out buf, s')
           \<and> (e \<noteq> At_end \<or> ends (read_in s) = None \<longrightarrow>
                reader_inv s' \<and> reader_rest s' = r \<and> ends (read_in s') = ends (read_in s))"
  using readline2_reads [OF assms] by (simp add: server_readline_def readline2_def)

theorem server_readline_correct_witness:
  "\<exists>s'. server_readline 4 ''xxxxx'' (reader_start [Got ''a'', Got ''bcde\<newline>''])
     = Ok (4, ''abc'' @ [CHR 0x00, CHR ''x''], s') \<and> reader_rest s' = ''de\<newline>''"
proof -
  let ?ev = "[Got ''a'', Got ''bcde\<newline>'']"
  have "read_line_spec (4 - 1) (reader_rest (reader_start ?ev)) = (''abc'', Full, ''de\<newline>'')"
    by (simp add: eval_nat_numeral)
  then show ?thesis
    using server_readline_correct [of "reader_start ?ev" 4 "''xxxxx''" "''abc''" Full "''de\<newline>''" 4 "''abc'' @ [CHR 0x00]"]
    by (auto simp: overwrite_def)
qed

section \<open>The server\<close>

text \<open>
  C24. The server as a whole: on a connection that ends properly, in whatever pieces its bytes
  arrive, the server comes to an end after answering every piece of at most 19 bytes its reader
  cuts the text into, in order, with the numbers from the first value of \<open>count\<close> on; and it has
  printed each piece and each answer. The numbers must stay within six characters.
\<close>

theorem server_answers:
  assumes "bind_rt sy \<lparr>sin_family = AF_INET, sin_port = htons 9090, sin_addr = 0\<rparr> = 0" "0 \<le> listen_rt sy"
    and "\<And>n. 0 \<le> send_rt sy n" "length buf = 20" "ends ev = None"
    and "- 99999 \<le> k" "k + int (length (server_chunks (arrives ev))) \<le> 1000000"
  shows "\<exists>y. server_main sy buf (word_of_int k) ev = Ok y
           \<and> sv_sent y = answers k (server_chunks (arrives ev))
           \<and> sv_out y = ''server socket: '' @ dec_int (socket_rt sy) @ ''\<newline>client_fd: ''
                        @ dec_int (accept_rt sy) @ ''\<newline>'' @ server_logs k (server_chunks (arrives ev))"
proof -
  let ?x = "\<lparr>sv_buf = buf, sv_count = word_of_int k, sv_reader = reader_start ev,
          sv_out = ''server socket: '' @ dec_int (socket_rt sy) @ ''\<newline>'' @ ''client_fd: '' @ dec_int (accept_rt sy) @ ''\<newline>'',
          sv_sent = [], sv_done = False\<rparr>"
  have "serving sy ?x k (arrives ev)" using assms(3-5) by (simp add: serving_def)
  from server_loop_answers [OF this assms(6,7)] show ?thesis
    using server_starts [OF assms(1,2), of buf "word_of_int k" ev] by simp
qed

theorem server_answers_witness:
  "\<exists>y. server_main calm (replicate 20 CHR ''?'') 7 [Got ''hi\<newline>th'', Err EINTR, Got ''ere''] = Ok y
     \<and> sv_sent y = [''receive msg 7\<newline>'', ''receive msg 8\<newline>'']"
proof -
  let ?ev = "[Got ''hi\<newline>th'', Err EINTR, Got ''ere'']"
  have ev: "arrives ?ev = ''hi'' @ CHR ''\<newline>'' # ''there''" by simp
  have "server_chunks ''there'' = [''there'']" by (simp add: server_chunks.simps eval_nat_numeral)
  then have ch: "server_chunks (arrives ?ev) = [''hi\<newline>'', ''there'']"
    unfolding ev using server_chunks_line [of "''hi''" "''there''"] by simp
  moreover have "answers 7 [''hi\<newline>'', ''there''] = [''receive msg 7\<newline>'', ''receive msg 8\<newline>'']" by code_simp
  ultimately show ?thesis
    using server_answers [of calm "replicate 20 CHR ''?''" ?ev 7] by auto
qed

text \<open>
  C25. The bound on the number is exact. \<open>count\<close> is never initialised: when it starts with a value
  whose decimal form has more than six characters, the first line that arrives makes \<open>sprintf\<close>
  write past the 20 bytes of \<open>buf\<close>.
\<close>

theorem server_count_overflows:
  assumes "bind_rt sy \<lparr>sin_family = AF_INET, sin_port = htons 9090, sin_addr = 0\<rparr> = 0" "0 \<le> listen_rt sy"
    and "\<And>n. 0 \<le> send_rt sy n" "length buf = 20" "ends ev = None" "arrives ev \<noteq> []"
    and "- (2 ^ 31) \<le> k" "k < 2 ^ 31" "k < - 99999 \<or> 999999 < k"
  shows "server_main sy buf (word_of_int k) ev = Bad"
proof -
  let ?x = "\<lparr>sv_buf = buf, sv_count = word_of_int k, sv_reader = reader_start ev,
          sv_out = ''server socket: '' @ dec_int (socket_rt sy) @ ''\<newline>'' @ ''client_fd: '' @ dec_int (accept_rt sy) @ ''\<newline>'',
          sv_sent = [], sv_done = False\<rparr>"
  have "serving sy ?x k (arrives ev)" using assms(3-5) by (simp add: serving_def)
  from server_loop_overflows [OF this assms(6-9)] show ?thesis
    using server_starts [OF assms(1,2), of buf "word_of_int k" ev] by simp
qed

theorem server_count_overflows_witness:
  "server_main calm (replicate 20 CHR ''?'') (word_of_int (- 100000)) [Got ''a\<newline>''] = Bad"
  by (rule server_count_overflows) simp_all

section \<open>Client and server\<close>

lemma asking_start:
  assumes "\<And>n. 0 \<le> send_rt sy n" "length buf = 120" "ends ev = None" "arrives ev = as_lines as"
    and "list_all (plain_line 118) ls" "list_all (plain_line 118) as"
  shows "asking sy \<lparr>cl_buf = buf, cl_stdin = as_lines ls, cl_rl = rl_start ev, cl_errno = 0, cl_out = '''', cl_sent = [],
          cl_done = False\<rparr> ls as"
  using assms by (simp add: asking_def)

lemma client_starts:
  assumes "\<And>a. 0 \<le> connect_rt sy a"
  shows "client_main sy buf addr inp ev = client_loop sy
     \<lparr>cl_buf = buf, cl_stdin = inp, cl_rl = rl_start ev, cl_errno = 0, cl_out = '''', cl_sent = [], cl_done = False\<rparr>"
  using linorder_not_less [THEN iffD2, OF assms] by (simp add: client_main_def tcp_connect_def)

lemma plain_line_mono: "list_all (plain_line 18) ls \<Longrightarrow> list_all (plain_line 118) ls"
  by (auto simp: list_all_iff plain_line_def)

text \<open>
  C23. A session. The client has lines of at most 18 characters to send; the server receives the
  bytes the client sent, and the client the bytes the server sent, each in any pieces and with any
  interruptions. Both programs come to an end: the client has sent its lines, the server has
  answered each with its number, and the client has printed exactly the server's answers.
\<close>

theorem echo_session:
  assumes "bind_rt sv \<lparr>sin_family = AF_INET, sin_port = htons 9090, sin_addr = 0\<rparr> = 0" "0 \<le> listen_rt sv"
    and "\<And>n. 0 \<le> send_rt sv n" "\<And>a. 0 \<le> connect_rt cl a" "\<And>n. 0 \<le> send_rt cl n"
    and "length sbuf = 20" "length cbuf = 120" "list_all (plain_line 18) ls"
    and "- 99999 \<le> k" "k + int (length ls) \<le> 1000000"
    and "arrives to_server = as_lines ls" "ends to_server = None"
    and "arrives to_client = as_lines (answer_texts k (length ls))" "ends to_client = None"
  shows "\<exists>y x. server_main sv sbuf (word_of_int k) to_server = Ok y
           \<and> client_main cl cbuf addr (as_lines ls) to_client = Ok x
           \<and> concat (cl_sent x) = arrives to_server \<and> concat (sv_sent y) = arrives to_client
           \<and> cl_out x = concat (sv_sent y) \<and> length (sv_sent y) = length ls"
proof -
  have len: "length (answers k ms) = length ms" for k ms by (induction ms arbitrary: k) auto
  have ch: "server_chunks (arrives to_server) = map (\<lambda>l. l @ ''\<newline>'') ls"
    using server_chunks_lines [OF assms(8)] assms(11) by simp
  then obtain y where y: "server_main sv sbuf (word_of_int k) to_server = Ok y"
    "sv_sent y = answers k (map (\<lambda>l. l @ ''\<newline>'') ls)"
    using server_loop_answers [of sv "\<lparr>sv_buf = sbuf, sv_count = word_of_int k, sv_reader = reader_start to_server,
          sv_out = ''server socket: '' @ dec_int (socket_rt sv) @ ''\<newline>'' @ ''client_fd: '' @ dec_int (accept_rt sv) @ ''\<newline>'',
          sv_sent = [], sv_done = False\<rparr>" k "arrives to_server"]
      server_starts [OF assms(1,2), of sbuf "word_of_int k" to_server] assms(3,6,9,10,12)
    by (auto simp: serving_def)
  have "list_all (plain_line 118) (answer_texts k (length ls))" using answer_texts_plain assms(9,10) by blast
  then obtain x where x: "client_main cl cbuf addr (as_lines ls) to_client = Ok x"
    "cl_sent x = map (\<lambda>l. l @ ''\<newline>'') ls" "cl_out x = as_lines (answer_texts k (length ls))"
    using client_loop_asks [OF asking_start [OF assms(5,7,14,13) plain_line_mono [OF assms(8)]]]
      client_starts [where sy = cl, OF assms(4)] by auto
  have "concat (cl_sent x) = as_lines ls" using x(2) by (simp add: as_lines_def)
  moreover have "concat (sv_sent y) = as_lines (answer_texts k (length ls))" using y(2) answers_texts by simp
  ultimately show ?thesis using x y len assms(11,13) by auto
qed

theorem echo_session_witness:
  "\<exists>y x. server_main calm (replicate 20 CHR ''?'') 0 [Got ''on'', Got ''e\<newline>two'', Err EINTR, Got ''\<newline>''] = Ok y
     \<and> client_main calm (replicate 120 CHR ''?'') ''127.0.0.1'' ''one\<newline>two\<newline>''
         [Got ''receive msg 0\<newline>rec'', Got ''eive msg 1\<newline>''] = Ok x
     \<and> concat (cl_sent x) = ''one\<newline>two\<newline>'' \<and> cl_out x = ''receive msg 0\<newline>receive msg 1\<newline>'' \<and> length (sv_sent y) = 2"
proof -
  have "answer_texts 0 (length [''one'', ''two'']) = [''receive msg 0'', ''receive msg 1'']" by code_simp
  then show ?thesis
    using echo_session [of calm calm "replicate 20 CHR ''?''" "replicate 120 CHR ''?''" "[''one'', ''two'']" 0
        "[Got ''on'', Got ''e\<newline>two'', Err EINTR, Got ''\<newline>'']" "[Got ''receive msg 0\<newline>rec'', Got ''eive msg 1\<newline>'']"
        "''127.0.0.1''"]
    by (auto simp: plain_line_def)
qed

text \<open>
  C26. A client whose server closes the connection early: when fewer answers arrive than lines are
  sent, the client exits with the message of \<open>error\<close>, which shows \<open>(null)\<close>
  for the name of the program because \<open>program_name\<close> is never set.
\<close>

theorem client_gives_up:
  assumes "\<And>a. 0 \<le> connect_rt sy a" "\<And>n. 0 \<le> send_rt sy n" "length buf = 120"
    and "list_all (plain_line 118) ls" "list_all (plain_line 118) as" "length as < length ls"
    and "arrives ev = as_lines as" "ends ev = None"
  shows "client_main sy buf addr (as_lines ls) ev = Fatal ''(null): server terminated\<newline>''"
  using client_loop_gives_up [OF asking_start [OF assms(2,3,8,7,4,5)] assms(6)]
    client_starts [where sy = sy, OF assms(1)] by simp

theorem client_gives_up_witness:
  "client_main calm (replicate 120 CHR ''?'') ''127.0.0.1'' ''a\<newline>b\<newline>'' [Got ''ok\<newline>''] = Fatal ''(null): server terminated\<newline>''"
  using client_gives_up [of calm "replicate 120 CHR ''?''" "[''a'', ''b'']" "[''ok'']" "[Got ''ok\<newline>'']" "''127.0.0.1''"]
  by (simp add: plain_line_def)

end
