(* ===== verification/Ports.thy ===== *)
theory Ports
  imports Prelude
begin

text \<open>
  How the kernel excerpts under \<open>src/port\<close> choose a local port: \<open>inet_csk_find_open_port\<close>
  (\<open>inet_connection_sock.c\<close>), which \<open>bind\<close> uses, and \<open>__inet_hash_connect\<close>
  (\<open>net_ipv4_inet_hashtables.c\<close>), which \<open>connect\<close> uses. What they call elsewhere in the kernel is in
  the record \<open>net_env\<close>: the configured range, reserved ports, the bind hash table and the two
  conflict checks. Locks and rescheduling change nothing here. \<open>offset\<close>, \<open>remaining\<close> and \<open>hint\<close> are
  unsigned 32-bit numbers; \<open>Bad\<close> is the remainder by 0 of an empty range.
\<close>

record inet_bind_bucket =
  ib_net :: nat
  ib_port :: int

record net_env =
  this_net :: nat
  low :: int
  high :: int
  reserved :: "int \<Rightarrow> bool"
  bhash :: "nat \<Rightarrow> inet_bind_bucket list"
  bhashfn :: "nat \<Rightarrow> int \<Rightarrow> nat"
  bind_conflict :: "inet_bind_bucket \<Rightarrow> bool"
  check_established :: "int \<Rightarrow> int"

unbundle bit_operations_syntax

section \<open>\<open>inet_csk_find_open_port\<close>\<close>

definition bucket_of :: "net_env \<Rightarrow> int \<Rightarrow> inet_bind_bucket option" where
  "bucket_of e port =
     find (\<lambda>tb. ib_net tb = this_net e \<and> ib_port tb = port) (bhash e (bhashfn e (this_net e) port))"

text \<open>One round: is this port a success?\<close>

definition port_free :: "net_env \<Rightarrow> int \<Rightarrow> bool" where
  "port_free e port \<longleftrightarrow>
     \<not> reserved e port \<and> (case bucket_of e port of None \<Rightarrow> True | Some tb \<Rightarrow> \<not> bind_conflict e tb)"

text \<open>\<open>for (i = 0; i < remaining; i += 2, port += 2)\<close>\<close>

function csk_scan :: "net_env \<Rightarrow> nat \<Rightarrow> nat \<Rightarrow> int \<Rightarrow> (int \<times> inet_bind_bucket option) option" where
  "csk_scan e remaining i port =
     (if i < remaining then
        (if reserved e port then csk_scan e remaining (i + 2) (port + 2)
         else
           case bucket_of e port of
             Some tb \<Rightarrow>
               if \<not> bind_conflict e tb then Some (port, Some tb) else csk_scan e remaining (i + 2) (port + 2)
           | None \<Rightarrow> Some (port, None))
      else None)"
  by pat_completeness auto
termination
  by (relation "measure (\<lambda>(e, remaining, i, port). remaining - i)") auto

declare csk_scan.simps [simp del]

text \<open>\<open>other_parity_scan\<close>: an even offset after \<open>offset--\<close> means the other half is still to do.\<close>

function parity_scan :: "net_env \<Rightarrow> nat \<Rightarrow> 32 word \<Rightarrow> (int \<times> inet_bind_bucket option) option" where
  "parity_scan e remaining offset =
     (case csk_scan e remaining 0 (sint (word_of_int (low e) + offset)) of
        Some r \<Rightarrow> Some r
      | None \<Rightarrow> if (offset - 1) AND 1 = 0 then parity_scan e remaining (offset - 1) else None)"
  by pat_completeness auto

lemma odd_pred: "(w - 1) AND 1 = (0 :: 32 word) \<Longrightarrow> w AND 1 = 1"
  by (auto simp: and_one_eq mod_2_eq_odd split: if_splits)

termination parity_scan
proof (relation "measure (\<lambda>(e, remaining, offset). unat (offset AND 1))")
  fix e remaining and offset :: "32 word"
  assume "(offset - 1) AND 1 = 0"
  then show "((e, remaining, offset - 1), e, remaining, offset) \<in> measure (\<lambda>(e, remaining, offset). unat (offset AND 1))"
    using odd_pred [of offset] by simp
qed simp

declare parity_scan.simps [simp del]

definition inet_csk_find_open_port ::
  "net_env \<Rightarrow> 32 word \<Rightarrow> (int \<times> inet_bind_bucket option) option outcome" where
  "inet_csk_find_open_port e prandom =
     (let high1 = high e + 1; remaining = word_of_int (high1 - low e) :: 32 word in
      if remaining = 0 then Bad
      else Ok (parity_scan e (unat remaining) ((prandom mod remaining) OR 1)))"

section \<open>\<open>__inet_hash_connect\<close>\<close>

text \<open>The loop: the value of \<open>i\<close> and the port when it ends, by \<open>goto ok\<close> or by running out.\<close>

function connect_scan :: "net_env \<Rightarrow> nat \<Rightarrow> nat \<Rightarrow> int \<Rightarrow> nat \<times> int" where
  "connect_scan e remaining i port =
     (if i < remaining then
        (if reserved e port then connect_scan e remaining (i + 2) (port + 2)
         else if \<exists>tb \<in> set (bhash e (bhashfn e (this_net e) port)). check_established e port = 0
         then (i, port)
         else connect_scan e remaining (i + 2) (port + 2))
      else (i, port))"
  by pat_completeness auto
termination
  by (relation "measure (\<lambda>(e, remaining, i, port). remaining - i)") auto

declare connect_scan.simps [simp del]

text \<open>The port reached and the new \<open>hint\<close>; the function itself returns no value.\<close>

definition inet_hash_connect_port :: "net_env \<Rightarrow> 32 word \<Rightarrow> 32 word \<Rightarrow> (int \<times> 32 word) outcome" where
  "inet_hash_connect_port e hint port_offset =
     (let high1 = high e + 1;
          remaining = (word_of_int (high1 - low e) :: 32 word) AND NOT 1 in
      if remaining = 0 then Bad
      else
        let offset = ((hint + port_offset) mod remaining) AND NOT 1;
            (i, port) = connect_scan e (unat remaining) 0 (sint (word_of_int (low e) + offset)) in
        Ok (port, hint + of_nat i + 2))"

definition secure_ipv4_port_ephemeral ::
  "(32 word \<Rightarrow> 32 word \<Rightarrow> 16 word \<Rightarrow> 'k \<Rightarrow> 32 word) \<Rightarrow> 'k \<Rightarrow> 32 word \<Rightarrow> 32 word \<Rightarrow> 16 word \<Rightarrow> 32 word" where
  "secure_ipv4_port_ephemeral siphash_3u32 net_secret saddr daddr dport =
     siphash_3u32 saddr daddr dport net_secret"

record inet_sock =
  inet_rcv_saddr :: "32 word"
  inet_daddr :: "32 word"
  inet_dport :: "16 word"

definition inet_sk_port_offset ::
  "(32 word \<Rightarrow> 32 word \<Rightarrow> 16 word \<Rightarrow> 'k \<Rightarrow> 32 word) \<Rightarrow> 'k \<Rightarrow> inet_sock \<Rightarrow> 32 word" where
  "inet_sk_port_offset siphash_3u32 net_secret sk =
     secure_ipv4_port_ephemeral siphash_3u32 net_secret (inet_rcv_saddr sk) (inet_daddr sk) (inet_dport sk)"

definition inet_hash_connect ::
  "(32 word \<Rightarrow> 32 word \<Rightarrow> 16 word \<Rightarrow> 'k \<Rightarrow> 32 word) \<Rightarrow> 'k \<Rightarrow> net_env \<Rightarrow> 32 word \<Rightarrow> inet_sock \<Rightarrow> (int \<times> 32 word) outcome" where
  "inet_hash_connect siphash_3u32 net_secret e hint sk =
     inet_hash_connect_port e hint (inet_sk_port_offset siphash_3u32 net_secret sk)"

section \<open>The scans\<close>

text \<open>The ports a scan looks at, in order.\<close>

definition scan_ports :: "nat \<Rightarrow> int \<Rightarrow> int list" where
  "scan_ports n port = map (\<lambda>j. port + 2 * int j) [0..<n]"

lemma scan_ports_Suc: "scan_ports (Suc n) port = port # scan_ports n (port + 2)"
  unfolding scan_ports_def map_upt_Suc by (simp add: algebra_simps)

lemma scan_ports_0 [simp]: "scan_ports 0 port = []"
  by (simp add: scan_ports_def)

definition rounds :: "nat \<Rightarrow> nat \<Rightarrow> nat" where
  "rounds remaining i = (remaining - i + 1) div 2"

lemma rounds_step: "i < remaining \<Longrightarrow> rounds remaining i = Suc (rounds remaining (i + 2))"
proof -
  assume "i < remaining"
  then obtain m where "remaining = i + Suc m" using less_imp_Suc_add by auto
  then show ?thesis by (cases m) (simp_all add: rounds_def)
qed

lemma rounds_done: "\<not> i < remaining \<Longrightarrow> rounds remaining i = 0"
  by (simp add: rounds_def)

lemma port_free_cases:
  "reserved e p \<Longrightarrow> \<not> port_free e p"
  "\<not> reserved e p \<Longrightarrow> bucket_of e p = None \<Longrightarrow> port_free e p"
  "\<not> reserved e p \<Longrightarrow> bucket_of e p = Some tb \<Longrightarrow> port_free e p \<longleftrightarrow> \<not> bind_conflict e tb"
  by (simp_all add: port_free_def)

text \<open>The first scan takes the first port that is free.\<close>

lemma csk_scan_find:
  "csk_scan e remaining i port
     = map_option (\<lambda>p. (p, bucket_of e p)) (find (port_free e) (scan_ports (rounds remaining i) port))"
proof (induction e remaining i port rule: csk_scan.induct)
  case (1 e remaining i port)
  then show ?case
    using port_free_cases [of e port]
    by (subst csk_scan.simps) (auto simp: rounds_step rounds_done scan_ports_Suc split: option.splits)
qed

text \<open>A port that \<open>connect\<close> would stop at, and how its scan ends.\<close>

definition connectable :: "net_env \<Rightarrow> int \<Rightarrow> bool" where
  "connectable e p \<longleftrightarrow>
     \<not> reserved e p \<and> bhash e (bhashfn e (this_net e) p) \<noteq> [] \<and> check_established e p = 0"

definition scan_ended :: "net_env \<Rightarrow> nat \<Rightarrow> nat \<Rightarrow> int \<Rightarrow> nat \<times> int \<Rightarrow> bool" where
  "scan_ended e remaining i port r \<longleftrightarrow>
     snd r - port = int (fst r) - int i \<and> (even (fst r) \<longleftrightarrow> even i) \<and> i \<le> fst r
     \<and> find (connectable e) (scan_ports (rounds remaining i) port) = (if fst r < remaining then Some (snd r) else None)"

lemma scan_ended_next:
  "scan_ended e remaining (i + 2) (port + 2) r \<Longrightarrow> i < remaining \<Longrightarrow> \<not> connectable e port \<Longrightarrow>
     scan_ended e remaining i port r"
  unfolding scan_ended_def by (simp add: rounds_step scan_ports_Suc)

lemma connect_scan_ends: "scan_ended e remaining i port (connect_scan e remaining i port)"
proof (induction e remaining i port rule: connect_scan.induct)
  case (1 e remaining i port)
  show ?case
  proof (cases "i < remaining \<and> \<not> connectable e port")
    case True
    then have "connect_scan e remaining i port = connect_scan e remaining (i + 2) (port + 2)"
      by (subst connect_scan.simps) (auto simp: connectable_def)
    moreover have "scan_ended e remaining (i + 2) (port + 2) (connect_scan e remaining (i + 2) (port + 2))"
      using 1 True by (cases "reserved e port") (auto simp: connectable_def)
    ultimately show ?thesis using True scan_ended_next by simp
  next
    case False
    then have "connect_scan e remaining i port = (i, port)"
      by (subst connect_scan.simps) (auto simp: connectable_def neq_Nil_conv)
    then show ?thesis using False by (auto simp: scan_ended_def rounds_step rounds_done scan_ports_Suc)
  qed
qed

section \<open>The whole choice\<close>

definition sane_range :: "net_env \<Rightarrow> bool" where
  "sane_range e \<longleftrightarrow> 0 \<le> low e \<and> low e \<le> high e \<and> high e < 65536"

text \<open>The offset \<open>bind\<close> starts from: odd, hence of the other parity than \<open>low\<close>.\<close>

definition start_offset :: "net_env \<Rightarrow> 32 word \<Rightarrow> 32 word" where
  "start_offset e prandom = (prandom mod word_of_int (high e + 1 - low e)) OR 1"

lemma range_size:
  assumes "sane_range e"
  shows "uint (word_of_int (high e + 1 - low e) :: 32 word) = high e + 1 - low e"
    and "(word_of_int (high e + 1 - low e) :: 32 word) \<noteq> 0"
proof -
  show u: "uint (word_of_int (high e + 1 - low e) :: 32 word) = high e + 1 - low e"
    using assms unfolding uint_word_of_int by (simp add: sane_range_def)
  show "(word_of_int (high e + 1 - low e) :: 32 word) \<noteq> 0"
    using u assms by (metis add_strict_increasing diff_gt_0_iff_gt int_one_le_iff_zero_less order_less_irrefl
        sane_range_def uint_0_eq zle_add1_eq_le)
qed

lemma or_one_le: "uint (w OR 1 :: 32 word) \<le> uint w + 1" "odd (uint (w OR 1 :: 32 word))"
proof -
  have "w OR 1 = w + of_bool (even w)" by (rule or_one_eq)
  then have "uint (w OR 1) \<le> uint w + uint (of_bool (even w) :: 32 word)"
    using uint_add_le [of w "of_bool (even w)"] by simp
  also have "uint (of_bool (even w) :: 32 word) \<le> 1" by simp
  finally show "uint (w OR 1 :: 32 word) \<le> uint w + 1" by simp
  show "odd (uint (w OR 1 :: 32 word))" by (simp add: uint_or even_or_iff)
qed

lemma start_offset_range:
  assumes "sane_range e"
  shows "uint (start_offset e r) \<le> high e + 1 - low e" "odd (uint (start_offset e r))"
proof -
  let ?n = "word_of_int (high e + 1 - low e) :: 32 word"
  have "uint (r mod ?n) < high e + 1 - low e"
    using range_size [OF assms] assms by (simp add: uint_mod sane_range_def)
  then show "uint (start_offset e r) \<le> high e + 1 - low e"
    using or_one_le(1) [of "r mod ?n"] by (simp add: start_offset_def)
  show "odd (uint (start_offset e r))" using or_one_le(2) by (simp add: start_offset_def)
qed

lemma first_port:
  assumes "sane_range e" "uint off \<le> 65536"
  shows "sint (word_of_int (low e) + off :: 32 word) = low e + uint off"
proof -
  have "word_of_int (low e) + off = (word_of_int (low e + uint off) :: 32 word)" by simp
  moreover have "0 \<le> low e + uint off" "low e + uint off < 2 ^ 31"
    using assms by (auto simp: sane_range_def)
  ultimately show ?thesis using to_int_id [of "low e + uint off"] by (auto simp: to_int_def)
qed

text \<open>The ports \<open>bind\<close> tries: from an odd offset upwards, then from the even one below it.\<close>

definition bind_ports :: "net_env \<Rightarrow> 32 word \<Rightarrow> int list" where
  "bind_ports e r =
     (let n = nat ((high e + 2 - low e) div 2); p = low e + uint (start_offset e r) in
      scan_ports n p @ scan_ports n (p - 1))"

lemma find_append: "find P (xs @ ys) = (case find P xs of None \<Rightarrow> find P ys | Some x \<Rightarrow> Some x)"
  by (induction xs) auto

lemma parity_scan_odd:
  assumes "odd off"
  shows "parity_scan e m off
       = map_option (\<lambda>p. (p, bucket_of e p))
           (find (port_free e)
              (scan_ports (rounds m 0) (sint (word_of_int (low e) + off))
               @ scan_ports (rounds m 0) (sint (word_of_int (low e) + (off - 1)))))"
proof -
  have par: "(off - 1) AND 1 = 0" "(off - 1 - 1) AND 1 \<noteq> 0"
    using assms by (simp_all add: and_one_eq mod_2_eq_odd)
  show ?thesis
    unfolding parity_scan.simps [of e m off] parity_scan.simps [of e m "off - 1"] csk_scan_find find_append
    using par by (simp split: option.split)
qed

lemma rounds_range:
  assumes "sane_range e"
  shows "rounds (unat (word_of_int (high e + 1 - low e) :: 32 word)) 0 = nat ((high e + 2 - low e) div 2)"
proof -
  have "unat (word_of_int (high e + 1 - low e) :: 32 word) = nat (high e + 1 - low e)"
    using range_size(1) [OF assms] by (metis unat_eq_nat_uint)
  then show ?thesis using assms by (simp add: rounds_def sane_range_def nat_div_distrib)
qed

lemma inet_csk_find_open_port_find:
  assumes "sane_range e"
  shows "inet_csk_find_open_port e r
       = Ok (map_option (\<lambda>p. (p, bucket_of e p)) (find (port_free e) (bind_ports e r)))"
proof -
  let ?off = "start_offset e r"
  have off: "uint ?off \<le> 65536" "odd (uint ?off)" "odd ?off"
    using start_offset_range [OF assms, of r] assms
    by (auto simp: sane_range_def start_offset_def even_or_iff)
  then have "0 < uint ?off" by (metis even_zero less_le uint_ge_0)
  then have pred: "uint (?off - 1) = uint ?off - 1" using uint_sub_lem [of 1 ?off] by simp
  have "sint (word_of_int (low e) + ?off) = low e + uint ?off"
    "sint (word_of_int (low e) + (?off - 1)) = low e + uint ?off - 1"
    using first_port [OF assms, of ?off] first_port [OF assms, of "?off - 1"] pred off(1) by simp_all
  then show ?thesis
    using range_size(2) [OF assms] parity_scan_odd [OF off(3)] rounds_range [OF assms]
    unfolding inet_csk_find_open_port_def Let_def start_offset_def [symmetric] bind_ports_def by simp
qed

section \<open>The port of a connection\<close>

text \<open>The even number of ports in the range, and the even offset \<open>connect\<close> starts from.\<close>

definition connect_range :: "net_env \<Rightarrow> 32 word" where
  "connect_range e = (word_of_int (high e + 1 - low e) :: 32 word) AND NOT 1"

definition connect_offset :: "net_env \<Rightarrow> 32 word \<Rightarrow> 32 word" where
  "connect_offset e w = (w mod connect_range e) AND NOT 1"

lemma clear_low_bit: "uint (w AND NOT 1 :: 32 word) = 2 * (uint w div 2)"
proof -
  have "w AND NOT 1 = push_bit 1 (drop_bit 1 w)"
  proof (rule bit_word_eqI)
    fix n
    assume "n < LENGTH(32)"
    then show "bit (w AND NOT 1) n = bit (push_bit 1 (drop_bit 1 w)) n"
      unfolding bit_push_bit_iff bit_drop_bit_eq bit_and_iff bit_not_iff bit_1_iff by (cases n) auto
  qed
  moreover have "uint (w div 2 * 2) = uint (w div 2) * uint (2 :: 32 word)"
    using uint_mult_lem [of "w div 2" 2] uint_lt2p [of w] by (simp add: uint_div) linarith
  ultimately show ?thesis by (simp add: uint_div drop_bit_eq_div)
qed

lemma connect_range_size:
  assumes "sane_range e" "low e < high e"
  shows "uint (connect_range e) = 2 * ((high e + 1 - low e) div 2)" "connect_range e \<noteq> 0"
proof -
  show u: "uint (connect_range e) = 2 * ((high e + 1 - low e) div 2)"
    unfolding connect_range_def clear_low_bit range_size(1) [OF assms(1)] ..
  have "0 < (high e + 1 - low e) div 2" using assms(2) by (simp add: pos_imp_zdiv_pos_iff)
  then show "connect_range e \<noteq> 0" using u by auto
qed

lemma connect_offset_range:
  assumes "sane_range e" "low e < high e"
  shows "uint (connect_offset e w) < uint (connect_range e)" "even (uint (connect_offset e w))"
proof -
  have "0 < uint (connect_range e)" using connect_range_size(2) [OF assms] by (metis uint_0_iff uint_ge_0 less_le)
  then have "uint (w mod connect_range e) < uint (connect_range e)" by (simp add: uint_mod)
  then show "uint (connect_offset e w) < uint (connect_range e)"
    unfolding connect_offset_def clear_low_bit by presburger
  show "even (uint (connect_offset e w))" unfolding connect_offset_def clear_low_bit by simp
qed

lemma inet_hash_connect_port_scans:
  fixes hint w :: "32 word"
  assumes "sane_range e" "low e < high e"
  defines "first \<equiv> low e + uint (connect_offset e (hint + w))"
  shows "\<exists>i p. inet_hash_connect_port e hint w = Ok (p, hint + of_nat i + 2) \<and> p = first + int i \<and> even (p - low e)
           \<and> find (connectable e) (scan_ports (unat (connect_range e) div 2) first)
               = (if i < unat (connect_range e) then Some p else None)"
proof -
  let ?m = "connect_range e" and ?off = "connect_offset e (hint + w)"
  have off: "uint ?off \<le> 65536" "even (uint ?off)"
    using connect_offset_range [OF assms(1,2), of "hint + w"] connect_range_size(1) [OF assms(1,2)] assms(1)
    by (auto simp: sane_range_def)
  obtain i p where r: "connect_scan e (unat ?m) 0 first = (i, p)" by fastforce
  have "even (unat ?m)" using connect_range_size(1) [OF assms(1,2)] by (metis dvd_triv_left even_nat_iff uint_ge_0 unat_eq_nat_uint)
  then have "rounds (unat ?m) 0 = unat ?m div 2" by (simp add: rounds_def)
  moreover have "scan_ended e (unat ?m) 0 first (i, p)" using connect_scan_ends [of e "unat ?m" 0 first] r by simp
  ultimately have "p = first + int i" "even i"
    "find (connectable e) (scan_ports (unat ?m div 2) first) = (if i < unat ?m then Some p else None)"
    by (auto simp: scan_ended_def)
  moreover have "inet_hash_connect_port e hint w = Ok (p, hint + of_nat i + 2)"
    using r connect_range_size(2) [OF assms(1,2)] first_port [OF assms(1) off(1)]
    unfolding inet_hash_connect_port_def Let_def connect_range_def [symmetric] connect_offset_def [symmetric]
    by (simp add: first_def)
  ultimately show ?thesis using off(2) by (auto simp: first_def)
qed

end
