(* ===== verification/Connect_Tests.thy ===== *)
theory Connect_Tests
  imports Echo_Programs Ports
begin

text \<open>
  The programs that exercise connection set-up: the client of \<open>src/port/connect_test_client.c\<close>,
  which opens up to 50000 connections and measures the time of every thousand; the server of
  \<open>src/port/connect_test_server.c\<close>, which accepts them; \<open>socket_bind_test.c\<close> and
  \<open>socket_connect_test.c\<close>, which print the local ports the kernel chose; and
  \<open>src/handshake/syn_retries.c\<close>. The results of system calls are arguments, one entry for each
  iteration; a failing call comes with its \<open>errno\<close>.
\<close>

section \<open>\<open>connect_test_client.c\<close>\<close>

record timeval =
  tv_sec :: int
  tv_usec :: int

text \<open>The difference to the last call in milliseconds, computed in \<open>long\<close> and returned as an \<open>int\<close>.\<close>

definition time_elapse :: "timeval \<Rightarrow> timeval \<Rightarrow> int \<times> timeval" where
  "time_elapse now tv_begin =
     (to_int ((tv_sec now - tv_sec tv_begin) * 1000 + (tv_usec now - tv_usec tv_begin) sdiv 1000), now)"

definition create_inet_addr :: "(string \<Rightarrow> 32 word) \<Rightarrow> string \<Rightarrow> int \<Rightarrow> sockaddr_in" where
  "create_inet_addr inet_addr ip port =
     \<lparr>sin_family = AF_INET, sin_port = htons (word_of_int port), sin_addr = inet_addr ip\<rparr>"

text \<open>What one iteration meets: the descriptor, what \<open>connect\<close> returns for an address, and the clock.\<close>

record attempt =
  at_fd :: int
  at_connect :: "sockaddr_in \<Rightarrow> int"
  at_errno :: int
  at_clock :: timeval

record connector =
  success_counter :: int
  tv_begin :: timeval
  cn_open :: "int list" \<comment> \<open>the descriptors that are not closed\<close>
  cn_out :: string
  cn_err :: string

text \<open>
  One iteration; the flag tells whether the loop is left by \<open>break\<close>. \<open>inet_addr\<close> and \<open>strerror\<close> are
  the C library's.
\<close>

definition connect_once ::
  "(string \<Rightarrow> 32 word) \<Rightarrow> (int \<Rightarrow> string) \<Rightarrow> attempt \<Rightarrow> connector \<Rightarrow> bool \<times> connector" where
  "connect_once inet_addr strerr a c =
     (if at_fd a < 0 then (True, c\<lparr>cn_err := cn_err c @ perror strerr ''socket create failed'' (at_errno a)\<rparr>)
      else
        let addr = create_inet_addr inet_addr ''127.0.0.1'' 8080; rc = at_connect a addr in
        if rc = 0 then
          (let n = success_counter c + 1; c1 = c\<lparr>success_counter := n, cn_open := cn_open c @ [at_fd a]\<rparr> in
           if n mod 1000 = 0 then
             (case time_elapse (at_clock a) (tv_begin c) of
                (time_cost, tv) \<Rightarrow>
                  (False, c1\<lparr>tv_begin := tv,
                             cn_out := cn_out c @ ''time cost['' @ dec_int n @ '']: time: '' @ dec_int time_cost @ ''\<newline>''\<rparr>))
           else (False, c1))
        else
          (True, c\<lparr>cn_err := cn_err c @ perror strerr ''connect failed'' (at_errno a),
                   cn_out := cn_out c @ ''rc: '' @ dec_int rc @ ''\<newline>''\<rparr>))"

text \<open>The loop; \<open>None\<close> when the attempts are used up and it still runs.\<close>

fun connect_loop ::
  "(string \<Rightarrow> 32 word) \<Rightarrow> (int \<Rightarrow> string) \<Rightarrow> attempt list \<Rightarrow> connector \<Rightarrow> connector option" where
  "connect_loop inet_addr strerr as c =
     (if success_counter c < 50000 then
        (case as of
           [] \<Rightarrow> None
         | a # as' \<Rightarrow>
             (case connect_once inet_addr strerr a c of
                (True, c1) \<Rightarrow> Some c1
              | (False, c1) \<Rightarrow> connect_loop inet_addr strerr as' c1))
      else Some c)"

declare connect_loop.simps [simp del]

text \<open>\<open>main\<close> up to the final \<open>sleep\<close>.\<close>

definition connect_main ::
  "(string \<Rightarrow> 32 word) \<Rightarrow> (int \<Rightarrow> string) \<Rightarrow> attempt list \<Rightarrow> timeval \<Rightarrow> connector option" where
  "connect_main inet_addr strerr as start =
     map_option (\<lambda>c. c\<lparr>cn_out := cn_out c @ ''in the end '' @ dec_int (success_counter c) @ ''\<newline>''\<rparr>)
       (connect_loop inet_addr strerr as
          \<lparr>success_counter = 0, tv_begin = start, cn_open = [], cn_out = '''', cn_err = ''''\<rparr>)"

section \<open>\<open>connect_test_server.c\<close>\<close>

definition cs_init_sock :: "sys \<Rightarrow> 16 word \<Rightarrow> int outcome" where
  "cs_init_sock sy port =
     (let serv_addr = \<lparr>sin_family = AF_INET, sin_port = htons port, sin_addr = 0\<rparr> in
      if bind_rt sy serv_addr \<noteq> 0 then Fatal ''bind error''
      else if listen_rt sy < 0 then Fatal ''bind error''
      else Ok (socket_rt sy))"

record acceptor =
  ac_listen :: int
  ac_got :: "int list" \<comment> \<open>what the calls of \<open>accept\<close> have returned; the program drops it\<close>
  ac_out :: string
  ac_err :: string

text \<open>\<open>accept k\<close> is what the call number \<open>k\<close> of \<open>accept\<close> returns: a descriptor, or -1 when it fails.\<close>

definition accept_one :: "(nat \<Rightarrow> int) \<Rightarrow> acceptor \<Rightarrow> acceptor" where
  "accept_one accept s = s\<lparr>ac_got := ac_got s @ [accept (length (ac_got s))]\<rparr>"

text \<open>A round of the loop on what \<open>epoll_wait\<close> returns and the array of events after it.\<close>

definition accept_round :: "(nat \<Rightarrow> int) \<Rightarrow> int \<times> int list \<Rightarrow> acceptor \<Rightarrow> acceptor" where
  "accept_round accept w s =
     (case w of (rc, events) \<Rightarrow>
        if rc \<le> 0 then s\<lparr>ac_out := ac_out s @ ''wait: '' @ dec_int rc @ ''\<newline>''\<rparr>
        else fold (\<lambda>fd s. if fd = ac_listen s then accept_one accept s else s) (take (nat rc) events) s)"

text \<open>\<open>main\<close> up to the loop.\<close>

definition accept_main :: "sys \<Rightarrow> int \<Rightarrow> (int \<Rightarrow> int) \<Rightarrow> acceptor option outcome" where
  "accept_main sy errno epoll_ctl =
     obind (cs_init_sock sy 8080) (\<lambda>fd.
       let err = (if fd < 0 then perror (strerror sy) ''listen failed'' errno else '''') in
       if epoll_ctl fd < 0 then Ok None
       else Ok (Some \<lparr>ac_listen = fd, ac_got = [], ac_out = '''', ac_err = err\<rparr>))"

section \<open>\<open>socket_bind_test.c\<close> and \<open>socket_connect_test.c\<close>\<close>

text \<open>What one call of \<open>print_local_port\<close> meets; without \<open>getsockname\<close> the address is what the stack held.\<close>

record local_try =
  lt_socket :: "int \<times> int" \<comment> \<open>result and \<open>errno\<close>, also below\<close>
  lt_named :: "sockaddr_in \<Rightarrow> int \<times> int" \<comment> \<open>\<open>bind\<close> or \<open>connect\<close>\<close>
  lt_getsockname :: "int \<times> int"
  lt_local :: sockaddr_in

definition print_bound_port :: "(int \<Rightarrow> string) \<Rightarrow> local_try \<Rightarrow> string \<times> string" where
  "print_bound_port strerr t =
     (let (sockfd, e1) = lt_socket t;
          err1 = (if sockfd = - 1 then perror strerr ''socket create error'' e1 else '''');
          serv_addr = \<lparr>sin_family = AF_INET, sin_port = htons 0, sin_addr = 0\<rparr>;
          (rc2, e2) = lt_named t serv_addr;
          err2 = (if rc2 < 0 then perror strerr ''bind error'' e2 else '''');
          (rc3, e3) = lt_getsockname t;
          err3 = (if rc3 < 0 then perror strerr ''getsockname error'' e3 else '''') in
      (''bind local port: '' @ dec_int (uint (htons (sin_port (lt_local t)))) @ ''\<newline>'', err1 @ err2 @ err3))"

definition print_connected_port :: "(string \<Rightarrow> 32 word) \<Rightarrow> (int \<Rightarrow> string) \<Rightarrow> local_try \<Rightarrow> string \<times> string" where
  "print_connected_port inet_addr strerr t =
     (let (sockfd, e1) = lt_socket t;
          err1 = (if sockfd = - 1 then perror strerr ''socket create error'' e1 else '''');
          remote_addr = \<lparr>sin_family = AF_INET, sin_port = htons 8080, sin_addr = inet_addr ''127.0.0.1''\<rparr>;
          (rc2, e2) = lt_named t remote_addr;
          err2 = (if rc2 < 0 then perror strerr ''connect error'' e2 else '''');
          (rc3, e3) = lt_getsockname t;
          err3 = (if rc3 < 0 then perror strerr ''getsockname error'' e3 else '''') in
      (''local port: '' @ dec_int (uint (htons (sin_port (lt_local t)))) @ ''\<newline>'', err1 @ err2 @ err3))"

text \<open>\<open>main\<close> of both: ten calls, the \<open>i\<close>-th of which meets \<open>t i\<close>.\<close>

definition print_ports :: "(local_try \<Rightarrow> string \<times> string) \<Rightarrow> (nat \<Rightarrow> local_try) \<Rightarrow> string \<times> string" where
  "print_ports print_local_port t =
     fold (\<lambda>i (out, err). case print_local_port (t i) of (o1, e1) \<Rightarrow> (out @ o1, err @ e1)) [0..<10] ('''', '''')"

definition bind_main :: "(int \<Rightarrow> string) \<Rightarrow> (nat \<Rightarrow> local_try) \<Rightarrow> string \<times> string" where
  "bind_main strerr = print_ports (print_bound_port strerr)"

definition connect_ports_main :: "(string \<Rightarrow> 32 word) \<Rightarrow> (int \<Rightarrow> string) \<Rightarrow> (nat \<Rightarrow> local_try) \<Rightarrow> string \<times> string" where
  "connect_ports_main inet_addr strerr = print_ports (print_connected_port inet_addr strerr)"

section \<open>\<open>syn_retries.c\<close>\<close>

definition syn_main :: "(string \<Rightarrow> 32 word) \<Rightarrow> sys \<Rightarrow> string" where
  "syn_main inet_addr sy =
     (let server_addr = \<lparr>sin_family = AF_INET, sin_port = htons 8080, sin_addr = inet_addr ''127.0.0.1''\<rparr> in
      ''fd: '' @ dec_int (socket_rt sy) @ ''\<newline>'' @ ''ret: '' @ dec_int (connect_rt sy server_addr) @ ''\<newline>'')"

section \<open>Time\<close>

text \<open>Microseconds between two clock readings.\<close>

definition micros :: "timeval \<Rightarrow> timeval \<Rightarrow> int" where
  "micros now tv = (tv_sec now - tv_sec tv) * 1000000 + (tv_usec now - tv_usec tv)"

definition valid_tv :: "timeval \<Rightarrow> bool" where
  "valid_tv tv \<longleftrightarrow> 0 \<le> tv_usec tv \<and> tv_usec tv < 1000000"

lemma time_elapse_ms:
  assumes "valid_tv now" "valid_tv tv" "0 \<le> micros now tv" "micros now tv < 2147483647 * 1000"
  shows "fst (time_elapse now tv) \<in> {micros now tv div 1000, micros now tv div 1000 + 1}"
    and "tv_usec tv \<le> tv_usec now \<Longrightarrow> fst (time_elapse now tv) = micros now tv div 1000"
proof -
  let ?s = "tv_sec now - tv_sec tv" and ?u = "tv_usec now - tv_usec tv"
  let ?ms = "?s * 1000 + ?u sdiv 1000"
  have u: "?u sdiv 1000 = (if 0 \<le> ?u then ?u div 1000 else - (- ?u div 1000))"
    by (simp add: signed_divide_int_def sgn_if zdiv_int)
  have m: "micros now tv div 1000 = ?s * 1000 + ?u div 1000"
    by (simp add: micros_def algebra_simps)
  have "?u div 1000 \<le> ?u sdiv 1000" "?u sdiv 1000 \<le> ?u div 1000 + 1" using u by (auto; presburger)+
  then have ms: "micros now tv div 1000 \<le> ?ms" "?ms \<le> micros now tv div 1000 + 1" using m by simp_all
  moreover have "0 \<le> micros now tv div 1000" "micros now tv div 1000 < 2147483647" using assms(3,4) by simp_all
  ultimately have int: "to_int ?ms = ?ms" by (intro to_int_id) simp_all
  then show "fst (time_elapse now tv) \<in> {micros now tv div 1000, micros now tv div 1000 + 1}"
    using ms by (auto simp: time_elapse_def)
  show "tv_usec tv \<le> tv_usec now \<Longrightarrow> fst (time_elapse now tv) = micros now tv div 1000"
    using int u m by (simp add: time_elapse_def)
qed

section \<open>The loop of the client\<close>

definition attempt_ok :: "(string \<Rightarrow> 32 word) \<Rightarrow> attempt \<Rightarrow> bool" where
  "attempt_ok inet_addr a \<longleftrightarrow>
     0 \<le> at_fd a \<and> at_connect a (create_inet_addr inet_addr ''127.0.0.1'' 8080) = 0"

lemma connect_once_ok:
  assumes "attempt_ok inet_addr a"
  shows "\<exists>c1. connect_once inet_addr strerr a c = (False, c1)
           \<and> success_counter c1 = success_counter c + 1 \<and> cn_open c1 = cn_open c @ [at_fd a]"
  using assms by (simp add: attempt_ok_def connect_once_def time_elapse_def Let_def)

lemma connect_once_fails:
  assumes "\<not> attempt_ok inet_addr a"
  shows "\<exists>c1. connect_once inet_addr strerr a c = (True, c1)
           \<and> success_counter c1 = success_counter c \<and> cn_open c1 = cn_open c"
  using assms by (auto simp: attempt_ok_def connect_once_def Let_def)

text \<open>
  The loop ends when 50000 attempts have succeeded or one fails, whichever comes first; it has
  counted the successful ones and holds exactly their descriptors.
\<close>

lemma connect_loop_holds:
  "success_counter c = int (length (cn_open c)) \<Longrightarrow> length (cn_open c) \<le> 50000 \<Longrightarrow>
     50000 - length (cn_open c) \<le> length (takeWhile (attempt_ok inet_addr) as) \<or> (\<exists>a \<in> set as. \<not> attempt_ok inet_addr a) \<Longrightarrow>
     \<exists>c1. connect_loop inet_addr strerr as c = Some c1
        \<and> cn_open c1 = cn_open c @ map at_fd (take (50000 - length (cn_open c)) (takeWhile (attempt_ok inet_addr) as))
        \<and> success_counter c1 = int (length (cn_open c1))"
proof (induction as arbitrary: c)
  case Nil
  then show ?case by (auto simp: connect_loop.simps)
next
  case (Cons a as)
  consider "length (cn_open c) = 50000"
    | "length (cn_open c) < 50000" "\<not> attempt_ok inet_addr a"
    | "length (cn_open c) < 50000" "attempt_ok inet_addr a"
    using Cons.prems(2) by linarith
  then show ?case
  proof cases
    case 1
    then show ?thesis using Cons.prems(1) by (simp add: connect_loop.simps)
  next
    case 2
    then show ?thesis
      using connect_once_fails [OF 2(2), of strerr c] Cons.prems(1)
      by (subst connect_loop.simps) auto
  next
    case 3
    obtain c1 where c1: "connect_once inet_addr strerr a c = (False, c1)"
      "success_counter c1 = success_counter c + 1" "cn_open c1 = cn_open c @ [at_fd a]"
      using connect_once_ok [OF 3(2)] by blast
    have "connect_loop inet_addr strerr (a # as) c = connect_loop inet_addr strerr as c1"
      using c1(1) 3(1) Cons.prems(1) by (subst connect_loop.simps) simp
    moreover have "50000 - length (cn_open c) = Suc (50000 - length (cn_open c1))" using 3(1) c1(3) by simp
    ultimately show ?thesis
      using Cons.IH [of c1] Cons.prems 3 c1 by auto
  qed
qed

section \<open>The loop of the server\<close>

text \<open>
  The server accepts once for every event on the listening socket, in whatever rounds they come, and
  whether or not the calls succeed; it prints every result of \<open>epoll_wait\<close> below 1.
\<close>

definition listen_events :: "int \<Rightarrow> int \<times> int list \<Rightarrow> nat" where
  "listen_events fd w = count_list (take (nat (fst w)) (snd w)) fd"

definition wait_message :: "int \<times> int list \<Rightarrow> string" where
  "wait_message w = (if fst w \<le> 0 then ''wait: '' @ dec_int (fst w) @ ''\<newline>'' else '''')"

lemma accept_events:
  "fold (\<lambda>fd s. if fd = ac_listen s then accept_one accept s else s) fds s
     = s\<lparr>ac_got := ac_got s @ map accept [length (ac_got s)..<length (ac_got s) + count_list fds (ac_listen s)]\<rparr>"
  by (induction fds arbitrary: s) (auto simp: accept_one_def upt_rec)

lemma accept_rounds:
  "fold (accept_round accept) ws s
     = s\<lparr>ac_got := ac_got s @ map accept [length (ac_got s)..<length (ac_got s) + sum_list (map (listen_events (ac_listen s)) ws)],
         ac_out := ac_out s @ concat (map wait_message ws)\<rparr>"
proof (induction ws arbitrary: s)
  case (Cons w ws)
  let ?n = "length (ac_got s)" and ?k = "listen_events (ac_listen s) w"
  have "accept_round accept w s
      = s\<lparr>ac_got := ac_got s @ map accept [?n..<?n + ?k], ac_out := ac_out s @ wait_message w\<rparr>"
    by (simp add: accept_round_def accept_events listen_events_def wait_message_def split_beta)
  moreover have "[?n..<?n + (?k + m)] = [?n..<?n + ?k] @ [?n + ?k..<?n + (?k + m)]" for m
    using upt_add_eq_append [of ?n "?n + ?k" m] by (simp add: add.assoc)
  ultimately show ?case by (simp add: Cons.IH add.assoc)
qed simp

lemma load_server_accepts:
  assumes "accept_main sy errno epoll_ctl = Ok (Some s)"
  shows "ac_got (fold (accept_round accept) ws s) = map accept [0..<sum_list (map (listen_events (socket_rt sy)) ws)]"
    "ac_out (fold (accept_round accept) ws s) = concat (map wait_message ws)"
proof -
  have "ac_got s = []" "ac_out s = ''''" "ac_listen s = socket_rt sy"
    using assms by (auto simp: accept_main_def cs_init_sock_def Let_def obind_Ok_iff split: if_splits)
  then show "ac_got (fold (accept_round accept) ws s) = map accept [0..<sum_list (map (listen_events (socket_rt sy)) ws)]"
    "ac_out (fold (accept_round accept) ws s) = concat (map wait_message ws)"
    by (simp_all add: accept_rounds)
qed

section \<open>Printing ports\<close>

lemma print_ports_concat:
  "print_ports p t = (concat (map (\<lambda>i. fst (p (t i))) [0..<10]), concat (map (\<lambda>i. snd (p (t i))) [0..<10]))"
proof -
  have "fold (\<lambda>i (out, err). case p (t i) of (o1, e1) \<Rightarrow> (out @ o1, err @ e1)) is (out, err)
      = (out @ concat (map (\<lambda>i. fst (p (t i))) is), err @ concat (map (\<lambda>i. snd (p (t i))) is))" for "is" out err
    by (induction "is" arbitrary: out err) (simp_all add: split_beta)
  then show ?thesis by (simp add: print_ports_def)
qed

text \<open>A call in which nothing fails and the kernel reports \<open>port\<close>, in network byte order.\<close>

definition reports_port :: "local_try \<Rightarrow> int \<Rightarrow> bool" where
  "reports_port t port \<longleftrightarrow>
     fst (lt_socket t) \<noteq> - 1 \<and> (\<forall>a. 0 \<le> fst (lt_named t a)) \<and> 0 \<le> fst (lt_getsockname t)
     \<and> sin_port (lt_local t) = htons (word_of_int port)"

lemma print_bound_port_reports:
  assumes "reports_port t port" "0 \<le> port" "port < 65536"
  shows "print_bound_port strerr t = (''bind local port: '' @ dec_int port @ ''\<newline>'', '''')"
proof -
  have "uint (word_of_int port :: 16 word) = port" using assms(2,3) by (simp add: unsigned_of_int take_bit_int_eq_self)
  moreover have "\<not> fst (lt_named t \<lparr>sin_family = AF_INET, sin_port = htons 0, sin_addr = 0\<rparr>) < 0"
    using assms(1) by (simp add: reports_port_def not_less)
  ultimately show ?thesis
    using assms(1) by (simp add: print_bound_port_def reports_port_def htons_htons Let_def split_beta)
qed

end
