(* ===== verification/Port_Results.thy ===== *)
theory Port_Results
  imports Connect_Tests
begin

text \<open>
  The results about the kernel excerpts and the programs under \<open>src/port\<close>: which port \<open>bind\<close> and
  \<open>connect\<close> choose, what the test programs print of it, and the load test.
\<close>

section \<open>A concrete kernel\<close>

text \<open>The default range with the given ports taken; one bucket for each, all in one chain.\<close>

definition kernel :: "int list \<Rightarrow> net_env" where
  "kernel taken =
     \<lparr>this_net = 0, low = 32768, high = 60999, reserved = (\<lambda>p. p = 40000),
      bhash = (\<lambda>_. map (\<lambda>p. \<lparr>ib_net = 0, ib_port = p\<rparr>) taken), bhashfn = (\<lambda>_ _. 0),
      bind_conflict = (\<lambda>_. True), check_established = (\<lambda>p. if p \<in> set taken then - 1 else 0)\<rparr>"

lemma kernel_simps [simp]:
  "low (kernel taken) = 32768" "high (kernel taken) = 60999" "sane_range (kernel taken)"
  by (simp_all add: kernel_def sane_range_def)

lemma bucket_of_kernel: "bucket_of (kernel taken) p = None \<longleftrightarrow> p \<notin> set taken"
  by (auto simp: bucket_of_def kernel_def find_None_iff)

lemma port_free_kernel: "port_free (kernel taken) p \<longleftrightarrow> p \<noteq> 40000 \<and> p \<notin> set taken"
proof -
  have "reserved (kernel taken) p \<longleftrightarrow> p = 40000" "bind_conflict (kernel taken) tb" for tb by (simp_all add: kernel_def)
  then show ?thesis
    using bucket_of_kernel [of taken p] by (cases "bucket_of (kernel taken) p") (auto simp: port_free_def)
qed

section \<open>The port of \<open>bind\<close>\<close>

text \<open>
  C27. \<open>inet_csk_find_open_port\<close> is a search: for any range of ports the two scans together return
  the first port of \<open>bind_ports\<close> that is neither reserved nor held by a conflicting bucket, with its
  bucket if it has one, and \<open>NULL\<close> exactly when no such port is among them.
\<close>

theorem bind_port_first_free:
  assumes "sane_range e"
  shows "inet_csk_find_open_port e r
       = Ok (map_option (\<lambda>p. (p, bucket_of e p)) (find (port_free e) (bind_ports e r)))"
  by (rule inet_csk_find_open_port_find [OF assms])

lemma start_offset_default:
  assumes "low e = 32768" "high e = 60999" "r < 28232"
  shows "start_offset e r = r OR 1"
proof -
  have "r mod (28232 :: 32 word) = r" using assms(3) by (simp add: word_less_def uint_mod word_uint_eq_iff)
  then show ?thesis using assms(1,2) by (simp add: start_offset_def)
qed

lemma bind_ports_first:
  assumes "sane_range e" "p = low e + uint (start_offset e r)"
  shows "\<exists>ps. bind_ports e r = p # ps"
proof -
  have "0 < nat ((high e + 2 - low e) div 2)" using assms(1) by (auto simp: sane_range_def)
  then obtain n where "nat ((high e + 2 - low e) div 2) = Suc n" using gr0_implies_Suc by blast
  then show ?thesis using assms(2) by (simp add: bind_ports_def scan_ports_Suc Let_def)
qed

theorem bind_port_first_free_witness:
  "inet_csk_find_open_port (kernel [32769]) 4 = Ok (Some (32773, None))"
proof -
  let ?e = "kernel [32769]"
  have "start_offset ?e 4 = 5" using start_offset_default [of ?e 4] by (simp add: word_less_def)
  then obtain ps where "bind_ports ?e 4 = 32773 # ps" using bind_ports_first [of ?e 32773 4] by auto
  then show ?thesis
    using bind_port_first_free [of ?e 4] port_free_kernel [of "[32769]" 32773] bucket_of_kernel [of "[32769]" 32773] by simp
qed

text \<open>
  The scan does not come back to the start of the range, which the kernel it is taken from does
  with \<open>if (port >= high) port -= remaining\<close>: with the default range 32768 to 60999, a random offset
  at its end and port 60999 in use, the port chosen is 61001, outside the configured range.
\<close>

theorem bind_port_above_range:
  assumes "low e = 32768" "high e = 60999" "\<not> port_free e 60999" "port_free e 61001"
  shows "inet_csk_find_open_port e 28230 = Ok (Some (61001, bucket_of e 61001))"
proof -
  have e: "sane_range e" using assms(1,2) by (simp add: sane_range_def)
  have "start_offset e 28230 = 28231" using start_offset_default [OF assms(1,2), of 28230] by (simp add: word_less_def)
  then have "bind_ports e 28230 = scan_ports 14116 60999 @ scan_ports 14116 60998"
    using assms(1,2) by (simp add: bind_ports_def Let_def)
  moreover have "scan_ports 14116 60999 = 60999 # 61001 # scan_ports 14114 61003"
    using scan_ports_Suc [of 14115 60999] scan_ports_Suc [of 14114 61001] by simp
  ultimately show ?thesis
    using inet_csk_find_open_port_find [OF e, of 28230] assms(3,4) by simp
qed

theorem bind_port_above_range_witness:
  "inet_csk_find_open_port (kernel [60999]) 28230 = Ok (Some (61001, None))"
  using bind_port_above_range [of "kernel [60999]"] bucket_of_kernel [of "[60999]" 61001] by (simp add: port_free_kernel)

text \<open>
  For the same reason free ports can be missed: when no port from the random starting point
  on is free, the result is \<open>NULL\<close>, however many ports of the range below that point are free.
\<close>

theorem bind_port_misses_free:
  assumes "sane_range e" "\<And>p. low e + uint (start_offset e r) - 1 \<le> p \<Longrightarrow> \<not> port_free e p"
  shows "inet_csk_find_open_port e r = Ok None"
proof -
  have "\<forall>p \<in> set (bind_ports e r). low e + uint (start_offset e r) - 1 \<le> p"
    by (auto simp: bind_ports_def scan_ports_def Let_def)
  then have "find (port_free e) (bind_ports e r) = None" using assms(2) by (simp add: find_None_iff)
  then show ?thesis using inet_csk_find_open_port_find [OF assms(1), of r] by simp
qed

theorem bind_port_misses_free_witness:
  "\<exists>e. sane_range e \<and> (\<forall>p. port_free e p \<longleftrightarrow> p < 60000) \<and> inet_csk_find_open_port e 28230 = Ok None"
proof -
  let ?e = "(kernel [])\<lparr>reserved := \<lambda>p. 60000 \<le> p\<rparr>"
  have e: "low ?e = 32768" "high ?e = 60999" "sane_range ?e" by (simp_all add: kernel_def sane_range_def)
  have free: "port_free ?e p \<longleftrightarrow> p < 60000" for p by (auto simp: port_free_def bucket_of_def kernel_def)
  have "uint (start_offset ?e 28230) = 28231" using start_offset_default [OF e(1,2), of 28230] by (simp add: word_less_def)
  then have "inet_csk_find_open_port ?e 28230 = Ok None"
    using bind_port_misses_free [OF e(3), of 28230] free e(1) by simp
  then show ?thesis using e(3) free by blast
qed

section \<open>The port of \<open>connect\<close>\<close>

text \<open>
  C28. \<open>inet_hash_connect\<close> starts at the offset that the keyed hash of the addresses and the static
  \<open>hint\<close> give, and looks only at ports of the parity of \<open>low\<close>, upwards: it stops at the first that
  is not reserved, has a non-empty chain and passes \<open>check_established\<close>, so that a port nobody
  uses, whose chain is empty, is passed over; without such a port it runs through half of the
  range. \<open>hint\<close> grows by the distance \<open>i\<close> from the first port looked at to the one where it stopped,
  plus 2. So it records an offset, not the last port selected plus 2 that the comment in the source
  speaks of.
\<close>

theorem connect_port_first:
  assumes "sane_range e" "low e < high e"
    and "first = low e + uint (connect_offset e (hint + inet_sk_port_offset siphash_3u32 net_secret sk))"
  shows "\<exists>i p. inet_hash_connect siphash_3u32 net_secret e hint sk = Ok (p, hint + of_nat i + 2)
           \<and> p = first + int i \<and> even (p - low e)
           \<and> find (connectable e) (scan_ports (unat (connect_range e) div 2) first)
               = (if i < unat (connect_range e) then Some p else None)"
  using inet_hash_connect_port_scans [OF assms(1,2), of hint "inet_sk_port_offset siphash_3u32 net_secret sk"] assms(3)
  by (simp add: inet_hash_connect_def)

theorem connect_port_first_witness:
  "inet_hash_connect (\<lambda>s d p k. s + k) 1 (kernel [32770]) 5 \<lparr>inet_rcv_saddr = 0, inet_daddr = 0, inet_dport = 80\<rparr>
     = Ok (32774, 7)"
proof -
  let ?e = "kernel [32770]" and ?sk = "\<lparr>inet_rcv_saddr = 0, inet_daddr = 0, inet_dport = 80\<rparr>"
  have n: "uint (connect_range ?e) = 28232" using connect_range_size(1) [of ?e] by simp
  then have m: "unat (connect_range ?e) = 28232" by (simp add: unat_eq_nat_uint)
  have off: "uint (connect_offset ?e 6) = 6" unfolding connect_offset_def clear_low_bit using n by (simp add: uint_mod)
  have c: "connectable ?e 32774" by (simp add: connectable_def kernel_def)
  have "scan_ports (unat (connect_range ?e) div 2) 32774 = 32774 # scan_ports 14115 32776"
    using scan_ports_Suc [of 14115 32774] m by simp
  then show ?thesis
    using connect_port_first [of ?e "32774" 5 "\<lambda>s d p k. s + k" 1 ?sk] c off m
    by (auto simp: inet_sk_port_offset_def secure_ipv4_port_ephemeral_def split: if_splits)
qed

text \<open>
  C29. \<open>bind\<close> and \<open>connect\<close> keep out of each other's way, as the comments in both promise: as long as
  some port of the other parity than \<open>low\<close> is free from the starting point on, \<open>bind\<close> gets a port of
  that parity, while \<open>connect\<close> only ever uses ports of the parity of \<open>low\<close>.
\<close>

theorem bind_connect_disjoint:
  assumes "sane_range e" "low e < high e"
    and "p \<in> set (scan_ports (nat ((high e + 2 - low e) div 2)) (low e + uint (start_offset e r)))" "port_free e p"
  shows "\<exists>p tb q h. inet_csk_find_open_port e r = Ok (Some (p, tb))
           \<and> inet_hash_connect siphash_3u32 net_secret e hint sk = Ok (q, h)
           \<and> odd (p - low e) \<and> even (q - low e)"
proof -
  let ?n = "nat ((high e + 2 - low e) div 2)" and ?first = "low e + uint (start_offset e r)"
  obtain p1 where p1: "find (port_free e) (scan_ports ?n ?first) = Some p1"
    using assms(3,4) by (cases "find (port_free e) (scan_ports ?n ?first)") (auto simp: find_None_iff)
  then have "p1 \<in> set (scan_ports ?n ?first)" by (auto simp: find_Some_iff)
  then have "odd (p1 - low e)"
    using start_offset_range(2) [OF assms(1), of r] by (auto simp: scan_ports_def)
  moreover have "find (port_free e) (bind_ports e r) = Some p1"
    using p1 by (simp add: bind_ports_def find_append Let_def)
  moreover obtain q h where "inet_hash_connect siphash_3u32 net_secret e hint sk = Ok (q, h)" "even (q - low e)"
    using inet_hash_connect_port_scans [OF assms(1,2)] by (metis inet_hash_connect_def)
  ultimately show ?thesis using inet_csk_find_open_port_find [OF assms(1), of r] by simp
qed

theorem bind_connect_disjoint_witness:
  "\<exists>p tb q h. inet_csk_find_open_port (kernel []) 4 = Ok (Some (p, tb))
     \<and> inet_hash_connect (\<lambda>s d p k. s + k) 1 (kernel []) 5 \<lparr>inet_rcv_saddr = 0, inet_daddr = 0, inet_dport = 80\<rparr> = Ok (q, h)
     \<and> odd (p - 32768) \<and> even (q - 32768)"
proof -
  have "start_offset (kernel []) 4 = 5" using start_offset_default [of "kernel []" 4] by (simp add: word_less_def)
  then have "32773 \<in> set (scan_ports 14116 (low (kernel []) + uint (start_offset (kernel []) 4)))"
    using scan_ports_Suc [of 14115 32773] by simp
  then show ?thesis
    using bind_connect_disjoint [of "kernel []" 32773 4 "\<lambda>s d p k. s + k" 1 5
        "\<lparr>inet_rcv_saddr = 0, inet_daddr = 0, inet_dport = 80\<rparr>"] by (simp add: port_free_kernel)
qed

section \<open>The test programs\<close>

text \<open>
  \<open>socket_bind_test.c\<close> over the kernel's choice: when each of its ten calls of \<open>bind\<close> gets the
  port that \<open>inet_csk_find_open_port\<close> returns and \<open>getsockname\<close> reports it in network byte order, the
  program prints these ports, nothing on standard error, and every printed port was free.
\<close>

theorem bind_test_prints_free_ports:
  assumes "\<And>i. i < 10 \<Longrightarrow> sane_range (e i) \<and> inet_csk_find_open_port (e i) (r i) = Ok (Some (port i, tb i))"
    and "\<And>i. i < 10 \<Longrightarrow> reports_port (t i) (port i) \<and> 0 \<le> port i \<and> port i < 65536"
  shows "bind_main strerr t = (concat (map (\<lambda>i. ''bind local port: '' @ dec_int (port i) @ ''\<newline>'') [0..<10]), '''')
         \<and> (\<forall>i < 10. port_free (e i) (port i))"
proof
  have "print_bound_port strerr (t i) = (''bind local port: '' @ dec_int (port i) @ ''\<newline>'', '''')" if "i < 10" for i
    using print_bound_port_reports assms(2) [OF that] by blast
  then have "map (\<lambda>i. fst (print_bound_port strerr (t i))) [0..<10] = map (\<lambda>i. ''bind local port: '' @ dec_int (port i) @ ''\<newline>'') [0..<10]"
    "map (\<lambda>i. snd (print_bound_port strerr (t i))) [0..<10] = map (\<lambda>i. '''') [0..<10]" by simp_all
  then show "bind_main strerr t = (concat (map (\<lambda>i. ''bind local port: '' @ dec_int (port i) @ ''\<newline>'') [0..<10]), '''')"
    unfolding bind_main_def print_ports_concat by (simp only: map_replicate_trivial) simp
  show "\<forall>i < 10. port_free (e i) (port i)"
  proof (intro allI impI)
    fix i :: nat
    assume "i < 10"
    then have "find (port_free (e i)) (bind_ports (e i) (r i)) = Some (port i)"
      using assms(1) [of i] inet_csk_find_open_port_find [of "e i" "r i"]
      by (cases "find (port_free (e i)) (bind_ports (e i) (r i))") simp_all
    then show "port_free (e i) (port i)" by (auto simp: find_Some_iff)
  qed
qed

theorem bind_test_prints_free_ports_witness:
  "fst (bind_main (\<lambda>_. '''') (\<lambda>i. \<lparr>lt_socket = (3, 0), lt_named = (\<lambda>_. (0, 0)), lt_getsockname = (0, 0),
      lt_local = \<lparr>sin_family = 2, sin_port = htons (word_of_int 32773), sin_addr = 0\<rparr>\<rparr>))
     = concat (replicate 10 (''bind local port: '' @ dec_int 32773 @ ''\<newline>''))"
proof -
  have "start_offset (kernel []) 4 = 5" using start_offset_default [of "kernel []" 4] by (simp add: word_less_def)
  then obtain ps where "bind_ports (kernel []) 4 = 32773 # ps" using bind_ports_first [of "kernel []" 32773 4] by auto
  then have "inet_csk_find_open_port (kernel []) 4 = Ok (Some (32773, None))"
    using inet_csk_find_open_port_find [of "kernel []" 4] port_free_kernel [of "[]" 32773] bucket_of_kernel [of "[]" 32773] by simp
  then show ?thesis
    using bind_test_prints_free_ports [of "\<lambda>_. kernel []" "\<lambda>_. 4" "\<lambda>_. 32773" "\<lambda>_. None"
        "\<lambda>i. \<lparr>lt_socket = (3, 0), lt_named = (\<lambda>_. (0, 0)), lt_getsockname = (0, 0),
            lt_local = \<lparr>sin_family = 2, sin_port = htons (word_of_int 32773), sin_addr = 0\<rparr>\<rparr>" "\<lambda>_. ''''"]
    by (simp add: reports_port_def map_replicate_const)
qed

text \<open>
  C30. The load test \<open>connect_test_client.c\<close>: it stops after 50000 connections or at the first
  attempt that fails; it then holds exactly the descriptors of the attempts that succeeded before,
  in order, closed none of them, and its counter is their number.
\<close>

theorem load_test_counts:
  assumes "50000 \<le> length (takeWhile (attempt_ok inet_addr) as) \<or> (\<exists>a \<in> set as. \<not> attempt_ok inet_addr a)"
  shows "\<exists>c. connect_main inet_addr strerr as start = Some c
           \<and> cn_open c = map at_fd (take 50000 (takeWhile (attempt_ok inet_addr) as))
           \<and> success_counter c = int (length (cn_open c))"
proof -
  let ?c = "\<lparr>success_counter = 0, tv_begin = start, cn_open = [], cn_out = '''', cn_err = ''''\<rparr>"
  obtain c1 where "connect_loop inet_addr strerr as ?c = Some c1"
    "cn_open c1 = map at_fd (take 50000 (takeWhile (attempt_ok inet_addr) as))" "success_counter c1 = int (length (cn_open c1))"
    using connect_loop_holds [of ?c inet_addr as strerr] assms by auto
  then show ?thesis by (simp add: connect_main_def)
qed

theorem load_test_counts_witness:
  "\<exists>c. connect_main (\<lambda>_. 0) (\<lambda>_. '''')
        [\<lparr>at_fd = 3, at_connect = \<lambda>_. 0, at_errno = 0, at_clock = \<lparr>tv_sec = 0, tv_usec = 0\<rparr>\<rparr>,
         \<lparr>at_fd = 4, at_connect = \<lambda>_. - 1, at_errno = 111, at_clock = \<lparr>tv_sec = 0, tv_usec = 0\<rparr>\<rparr>]
        \<lparr>tv_sec = 0, tv_usec = 0\<rparr> = Some c \<and> cn_open c = [3] \<and> success_counter c = 1"
  using load_test_counts [of "\<lambda>_. 0"
      "[\<lparr>at_fd = 3, at_connect = \<lambda>_. 0, at_errno = 0, at_clock = \<lparr>tv_sec = 0, tv_usec = 0\<rparr>\<rparr>,
        \<lparr>at_fd = 4, at_connect = \<lambda>_. - 1, at_errno = 111, at_clock = \<lparr>tv_sec = 0, tv_usec = 0\<rparr>\<rparr>]"
      "\<lambda>_. ''''" "\<lparr>tv_sec = 0, tv_usec = 0\<rparr>"]
  by (auto simp: attempt_ok_def)

text \<open>
  The time the load test prints: for two readings of the clock less than 24 days apart,
  \<open>time_elapse\<close> is the elapsed time in whole milliseconds when the microsecond part has not
  wrapped, and at most one more when it has (C rounds the negative difference towards zero).
\<close>

theorem time_elapse_millis:
  assumes "valid_tv now" "valid_tv tv" "0 \<le> micros now tv" "micros now tv < 2147483647 * 1000"
  shows "fst (time_elapse now tv) - micros now tv div 1000 \<in> (if tv_usec tv \<le> tv_usec now then {0} else {0, 1})
         \<and> snd (time_elapse now tv) = now"
  using time_elapse_ms [OF assms] by (auto simp: time_elapse_def)

theorem time_elapse_millis_witness:
  "fst (time_elapse \<lparr>tv_sec = 11, tv_usec = 500\<rparr> \<lparr>tv_sec = 10, tv_usec = 1000\<rparr>) = 1000
   \<and> micros \<lparr>tv_sec = 11, tv_usec = 500\<rparr> \<lparr>tv_sec = 10, tv_usec = 1000\<rparr> div 1000 = 999"
proof -
  let ?a = "\<lparr>tv_sec = 11, tv_usec = 500\<rparr>" and ?b = "\<lparr>tv_sec = 10, tv_usec = 1000\<rparr>"
  have "fst (time_elapse ?a ?b) - micros ?a ?b div 1000 \<in> {0, 1}"
    using time_elapse_millis [of ?a ?b] by (simp add: valid_tv_def micros_def)
  moreover have "fst (time_elapse ?a ?b) = 1000" by code_simp
  ultimately show ?thesis by (simp add: micros_def)
qed

end
