(* ===== verification/Event_Loops.thy ===== *)
theory Event_Loops
  imports Echo_Programs
begin

text \<open>
  The two event-driven programs under \<open>src/live/epoll\<close>: the chat client of \<open>select_test.c\<close>, one
  round of its loop per call of \<open>select\<close>, and the server of \<open>epoll_test.c\<close>, one batch of events per
  call of \<open>epoll_wait\<close>. What the system calls report is an argument.
\<close>

section \<open>\<open>select_test.c\<close>\<close>

record chat =
  recv_line :: string
  send_line :: string
  chat_sock :: conn
  chat_stdin :: string
  chat_out :: string
  chat_sent :: "string list"

text \<open>The branch for the socket.\<close>

definition chat_receive :: "chat \<Rightarrow> chat outcome" where
  "chat_receive x =
     (case recv MAXLINE (chat_sock x) of
        (Fail e, ev) \<Rightarrow> Fatal ''read error''
      | (Bytes cs, ev) \<Rightarrow>
          if cs = [] then Fatal ''server terminated \<newline>''
          else
            checked (wr (overwrite 0 cs (recv_line x)) (int (length cs)) (CHR 0x00)) (\<lambda>buf.
            checked (cstring 0 buf) (\<lambda>str.
              Ok (x\<lparr>recv_line := buf, chat_sock := ev, chat_out := chat_out x @ str @ ''\<newline>''\<rparr>))))"

text \<open>
  The branch for standard input. \<open>rt\<close> is a \<open>size_t\<close>, so that \<open>rt < 0\<close> never holds: the error branch
  is not reachable and is kept as such.
\<close>

definition chat_send :: "(nat \<Rightarrow> int) \<Rightarrow> chat \<Rightarrow> chat outcome" where
  "chat_send write_rt x =
     (case fgets MAXLINE (send_line x) (chat_stdin x) of
        None \<Rightarrow> Ok x
      | Some (buf, inp) \<Rightarrow>
          checked (cstring 0 buf) (\<lambda>str.
          checked (rd buf (int (length str) - 1)) (\<lambda>c.
          checked (if c = CHR ''\<newline>'' then wr buf (int (length str) - 1) (CHR 0x00) else Some buf) (\<lambda>buf1.
          checked (cstring 0 buf1) (\<lambda>msg.
            let rt = to_size (write_rt (length (chat_sent x))) in
            if rt < 0 then Fatal ''write failed ''
            else
              Ok (x\<lparr>send_line := buf1, chat_stdin := inp, chat_sent := chat_sent x @ [msg],
                    chat_out := chat_out x @ ''now sending '' @ msg @ ''\<newline>''
                                @ ''send bytes: '' @ dec_nat rt @ '' \<newline>''\<rparr>))))))"

definition select_round :: "(nat \<Rightarrow> int) \<Rightarrow> int \<Rightarrow> bool \<Rightarrow> bool \<Rightarrow> chat \<Rightarrow> chat outcome" where
  "select_round write_rt rc sock_set stdin_set x =
     (if rc \<le> 0 then Fatal ''select failed''
      else
        obind (if sock_set then chat_receive x else Ok x) (\<lambda>x1.
          if stdin_set then chat_send write_rt x1 else Ok x1))"

text \<open>
  \<open>main\<close>. \<open>tcp_connect\<close> is the same text as in \<open>reliable_test_client.c\<close>. The loop has no end of its own:
  \<open>chat_loop\<close> is what it has done after the given results of \<open>select\<close>.
\<close>

fun chat_loop :: "(nat \<Rightarrow> int) \<Rightarrow> (int \<times> bool \<times> bool) list \<Rightarrow> chat \<Rightarrow> chat outcome" where
  "chat_loop write_rt [] x = Ok x"
| "chat_loop write_rt ((rc, sock_set, stdin_set) # ws) x =
     obind (select_round write_rt rc sock_set stdin_set x) (chat_loop write_rt ws)"

definition chat_main ::
  "sys \<Rightarrow> string list \<Rightarrow> string \<Rightarrow> string \<Rightarrow> string \<Rightarrow> conn \<Rightarrow> (int \<times> bool \<times> bool) list \<Rightarrow> chat outcome" where
  "chat_main sy argv recv_junk send_junk inp ev ws =
     (if length argv \<noteq> 2 then Fatal ''usage: select_test remote_ip''
      else
        obind (tcp_connect sy (argv ! 1) 9090) (\<lambda>fd.
          chat_loop (send_rt sy) ws
            \<lparr>recv_line = recv_junk, send_line = send_junk, chat_sock = ev, chat_stdin = inp, chat_out = '''',
             chat_sent = []\<rparr>))"

section \<open>\<open>epoll_test.c\<close>\<close>

definition EAGAIN :: int where "EAGAIN = 11"
definition BUFSIZ :: nat where "BUFSIZ = 8192"

text \<open>
  The calls whose results the program does not look at, in the order it makes them. What they do to
  the set of descriptors the kernel watches, and whether they succeed, shows in what \<open>epoll_wait\<close>
  returns later, which is an argument.
\<close>

datatype ep_call = Ctl_add int int | Ctl_del int int | Close_fd int

record epoll_server =
  listen_fd :: int
  ep_fd :: int
  ep_calls :: "ep_call list"
  client_in :: "int \<Rightarrow> conn"
  ep_out :: "(int \<times> string) list" \<comment> \<open>the writes to \<open>STDIN_FILENO\<close>, with the client whose input it is\<close>
  ep_log :: string \<comment> \<open>standard output\<close>
  ep_err :: string

definition epoll_add :: "int \<Rightarrow> epoll_server \<Rightarrow> epoll_server" where
  "epoll_add fd s = s\<lparr>ep_calls := ep_calls s @ [Ctl_add (ep_fd s) fd]\<rparr>"

definition epoll_del :: "int \<Rightarrow> epoll_server \<Rightarrow> epoll_server" where
  "epoll_del fd s = s\<lparr>ep_calls := ep_calls s @ [Ctl_del (ep_fd s) fd]\<rparr>"

definition close_fd :: "int \<Rightarrow> epoll_server \<Rightarrow> epoll_server" where
  "close_fd fd s = s\<lparr>ep_calls := ep_calls s @ [Close_fd fd]\<rparr>"

text \<open>A new connection; \<open>accept\<close> returned \<open>client_fd\<close>, or a negative number.\<close>

definition on_accept :: "int \<Rightarrow> conn \<Rightarrow> epoll_server \<Rightarrow> epoll_server" where
  "on_accept client_fd ev s =
     (let s1 = (if 0 \<le> client_fd then s\<lparr>client_in := (client_in s)(client_fd := ev)\<rparr> else s);
          s2 = epoll_add client_fd s1 in
      s2\<lparr>ep_log := ep_log s2 @ ''connected client '' @ dec_int client_fd @ ''\<newline>''\<rparr>)"

text \<open>Input on a client: the new state, and whether the loop over the batch is left by \<open>break\<close>.\<close>

definition on_input :: "(int \<Rightarrow> string) \<Rightarrow> int \<Rightarrow> epoll_server \<Rightarrow> bool \<times> epoll_server" where
  "on_input strerr fd s =
     (case recv BUFSIZ (client_in s fd) of
        (Fail e, ev) \<Rightarrow>
          let s1 = s\<lparr>client_in := (client_in s)(fd := ev)\<rparr> in
          (True, if e \<noteq> EAGAIN then close_fd fd (s1\<lparr>ep_err := ep_err s1 @ perror strerr ''read error'' e\<rparr>) else s1)
      | (Bytes cs, ev) \<Rightarrow>
          let s1 = s\<lparr>client_in := (client_in s)(fd := ev)\<rparr> in
          (False, if cs = [] then close_fd fd (epoll_del fd s1) else s1\<lparr>ep_out := ep_out s1 @ [(fd, cs)]\<rparr>))"

text \<open>
  \<open>for (int i = 0; i < event_count; ++i)\<close>: each event is a descriptor; \<open>accepts\<close> is what the calls of
  \<open>accept\<close> of this batch return and the input of each new connection.
\<close>

fun epoll_batch :: "(int \<Rightarrow> string) \<Rightarrow> (int \<times> conn) list \<Rightarrow> int list \<Rightarrow> epoll_server \<Rightarrow> epoll_server" where
  "epoll_batch strerr accepts [] s = s"
| "epoll_batch strerr accepts (fd # fds) s =
     (if fd = listen_fd s then
        (case accepts of
           [] \<Rightarrow> epoll_batch strerr [] fds (on_accept (- 1) [] s)
         | (cfd, ev) # r \<Rightarrow> epoll_batch strerr r fds (on_accept cfd ev s))
      else
        case on_input strerr fd s of
          (True, s1) \<Rightarrow> s1
        | (False, s1) \<Rightarrow> epoll_batch strerr accepts fds s1)"

text \<open>
  The loop, over what \<open>epoll_wait\<close> returns: an error, or a batch. The flag tells whether it was left.
\<close>

fun epoll_loop ::
  "(int \<Rightarrow> string) \<Rightarrow> (int + (int \<times> conn) list \<times> int list) list \<Rightarrow> epoll_server \<Rightarrow> bool \<times> epoll_server" where
  "epoll_loop strerr [] s = (False, s)"
| "epoll_loop strerr (Inl rc # ws) s = (True, s\<lparr>ep_log := ep_log s @ ''epoll_wait error\<newline>''\<rparr>)"
| "epoll_loop strerr (Inr (accepts, fds) # ws) s = epoll_loop strerr ws (epoll_batch strerr accepts fds s)"

text \<open>\<open>main\<close>; \<open>epoll_fd\<close> is what \<open>epoll_create\<close> returns.\<close>

definition epoll_start :: "sys \<Rightarrow> int \<Rightarrow> string list \<Rightarrow> epoll_server outcome" where
  "epoll_start sy epoll_fd argv =
     (if length argv \<noteq> 2 then Fatal ''args not 2''
      else
        let fd = socket_rt sy;
            server_addr = \<lparr>sin_family = AF_INET, sin_port = htons (ucast (atoi (argv ! 1))), sin_addr = 0\<rparr> in
        if bind_rt sy server_addr = - 1 then Fatal ''bind error\<newline>''
        else if listen_rt sy = - 1 then Fatal ''listen error\<newline>''
        else
          Ok (epoll_add fd
            \<lparr>listen_fd = fd, ep_fd = epoll_fd, ep_calls = [], client_in = (\<lambda>_. []), ep_out = [],
             ep_log = '''', ep_err = ''''\<rparr>))"

definition epoll_main ::
  "sys \<Rightarrow> int \<Rightarrow> string list \<Rightarrow> (int + (int \<times> conn) list \<times> int list) list \<Rightarrow> (bool \<times> epoll_server) outcome" where
  "epoll_main sy epoll_fd argv ws =
     obind (epoll_start sy epoll_fd argv) (\<lambda>s.
       case epoll_loop (strerror sy) ws s of
         (True, s1) \<Rightarrow> Ok (True, close_fd epoll_fd (close_fd (listen_fd s1) s1))
       | (False, s1) \<Rightarrow> Ok (False, s1))"

section \<open>\<open>file_epoll.c\<close>\<close>

text \<open>
  \<open>main\<close> on what its system calls return; after them it waits and prints for ever, whatever
  \<open>epoll_wait\<close> returns. The value is the exit status with the message, or no end.
\<close>

definition file_epoll_main :: "(int \<Rightarrow> string) \<Rightarrow> int \<Rightarrow> int \<Rightarrow> int \<Rightarrow> int \<Rightarrow> (int \<times> string) outcome" where
  "file_epoll_main strerr epfd fd rc errno =
     (if epfd < 0 then Ok (- 1, perror strerr ''create epoll failed'' errno)
      else if fd < 0 then Ok (- 1, perror strerr ''open file failed'' errno)
      else if rc < 0 then Ok (- 1, perror strerr ''epoll ctl add failed'' errno)
      else owhile (\<lambda>_. True) (\<lambda>x. Ok x) (0, ''''))"

section \<open>The chat client\<close>

lemma chat_receive_prints:
  assumes "recv MAXLINE (chat_sock x) = (Bytes cs, ev)" "cs \<noteq> []" "length (recv_line x) = MAXLINE"
    and "length cs < MAXLINE"
  shows "\<exists>y. chat_receive x = Ok y \<and> length (recv_line y) = MAXLINE \<and> chat_sock y = ev
           \<and> send_line y = send_line x \<and> chat_stdin y = chat_stdin x
           \<and> chat_out y = chat_out x @ takeWhile (\<lambda>c. c \<noteq> CHR 0x00) cs @ ''\<newline>''"
proof -
  have "(overwrite 0 cs (recv_line x))[length cs := CHR 0x00] = overwrite 0 (cs @ [CHR 0x00]) (recv_line x)"
    using assms(3,4) by (simp add: overwrite_def list_update_append upd_conv_take_nth_drop Cons_nth_drop_Suc [symmetric])
  then have "cstring 0 ((overwrite 0 cs (recv_line x))[length cs := CHR 0x00]) = Some (takeWhile (\<lambda>c. c \<noteq> CHR 0x00) cs)"
    using cstring_overwrite [of cs "recv_line x"] assms(3,4) by simp
  then show ?thesis using assms by (simp add: chat_receive_def)
qed

text \<open>A read that fills \<open>recv_line\<close> puts the terminating NUL behind its end.\<close>

lemma chat_receive_overflows:
  assumes "recv MAXLINE (chat_sock x) = (Bytes cs, ev)" "length cs = MAXLINE" "length (recv_line x) = MAXLINE"
  shows "chat_receive x = Bad"
  using assms by (auto simp: chat_receive_def MAXLINE_def wr_def)

section \<open>The epoll server\<close>

text \<open>
  All bytes of a connection until its end, read errors left out; and the bytes that were copied from
  a client.
\<close>

fun stream :: "conn \<Rightarrow> string" where
  "stream [] = ''''"
| "stream (Got cs # r) = (if cs = [] then '''' else cs @ stream r)"
| "stream (Err e # r) = stream r"

definition from_client :: "int \<Rightarrow> (int \<times> string) list \<Rightarrow> string" where
  "from_client fd out = concat (map snd (filter (\<lambda>w. fst w = fd) out))"

lemma recv_stream:
  "recv n ev = (Bytes cs, ev') \<Longrightarrow> stream ev = cs @ stream ev'"
  "recv n ev = (Fail e, ev') \<Longrightarrow> stream ev = stream ev'"
  by (cases "(n, ev)" rule: recv.cases; auto split: if_splits)+

lemma recv_end: "recv n ev = (Bytes [], ev') \<Longrightarrow> 0 < n \<Longrightarrow> stream ev' = []"
  by (cases "(n, ev)" rule: recv.cases) (auto split: if_splits)

text \<open>
  Between two states: what was copied from \<open>fd\<close> is what its connection has lost, and the server has
  taken \<open>fd\<close> out of the watched set only with nothing left to copy.
\<close>

definition copies :: "int \<Rightarrow> epoll_server \<Rightarrow> epoll_server \<Rightarrow> bool" where
  "copies fd s s' \<longleftrightarrow>
     (\<exists>x cs. from_client fd (ep_out s') = from_client fd (ep_out s) @ x
        \<and> stream (client_in s fd) = x @ stream (client_in s' fd)
        \<and> ep_calls s' = ep_calls s @ cs
        \<and> (\<forall>epfd. Ctl_del epfd fd \<in> set cs \<longrightarrow> stream (client_in s' fd) = []))"

lemma copies_refl: "copies fd s s"
  by (simp add: copies_def)

lemma copies_trans:
  assumes "copies fd s s1" "copies fd s1 s2"
  shows "copies fd s s2"
proof -
  obtain x cs where 1: "from_client fd (ep_out s1) = from_client fd (ep_out s) @ x"
    "stream (client_in s fd) = x @ stream (client_in s1 fd)" "ep_calls s1 = ep_calls s @ cs"
    "\<forall>epfd. Ctl_del epfd fd \<in> set cs \<longrightarrow> stream (client_in s1 fd) = []"
    using assms(1) by (auto simp: copies_def)
  obtain y ds where 2: "from_client fd (ep_out s2) = from_client fd (ep_out s1) @ y"
    "stream (client_in s1 fd) = y @ stream (client_in s2 fd)" "ep_calls s2 = ep_calls s1 @ ds"
    "\<forall>epfd. Ctl_del epfd fd \<in> set ds \<longrightarrow> stream (client_in s2 fd) = []"
    using assms(2) by (auto simp: copies_def)
  show ?thesis
    unfolding copies_def
    by (rule exI [of _ "x @ y"], rule exI [of _ "cs @ ds"]) (use 1 2 in auto)
qed

lemma on_accept_copies: "cfd \<noteq> fd \<or> cfd < 0 \<Longrightarrow> copies fd s (on_accept cfd ev s)"
  by (auto simp: copies_def on_accept_def epoll_add_def Let_def)

lemma on_input_copies_client: "copies fd s (snd (on_input strerr c s))"
proof (cases "c = fd")
  case True
  obtain r ev where r: "recv BUFSIZ (client_in s fd) = (r, ev)" by fastforce
  show ?thesis
  proof (cases r)
    case (Fail e)
    then show ?thesis
      using recv_stream(2) [of BUFSIZ "client_in s fd" e ev] r True
      by (simp add: copies_def on_input_def close_fd_def Let_def)
  next
    case (Bytes cs)
    then show ?thesis
      using recv_stream(1) [of BUFSIZ "client_in s fd" cs ev] recv_end [of BUFSIZ "client_in s fd" ev] r True
      by (auto simp: copies_def on_input_def close_fd_def epoll_del_def from_client_def BUFSIZ_def Let_def)
  qed
next
  case False
  then show ?thesis
    by (auto simp: copies_def on_input_def close_fd_def epoll_del_def from_client_def Let_def split: prod.split io.split)
qed

lemma epoll_batch_copies_client:
  "fd \<notin> fst ` set accepts \<Longrightarrow> 0 \<le> fd \<Longrightarrow> copies fd s (epoll_batch strerr accepts fds s)"
proof (induction strerr accepts fds s rule: epoll_batch.induct)
  case (1 strerr accepts s)
  then show ?case by (simp add: copies_refl)
next
  case (2 strerr accepts c fds s)
  show ?case
  proof (cases "c = listen_fd s")
    case True
    show ?thesis
    proof (cases accepts)
      case Nil
      then have "copies fd s (on_accept (- 1) [] s)" "copies fd (on_accept (- 1) [] s) (epoll_batch strerr [] fds (on_accept (- 1) [] s))"
        using 2 True on_accept_copies by auto
      then show ?thesis using copies_trans True Nil by simp
    next
      case (Cons a r)
      obtain cfd ev where a: "a = (cfd, ev)" by fastforce
      have "copies fd s (on_accept cfd ev s)" "copies fd (on_accept cfd ev s) (epoll_batch strerr r fds (on_accept cfd ev s))"
        using 2 True Cons a on_accept_copies by auto
      then show ?thesis using copies_trans True Cons a by simp
    qed
  next
    case False
    obtain b s1 where b: "on_input strerr c s = (b, s1)" by fastforce
    then have "copies fd s s1" using on_input_copies_client [of fd s strerr c] by simp
    then show ?thesis using 2 False b copies_trans by (cases b) auto
  qed
qed

lemma epoll_loop_copies_client:
  "(\<And>accepts fds. Inr (accepts, fds) \<in> set ws \<Longrightarrow> fd \<notin> fst ` set accepts) \<Longrightarrow> 0 \<le> fd \<Longrightarrow>
     copies fd s (snd (epoll_loop strerr ws s))"
proof (induction strerr ws s rule: epoll_loop.induct)
  case (3 strerr accepts fds ws s)
  have "fd \<notin> fst ` set accepts" using "3.prems"(1) [of accepts fds] by simp
  then have "copies fd s (epoll_batch strerr accepts fds s)" using epoll_batch_copies_client "3.prems"(2) by blast
  moreover have "copies fd (epoll_batch strerr accepts fds s) (snd (epoll_loop strerr ws (epoll_batch strerr accepts fds s)))"
    using "3.prems" by (intro "3.IH") auto
  ultimately show ?case using copies_trans by simp
qed (simp_all add: copies_def)

text \<open>The two kinds of events, one at a time.\<close>

lemma epoll_batch_accept:
  "fd = listen_fd s \<Longrightarrow>
     epoll_batch strerr ((cfd, ev) # r) (fd # fds) s = epoll_batch strerr r fds (on_accept cfd ev s)"
  by simp

lemma epoll_batch_input:
  "fd \<noteq> listen_fd s \<Longrightarrow> on_input strerr fd s = (False, s1) \<Longrightarrow>
     epoll_batch strerr accepts (fd # fds) s = epoll_batch strerr accepts fds s1"
  by simp

text \<open>The server at its start, with the listening socket 3, and a run of it with two clients.\<close>

definition epoll_ready :: epoll_server where
  "epoll_ready = \<lparr>listen_fd = 3, ep_fd = 4, ep_calls = [Ctl_add 4 3], client_in = (\<lambda>_. []), ep_out = [],
     ep_log = '''', ep_err = ''''\<rparr>"

lemma epoll_ready_run:
  defines "run \<equiv> epoll_loop (\<lambda>_. '''') [Inr ([(6, [Got ''six''])], [5, 3, 6]), Inr ([], [5]), Inr ([], [5])]
      (on_accept 5 [Got ''fi'', Got ''ve''] epoll_ready)"
  shows "fst run = False" "ep_out (snd run) = [(5, ''fi''), (6, ''six''), (5, ''ve'')]"
    "ep_calls (snd run) = ep_calls (on_accept 5 [Got ''fi'', Got ''ve''] epoll_ready) @ [Ctl_add 4 6, Ctl_del 4 5, Close_fd 5]"
  unfolding run_def
  by (simp_all add: epoll_ready_def epoll_batch_input epoll_batch_accept on_accept_def on_input_def epoll_add_def
      epoll_del_def close_fd_def BUFSIZ_def Let_def del: epoll_batch.simps(2))

text \<open>A batch in which every client has bytes copies them in the order of the events.\<close>

lemma on_input_copies:
  assumes "client_in s fd = Got cs # r" "cs \<noteq> []" "length cs \<le> BUFSIZ"
  shows "on_input strerr fd s = (False, s\<lparr>client_in := (client_in s)(fd := r), ep_out := ep_out s @ [(fd, cs)]\<rparr>)"
  using assms by (simp add: on_input_def Let_def)

lemma epoll_batch_copies:
  "distinct fds \<Longrightarrow> \<forall>fd \<in> set fds. fd \<noteq> listen_fd s \<and> client_in s fd = Got (c fd) # r fd \<and> c fd \<noteq> [] \<and> length (c fd) \<le> BUFSIZ
     \<Longrightarrow> ep_out (epoll_batch strerr accepts fds s) = ep_out s @ map (\<lambda>fd. (fd, c fd)) fds
         \<and> (\<forall>fd \<in> set fds. client_in (epoll_batch strerr accepts fds s) fd = r fd)
         \<and> (\<forall>fd. fd \<notin> set fds \<longrightarrow> client_in (epoll_batch strerr accepts fds s) fd = client_in s fd)
         \<and> ep_calls (epoll_batch strerr accepts fds s) = ep_calls s"
proof (induction fds arbitrary: s)
  case (Cons fd fds)
  let ?s = "s\<lparr>client_in := (client_in s)(fd := r fd), ep_out := ep_out s @ [(fd, c fd)]\<rparr>"
  have "epoll_batch strerr accepts (fd # fds) s = epoll_batch strerr accepts fds ?s"
    using Cons.prems(2) on_input_copies [of s fd "c fd" "r fd"] by simp
  moreover have "\<forall>fd' \<in> set fds. fd' \<noteq> listen_fd ?s \<and> client_in ?s fd' = Got (c fd') # r fd' \<and> c fd' \<noteq> [] \<and> length (c fd') \<le> BUFSIZ"
    using Cons.prems by auto
  ultimately show ?case using Cons.IH [of ?s] Cons.prems(1) by auto
qed simp

text \<open>A failing read ends the batch: later events of it are left for the next one, untouched.\<close>

lemma epoll_batch_fails:
  assumes "fd \<noteq> listen_fd s" "client_in s fd = Err e # r"
  shows "ep_out (epoll_batch strerr accepts (fd # fds) s) = ep_out s
         \<and> (\<forall>fd'. fd' \<noteq> fd \<longrightarrow> client_in (epoll_batch strerr accepts (fd # fds) s) fd' = client_in s fd')
         \<and> ep_calls (epoll_batch strerr accepts (fd # fds) s) = ep_calls s @ (if e \<noteq> EAGAIN then [Close_fd fd] else [])"
  using assms by (simp add: on_input_def close_fd_def Let_def)

section \<open>Sending a line\<close>

text \<open>The line without its newline, as the client cuts it off.\<close>

definition chop_newline :: "string \<Rightarrow> string" where
  "chop_newline l = (if l \<noteq> [] \<and> last l = CHR ''\<newline>'' then butlast l else l)"

lemma chat_send_next:
  assumes "read_line_spec 1023 (chat_stdin x) = (l, e, r)" "l \<noteq> []" "CHR 0x00 \<notin> set l"
    and "length (send_line x) = MAXLINE"
  shows "\<exists>y. chat_send write_rt x = Ok y \<and> chat_stdin y = r \<and> chat_sent y = chat_sent x @ [chop_newline l]
           \<and> length (send_line y) = MAXLINE \<and> recv_line y = recv_line x \<and> chat_sock y = chat_sock x
           \<and> chat_out y = chat_out x @ ''now sending '' @ chop_newline l @ ''\<newline>send bytes: ''
                          @ dec_nat (to_size (write_rt (length (chat_sent x)))) @ '' \<newline>''"
proof -
  let ?buf = "overwrite 0 (l @ [CHR 0x00]) (send_line x)" and ?n = "length l - 1"
  have len: "length (send_line x) = 1024" "length l \<le> 1023" "int (length l) - 1 = int ?n"
    using assms(1,2,4) read_line_spec_split [OF assms(1)] by (auto simp: MAXLINE_def neq_Nil_conv)
  have get: "fgets MAXLINE (send_line x) (chat_stdin x) = Some (?buf, r)"
    using assms(1,2) by (simp add: fgets_def MAXLINE_def)
  have str: "cstring 0 ?buf = Some l"
    using cstring_overwrite [of l "send_line x"] takeWhile_no_NUL [OF assms(3)] len by simp
  have buf: "?buf = butlast l @ last l # CHR 0x00 # drop (length l + 1) (send_line x)"
    using assms(2) by (simp add: overwrite_def)
  have at: "rd ?buf (int (length l) - 1) = Some (last l)"
    unfolding len(3) rd_nat buf using assms(2) by (simp add: nth_append)
  have "?buf[?n := CHR 0x00] = butlast l @ CHR 0x00 # CHR 0x00 # drop (length l + 1) (send_line x)"
    unfolding buf by (simp add: list_update_append)
  moreover have "CHR 0x00 \<notin> set (butlast l)" using assms(3) in_set_butlastD by metis
  ultimately have msg: "cstring 0 (?buf[?n := CHR 0x00]) = Some (butlast l)"
    using takeWhile_no_NUL by (simp add: cstring_def)
  have "wr ?buf (int (length l) - 1) (CHR 0x00) = Some (?buf[?n := CHR 0x00])"
    unfolding len(3) wr_nat using len(1,2) assms(2) by simp
  moreover have "length ?buf = 1024" using len(1,2) by simp
  ultimately show ?thesis
    using get str at msg assms(2)
    by (cases "last l = CHR ''\<newline>''") (simp_all add: chat_send_def Let_def chop_newline_def MAXLINE_def)
qed

lemma chat_send_line:
  assumes "chat_stdin x = l @ CHR ''\<newline>'' # r" "CHR ''\<newline>'' \<notin> set l" "CHR 0x00 \<notin> set l" "length l < 1023"
    and "length (send_line x) = MAXLINE"
  shows "\<exists>y. chat_send write_rt x = Ok y \<and> chat_stdin y = r \<and> chat_sent y = chat_sent x @ [l]
           \<and> chat_out y = chat_out x @ ''now sending '' @ l @ ''\<newline>send bytes: ''
                          @ dec_nat (to_size (write_rt (length (chat_sent x)))) @ '' \<newline>''"
proof -
  have "read_line_spec 1023 (chat_stdin x) = (l @ ''\<newline>'', Newline, r)"
    using read_line_spec_line [OF assms(2,4)] assms(1) by simp
  moreover have "CHR 0x00 \<notin> set (l @ ''\<newline>'')" "chop_newline (l @ ''\<newline>'') = l"
    using assms(3) by (simp_all add: chop_newline_def)
  ultimately show ?thesis
    using chat_send_next [of x "l @ ''\<newline>''" Newline r write_rt] assms(5) by auto
qed

text \<open>Input on which the client stays within its arrays: short arrivals, and no NUL to send.\<close>

fun short_item :: "item \<Rightarrow> bool" where
  "short_item (Got cs) \<longleftrightarrow> length cs < MAXLINE"
| "short_item (Err e) \<longleftrightarrow> True"

definition chat_inv :: "chat \<Rightarrow> bool" where
  "chat_inv x \<longleftrightarrow>
     length (recv_line x) = MAXLINE \<and> length (send_line x) = MAXLINE
     \<and> list_all short_item (chat_sock x) \<and> CHR 0x00 \<notin> set (chat_stdin x)"

text \<open>An outcome that is not an access outside an object, and keeps a property.\<close>

definition keeps :: "('a \<Rightarrow> bool) \<Rightarrow> 'a outcome \<Rightarrow> bool" where
  "keeps P r \<longleftrightarrow> (\<exists>y. r = Ok y \<and> P y) \<or> (\<exists>m. r = Fatal m)"

lemma keeps_simps [simp]: "keeps P (Ok x) \<longleftrightarrow> P x" "keeps P (Fatal m)" "\<not> keeps P Bad" "\<not> keeps P Loops"
  by (simp_all add: keeps_def)

lemma keeps_obind: "keeps Q r \<Longrightarrow> (\<And>y. Q y \<Longrightarrow> keeps P (k y)) \<Longrightarrow> keeps P (obind r k)"
  by (cases r) auto

lemma recv_short:
  "list_all short_item ev \<Longrightarrow> recv MAXLINE ev = (Bytes cs, ev') \<Longrightarrow> length cs < MAXLINE \<and> list_all short_item ev'"
  by (cases "(MAXLINE, ev)" rule: recv.cases) (auto simp: MAXLINE_def split: if_splits)

lemma chat_receive_keeps: "chat_inv x \<Longrightarrow> keeps chat_inv (chat_receive x)"
proof -
  assume x: "chat_inv x"
  obtain r ev where r: "recv MAXLINE (chat_sock x) = (r, ev)" by fastforce
  show ?thesis
  proof (cases r)
    case (Fail e)
    then show ?thesis using r by (simp add: chat_receive_def)
  next
    case (Bytes cs)
    have "length cs < MAXLINE" "list_all short_item ev" using x r Bytes recv_short by (auto simp: chat_inv_def)
    moreover from this have "\<exists>y. chat_receive x = Ok y \<and> length (recv_line y) = MAXLINE \<and> chat_sock y = ev
        \<and> send_line y = send_line x \<and> chat_stdin y = chat_stdin x" if "cs \<noteq> []"
      using chat_receive_prints [of x cs ev] r Bytes that x by (auto simp: chat_inv_def)
    ultimately show ?thesis using r Bytes x by (cases "cs = []") (auto simp: chat_receive_def chat_inv_def)
  qed
qed

lemma chat_send_keeps: "chat_inv x \<Longrightarrow> keeps chat_inv (chat_send write_rt x)"
proof -
  assume x: "chat_inv x"
  obtain l e r where spec: "read_line_spec 1023 (chat_stdin x) = (l, e, r)" by (metis prod_cases3)
  show ?thesis
  proof (cases "l = []")
    case True
    then show ?thesis using spec x by (simp add: chat_send_def fgets_def MAXLINE_def)
  next
    case False
    have "chat_stdin x = l @ r" using read_line_spec_split [OF spec] by simp
    then show ?thesis
      using chat_send_next [OF spec False, of write_rt] x by (auto simp: chat_inv_def)
  qed
qed

lemma select_round_keeps: "chat_inv x \<Longrightarrow> keeps chat_inv (select_round write_rt rc sock_set stdin_set x)"
  by (auto simp: select_round_def intro!: keeps_obind [of chat_inv] chat_receive_keeps chat_send_keeps)

lemma chat_loop_keeps: "chat_inv x \<Longrightarrow> keeps chat_inv (chat_loop write_rt ws x)"
proof (induction write_rt ws x rule: chat_loop.induct)
  case (2 write_rt rc sock_set stdin_set ws x)
  then show ?case using select_round_keeps keeps_obind by (metis chat_loop.simps(2))
qed simp

text \<open>A line that starts with a NUL has length 0, and the byte before the array is read.\<close>

lemma chat_send_NUL:
  assumes "chat_stdin x = CHR 0x00 # r" "length (send_line x) = MAXLINE"
  shows "chat_send write_rt x = Bad"
proof -
  obtain l e r' where spec: "read_line_spec 1022 r = (l, e, r')" by (metis prod_cases3)
  then have "read_line_spec (Suc 1022) (CHR 0x00 # r) = (CHR 0x00 # l, e, r')"
    unfolding read_line_spec.simps(3) by simp
  then have "fgets MAXLINE (send_line x) (chat_stdin x) = Some (overwrite 0 (CHR 0x00 # l @ [CHR 0x00]) (send_line x), r')"
    using assms(1) by (simp add: fgets_def MAXLINE_def)
  moreover have "cstring 0 (overwrite 0 (CHR 0x00 # l @ [CHR 0x00]) (send_line x)) = Some ''''"
    by (simp add: cstring_def overwrite_def)
  ultimately show ?thesis by (simp add: chat_send_def)
qed

end
