(* ===== verification/Poll_Device.thy ===== *)
theory Poll_Device
  imports Line_Readers
begin

text \<open>
  The character device of \<open>src/live/epoll/my_poll_dev/my_poll_dev.c\<close>: a kernel thread writes a new
  message into the device buffer once a second and wakes the tasks that wait in \<open>poll\<close>; \<open>read\<close> takes
  the message. The record \<open>poll_dev\<close> is the module's static variables, the thread's counter and
  position, the wait queue, and where the tasks inside a handler have got to. The code has no lock:
  \<open>dev_step\<close> interleaves the single statements of the thread and of the handlers, and what needs
  them not to overlap says so (\<open>quiet_run\<close>).
  The program \<open>src/live/epoll/my_poll_dev_test.c\<close> that polls and reads the device is modelled by
  one round of its loop.
\<close>

section \<open>The device\<close>

text \<open>
  Where the thread is: before the test of its loop, between the return of \<open>snprintf\<close> with a length
  and the storing of that length, asleep, or gone.
\<close>

datatype thread_at = Th_check | Th_store nat | Th_sleep | Th_exited

text \<open>
  A task inside a handler. In \<open>read\<close>: after the copy, which succeeded or not, with its buffer; or
  with the result computed. In \<open>my_dev_poll\<close>: after \<open>poll_wait\<close>.
\<close>

datatype call_at = Rd_copied bool string | Rd_result int string | Pl_queued

record poll_dev =
  readbuf :: string
  readbuflen :: nat
  counter :: cint
  thread_pc :: thread_at
  should_stop :: bool
  waitqueue :: "nat list"
  woken :: "nat list" \<comment> \<open>tasks that \<open>wake_up\<close> has made runnable\<close>
  calls :: "nat \<Rightarrow> call_at option" \<comment> \<open>the tasks inside a handler\<close>

definition POLLIN :: int where "POLLIN = 1"
definition EFAULT :: int where "EFAULT = 14"

definition hello :: "cint \<Rightarrow> string" where
  "hello k = ''hello, '' @ dec_int (sint k)"

text \<open>\<open>snprintf\<close>: at most the size of the array is stored, the length of the whole text is returned.\<close>

definition snprintf :: "string \<Rightarrow> string \<Rightarrow> string \<times> nat" where
  "snprintf buf str = (overwrite 0 (take (length buf - 1) str @ [CHR 0x00]) buf, length str)"

text \<open>
  \<open>read\<close>, statement by statement: the bytes are copied to the user's buffer \<open>ubuf\<close> whatever its length
  \<open>len\<close>, where \<open>mapped\<close> tells whether \<open>copy_to_user\<close> finds the user's pages; \<open>readbuflen\<close> is looked at
  again for the result; and it is reset. \<open>dev_read\<close> is a call that nothing comes between.
\<close>

definition read_copy :: "bool \<Rightarrow> string \<Rightarrow> poll_dev \<Rightarrow> (bool \<times> string) outcome" where
  "read_copy mapped ubuf d =
     (if \<not> mapped then Ok (False, ubuf)
      else if length ubuf < readbuflen d \<or> length (readbuf d) < readbuflen d then Bad
      else Ok (True, overwrite 0 (take (readbuflen d) (readbuf d)) ubuf))"

definition read_result :: "bool \<Rightarrow> poll_dev \<Rightarrow> int" where
  "read_result copied d = (if copied then int (readbuflen d) else - EFAULT)"

definition read_reset :: "poll_dev \<Rightarrow> poll_dev" where
  "read_reset d = d\<lparr>readbuflen := 0\<rparr>"

definition dev_read :: "bool \<Rightarrow> string \<Rightarrow> poll_dev \<Rightarrow> (int \<times> string \<times> poll_dev) outcome" where
  "dev_read mapped ubuf d =
     obind (read_copy mapped ubuf d) (\<lambda>(copied, ubuf1). Ok (read_result copied d, ubuf1, read_reset d))"

text \<open>
  \<open>my_dev_poll\<close>: \<open>poll_wait\<close> enters the task in the wait queue, once for a call of \<open>poll\<close>; when that
  call returns to the user, the kernel takes the task out again.
\<close>

definition poll_wait :: "nat \<Rightarrow> poll_dev \<Rightarrow> poll_dev" where
  "poll_wait task d = (if task \<in> set (waitqueue d) then d else d\<lparr>waitqueue := waitqueue d @ [task]\<rparr>)"

definition poll_mask :: "poll_dev \<Rightarrow> int" where
  "poll_mask d = (if readbuflen d \<noteq> 0 then POLLIN else 0)"

definition my_dev_poll :: "nat \<Rightarrow> poll_dev \<Rightarrow> int \<times> poll_dev" where
  "my_dev_poll task d = (let d1 = poll_wait task d in (poll_mask d1, d1))"

definition poll_return :: "nat \<Rightarrow> poll_dev \<Rightarrow> poll_dev" where
  "poll_return task d = d\<lparr>waitqueue := filter (\<lambda>t. t \<noteq> task) (waitqueue d)\<rparr>"

text \<open>
  The body of \<open>kthread_func\<close>: \<open>snprintf\<close> into the buffer, the assignment of the length it returned,
  and after the sleep the waking of the tasks in the queue.
\<close>

definition thread_print :: "poll_dev \<Rightarrow> poll_dev" where
  "thread_print d =
     (let c = counter d + 1; (buf, n) = snprintf (readbuf d) (hello c) in
      d\<lparr>counter := c, readbuf := buf, thread_pc := Th_store n\<rparr>)"

definition thread_store :: "nat \<Rightarrow> poll_dev \<Rightarrow> poll_dev" where
  "thread_store n d = d\<lparr>readbuflen := n, thread_pc := Th_sleep\<rparr>"

definition thread_wake :: "poll_dev \<Rightarrow> poll_dev" where
  "thread_wake d = d\<lparr>woken := woken d @ waitqueue d, thread_pc := Th_check\<rparr>"

definition thread_step :: "poll_dev \<Rightarrow> poll_dev" where
  "thread_step d =
     (case thread_pc d of
        Th_check \<Rightarrow> if should_stop d then d\<lparr>thread_pc := Th_exited\<rparr> else thread_print d
      | Th_store n \<Rightarrow> thread_store n d
      | Th_sleep \<Rightarrow> thread_wake d
      | Th_exited \<Rightarrow> d)"

definition myinit :: poll_dev where
  "myinit =
     \<lparr>readbuf = replicate 1024 (CHR 0x00), readbuflen = 0, counter = 0, thread_pc = Th_check,
      should_stop = False, waitqueue = [], woken = [], calls = (\<lambda>_. None)\<rparr>"

definition myexit :: "poll_dev \<Rightarrow> poll_dev" where
  "myexit d = d\<lparr>should_stop := True\<rparr>"

section \<open>Interleavings\<close>

datatype dev_event =
    Ev_copy nat | Ev_result nat | Ev_read nat "int \<times> string"
  | Ev_queue nat | Ev_poll nat int | Ev_return nat
  | Ev_thread | Ev_exit

text \<open>
  Which task takes the next step is up to the scheduler and the users. A step is one statement of
  the source: the three of \<open>read\<close>, where \<open>Ev_read\<close> is the last and carries what the call returns and
  the user's buffer, the two of \<open>my_dev_poll\<close>, one of the thread; and the return of a call of \<open>poll\<close>
  and the module's exit. \<open>snprintf\<close> and \<open>copy_to_user\<close> copy their bytes in one step each.
\<close>

inductive dev_step :: "poll_dev \<Rightarrow> dev_event \<Rightarrow> poll_dev \<Rightarrow> bool" where
  step_copy: "calls d t = None \<Longrightarrow> read_copy mapped ubuf d = Ok (c, u) \<Longrightarrow>
      dev_step d (Ev_copy t) (d\<lparr>calls := (calls d)(t \<mapsto> Rd_copied c u)\<rparr>)"
| step_result: "calls d t = Some (Rd_copied c u) \<Longrightarrow>
      dev_step d (Ev_result t) (d\<lparr>calls := (calls d)(t \<mapsto> Rd_result (read_result c d) u)\<rparr>)"
| step_read: "calls d t = Some (Rd_result rc u) \<Longrightarrow>
      dev_step d (Ev_read t (rc, u)) ((read_reset d)\<lparr>calls := (calls d)(t := None)\<rparr>)"
| step_queue: "calls d t = None \<Longrightarrow>
      dev_step d (Ev_queue t) ((poll_wait t d)\<lparr>calls := (calls d)(t \<mapsto> Pl_queued)\<rparr>)"
| step_poll: "calls d t = Some Pl_queued \<Longrightarrow>
      dev_step d (Ev_poll t (poll_mask d)) (d\<lparr>calls := (calls d)(t := None)\<rparr>)"
| step_return: "calls d t = None \<Longrightarrow> dev_step d (Ev_return t) (poll_return t d)"
| step_thread: "dev_step d Ev_thread (thread_step d)"
| step_exit: "dev_step d Ev_exit (myexit d)"

inductive dev_run :: "poll_dev \<Rightarrow> dev_event list \<Rightarrow> poll_dev \<Rightarrow> bool" where
  run_none: "dev_run d [] d"
| run_more: "dev_run d es d1 \<Longrightarrow> dev_step d1 e d2 \<Longrightarrow> dev_run d (es @ [e]) d2"

text \<open>The thread has rewritten the buffer and not yet stored the length.\<close>

definition at_store :: "poll_dev \<Rightarrow> bool" where
  "at_store d = (case thread_pc d of Th_store n \<Rightarrow> True | _ \<Rightarrow> False)"

fun reading :: "call_at option \<Rightarrow> bool" where
  "reading (Some (Rd_copied c u)) = True"
| "reading (Some (Rd_result rc u)) = True"
| "reading _ = False"

text \<open>
  A state in which nothing overlaps: at most one task is inside \<open>read\<close>, and none while the thread is
  between its two statements. A quiet run goes through such states only.
\<close>

definition quiet :: "poll_dev \<Rightarrow> bool" where
  "quiet d \<longleftrightarrow> (\<forall>t u. reading (calls d t) \<longrightarrow> reading (calls d u) \<longrightarrow> t = u)
             \<and> (at_store d \<longrightarrow> (\<forall>t. \<not> reading (calls d t)))"

inductive quiet_run :: "poll_dev \<Rightarrow> dev_event list \<Rightarrow> poll_dev \<Rightarrow> bool" where
  quiet_none: "quiet d \<Longrightarrow> quiet_run d [] d"
| quiet_more: "quiet_run d es d1 \<Longrightarrow> dev_step d1 e d2 \<Longrightarrow> quiet d2 \<Longrightarrow> quiet_run d (es @ [e]) d2"

lemma quiet_run_dev_run: "quiet_run d es d' \<Longrightarrow> dev_run d es d'"
  by (induction rule: quiet_run.induct) (auto intro: dev_run.intros)

lemma quiet_run_ends: "quiet_run d es d' \<Longrightarrow> quiet d'"
  by (induction rule: quiet_run.induct) auto

lemma quiet_init: "quiet myinit"
  by (simp add: quiet_def myinit_def)

text \<open>A call of \<open>read\<close> that nothing comes between is three steps.\<close>

lemma dev_read_steps:
  assumes "dev_read mapped ubuf d = Ok (rc, u, d')" "calls d t = None"
  obtains c where "dev_step d (Ev_copy t) (d\<lparr>calls := (calls d)(t \<mapsto> Rd_copied c u)\<rparr>)"
    "dev_step (d\<lparr>calls := (calls d)(t \<mapsto> Rd_copied c u)\<rparr>) (Ev_result t) (d\<lparr>calls := (calls d)(t \<mapsto> Rd_result rc u)\<rparr>)"
    "dev_step (d\<lparr>calls := (calls d)(t \<mapsto> Rd_result rc u)\<rparr>) (Ev_read t (rc, u)) d'" "d' = read_reset d"
proof -
  obtain c where c: "read_copy mapped ubuf d = Ok (c, u)" "rc = read_result c d" "d' = read_reset d"
    using assms(1) by (auto simp: dev_read_def obind_Ok_iff)
  let ?d1 = "d\<lparr>calls := (calls d)(t \<mapsto> Rd_copied c u)\<rparr>" and ?d2 = "d\<lparr>calls := (calls d)(t \<mapsto> Rd_result rc u)\<rparr>"
  have "dev_step ?d1 (Ev_result t) ?d2"
    using step_result [of ?d1 t c u] c(2) by (cases c) (simp_all add: read_result_def)
  moreover have "dev_step ?d2 (Ev_read t (rc, u)) d'"
    using step_read [of ?d2 t rc u] c(3) assms(2) fun_upd_triv [of "calls d" t] by (simp add: read_reset_def)
  ultimately show thesis using that step_copy [OF assms(2) c(1)] c(3) by blast
qed

lemma quiet_run_reads:
  assumes "quiet_run d0 es d" "dev_read mapped ubuf d = Ok (rc, u, d')" "\<And>t. \<not> reading (calls d t)" "\<not> at_store d" "calls d t = None"
  shows "quiet_run d0 (es @ [Ev_copy t, Ev_result t, Ev_read t (rc, u)]) d'"
proof -
  obtain c where c: "dev_step d (Ev_copy t) (d\<lparr>calls := (calls d)(t \<mapsto> Rd_copied c u)\<rparr>)"
    "dev_step (d\<lparr>calls := (calls d)(t \<mapsto> Rd_copied c u)\<rparr>) (Ev_result t) (d\<lparr>calls := (calls d)(t \<mapsto> Rd_result rc u)\<rparr>)"
    "dev_step (d\<lparr>calls := (calls d)(t \<mapsto> Rd_result rc u)\<rparr>) (Ev_read t (rc, u)) d'" "d' = read_reset d"
    by (rule dev_read_steps [OF assms(2,5)])
  have "quiet (d\<lparr>calls := (calls d)(t \<mapsto> Rd_copied c u)\<rparr>)" "quiet (d\<lparr>calls := (calls d)(t \<mapsto> Rd_result rc u)\<rparr>)" "quiet d'"
    using assms(3,4) c(4) by (auto simp: quiet_def at_store_def read_reset_def)
  then have "quiet_run d0 (((es @ [Ev_copy t]) @ [Ev_result t]) @ [Ev_read t (rc, u)]) d'"
    using quiet_more [OF quiet_more [OF quiet_more [OF assms(1) c(1)] c(2)] c(3)] by blast
  then show ?thesis by simp
qed

section \<open>The invariant\<close>

lemma length_hello: "length (hello k) \<le> 18"
  using length_dec_int [of "sint k"] sint_greater_eq [of k] sint_less [of k] by (simp add: hello_def)

lemma length_dec_nat_mono: "m \<le> n \<Longrightarrow> length (dec_nat m) \<le> length (dec_nat n)"
proof (induction n arbitrary: m rule: less_induct)
  case (less n)
  show ?case
  proof (cases "m < 10")
    case True
    then have "length (dec_nat m) = 1" by (subst dec_nat.simps) simp
    then show ?thesis using length_dec_nat_pos [of n] by linarith
  next
    case False
    then have "length (dec_nat (m div 10)) \<le> length (dec_nat (n div 10))"
      using less.prems by (intro less.IH) (auto simp: div_le_mono)
    then show ?thesis
      using False less.prems by (subst (1 2) dec_nat.simps) simp
  qed
qed

text \<open>While the counter is positive, a message is not shorter than the one before it.\<close>

lemma length_hello_mono:
  assumes "0 < sint (k :: cint)"
  shows "length (hello (k - 1)) \<le> length (hello k)"
proof -
  have "sint (k - 1) = sint k - 1"
    using assms sint_less [of k] by (simp add: sint_word_ariths signed_take_bit_int_eq_self)
  then show ?thesis using assms length_dec_nat_mono [of "nat (sint k - 1)" "nat (sint k)"] by (simp add: hello_def dec_int_def)
qed

text \<open>
  The message whose length is the one stored in \<open>readbuflen\<close>, when that is not 0: between the two
  statements of the thread it is the message before the one in the buffer.
\<close>

definition stored_number :: "poll_dev \<Rightarrow> cint" where
  "stored_number d = (if at_store d then counter d - 1 else counter d)"

definition holds_message :: "poll_dev \<Rightarrow> bool" where
  "holds_message d \<longleftrightarrow> take (length (hello (counter d))) (readbuf d) = hello (counter d)"

text \<open>
  In every state, however the steps interleave: something is to be read only when the buffer holds
  the latest message, whole; what is to be read is then as long as the message of \<open>stored_number\<close>;
  and the result of a read in progress is -EFAULT or at most 18.
\<close>

definition dev_inv :: "poll_dev \<Rightarrow> bool" where
  "dev_inv d \<longleftrightarrow>
     length (readbuf d) = 1024
     \<and> readbuflen d \<in> {0, length (hello (stored_number d))}
     \<and> (readbuflen d \<noteq> 0 \<or> at_store d \<longrightarrow> holds_message d)
     \<and> (\<forall>n. thread_pc d = Th_store n \<longrightarrow> n = length (hello (counter d)))
     \<and> (\<forall>t rc u. calls d t = Some (Rd_result rc u) \<longrightarrow> rc = - EFAULT \<or> 0 \<le> rc \<and> rc \<le> 18)"

lemmas dev_inv_defs = dev_inv_def stored_number_def at_store_def holds_message_def

lemma dev_inv_init: "dev_inv myinit"
  by (simp add: dev_inv_defs myinit_def)

lemma hello_nonempty [simp]: "hello k \<noteq> []"
  by (simp add: hello_def)

text \<open>The steps of the thread.\<close>

lemma thread_print_simps:
  assumes "length (readbuf d) = 1024"
  shows "thread_print d = d\<lparr>counter := counter d + 1, readbuf := overwrite 0 (hello (counter d + 1) @ [CHR 0x00]) (readbuf d),
      thread_pc := Th_store (length (hello (counter d + 1)))\<rparr>"
  using assms length_hello [of "counter d + 1"] by (simp add: thread_print_def snprintf_def Let_def)

lemma dev_inv_print:
  assumes "dev_inv d" "thread_pc d = Th_check"
  shows "dev_inv (thread_print d)"
proof -
  have "length (readbuf d) = 1024" using assms(1) by (simp add: dev_inv_def)
  note p = thread_print_simps [OF this]
  show ?thesis
    unfolding p using assms length_hello [of "counter d + 1"]
    by (auto simp: dev_inv_defs overwrite_def)
qed

lemma dev_inv_thread:
  assumes "dev_inv d"
  shows "dev_inv (thread_step d)"
proof (cases "thread_pc d")
  case Th_check
  then show ?thesis
    using dev_inv_print [OF assms Th_check] assms by (auto simp: thread_step_def dev_inv_defs)
next
  case (Th_store n)
  then show ?thesis using assms by (auto simp: thread_step_def thread_store_def dev_inv_defs)
next
  case Th_sleep
  then show ?thesis using assms by (auto simp: thread_step_def thread_wake_def dev_inv_defs)
next
  case Th_exited
  then show ?thesis using assms by (simp add: thread_step_def)
qed

lemma dev_inv_len: "dev_inv d \<Longrightarrow> readbuflen d \<le> 18"
  using length_hello by (auto simp: dev_inv_def)

lemma dev_inv_step: "dev_step d e d' \<Longrightarrow> dev_inv d \<Longrightarrow> dev_inv d'"
proof (induction rule: dev_step.induct)
  case (step_result d t c u)
  have "read_result c d = - EFAULT \<or> 0 \<le> read_result c d \<and> read_result c d \<le> 18"
    using dev_inv_len [OF step_result.prems] by (simp add: read_result_def)
  then show ?case using step_result.prems by (auto simp: dev_inv_defs)
next
  case (step_thread d)
  then show ?case by (rule dev_inv_thread)
qed (auto simp: dev_inv_defs read_reset_def poll_wait_def poll_return_def myexit_def split: if_splits)

lemma dev_inv_run: "dev_run d es d' \<Longrightarrow> dev_inv d \<Longrightarrow> dev_inv d'"
  by (induction rule: dev_run.induct) (auto intro: dev_inv_step)

section \<open>What a read gets\<close>

text \<open>
  The latest message, cut to the length that is stored. Outside the middle of the thread's update
  that is the whole message, or nothing.
\<close>

lemma read_copy_gives:
  assumes "dev_inv d" "18 \<le> length ubuf" "length (hello (stored_number d)) \<le> length (hello (counter d))"
  shows "read_copy True ubuf d = Ok (True, overwrite 0 (take (readbuflen d) (hello (counter d))) ubuf)"
proof -
  have "readbuflen d \<le> 18" "length (readbuf d) = 1024" using dev_inv_len assms(1) by (auto simp: dev_inv_def)
  moreover have "take (readbuflen d) (readbuf d) = take (readbuflen d) (hello (counter d))"
  proof (cases "readbuflen d = 0")
    case False
    then have "holds_message d" "readbuflen d \<le> length (hello (counter d))" using assms(1,3) by (auto simp: dev_inv_def)
    then show ?thesis by (metis holds_message_def min_def take_take)
  qed simp
  ultimately show ?thesis using assms(2) by (simp add: read_copy_def)
qed

lemma dev_read_gives:
  assumes "dev_inv d" "18 \<le> length ubuf" "\<not> at_store d"
  shows "dev_read True ubuf d =
     (if readbuflen d = 0 then Ok (0, ubuf, d\<lparr>readbuflen := 0\<rparr>)
      else Ok (int (length (hello (counter d))), overwrite 0 (hello (counter d)) ubuf, d\<lparr>readbuflen := 0\<rparr>))"
  using read_copy_gives [OF assms(1,2)] assms(1,3)
  by (auto simp: dev_read_def read_result_def read_reset_def dev_inv_def stored_number_def)

text \<open>
  A read that comes after the buffer was rewritten and before the length was stored gets the new
  message cut to the length of the old one.
\<close>

lemma race_read:
  assumes "dev_inv d" "at_store d" "readbuflen d \<noteq> 0" "18 \<le> length ubuf" "0 < sint (counter d)"
  shows "dev_read True ubuf d
      = Ok (int (length (hello (counter d - 1))),
            overwrite 0 (take (length (hello (counter d - 1))) (hello (counter d))) ubuf, d\<lparr>readbuflen := 0\<rparr>)"
  using read_copy_gives [OF assms(1,4)] length_hello_mono [OF assms(5)] assms(1-3)
  by (auto simp: dev_read_def read_result_def read_reset_def dev_inv_def stored_number_def)

text \<open>What the reads of a run delivered, and the steps of the thread in it.\<close>

fun reads_of :: "dev_event list \<Rightarrow> string list" where
  "reads_of [] = []"
| "reads_of (Ev_read t (rc, ubuf) # es) = (if 0 < rc then [take (nat rc) ubuf] else []) @ reads_of es"
| "reads_of (_ # es) = reads_of es"

fun read_results :: "dev_event list \<Rightarrow> int list" where
  "read_results [] = []"
| "read_results (Ev_read t (rc, ubuf) # es) = rc # read_results es"
| "read_results (_ # es) = read_results es"

definition fills :: "dev_event list \<Rightarrow> nat" where
  "fills es = length (filter (\<lambda>e. e = Ev_thread) es)"

lemma reads_of_append: "reads_of (es @ es') = reads_of es @ reads_of es'"
  by (induction es rule: reads_of.induct) auto

lemma read_results_append: "read_results (es @ es') = read_results es @ read_results es'"
  by (induction es rule: read_results.induct) auto

lemma fills_append [simp]: "fills (es @ es') = fills es + fills es'"
  by (simp add: fills_def)

lemma fills_Nil [simp]: "fills [] = 0"
  by (simp add: fills_def)

lemma fills_single: "fills [e] = (if e = Ev_thread then 1 else 0)"
  by (simp add: fills_def)

text \<open>In every run the counter is the number of messages written, and no result is out of range.\<close>

lemma thread_step_counts:
  "counter (thread_step d) = counter d + (if thread_pc d = Th_check \<and> \<not> should_stop d then 1 else 0)"
  by (simp add: thread_step_def thread_print_def thread_store_def thread_wake_def Let_def split: thread_at.split prod.split)

lemma thread_step_calls [simp]: "calls (thread_step d) = calls d"
  by (simp add: thread_step_def thread_print_def thread_store_def thread_wake_def Let_def split: thread_at.split prod.split)

lemma thread_step_at_store:
  "at_store (thread_step d) \<longleftrightarrow> thread_pc d = Th_check \<and> \<not> should_stop d"
  by (simp add: at_store_def thread_step_def thread_print_def thread_store_def thread_wake_def Let_def split: thread_at.split prod.split)

definition counted :: "nat \<Rightarrow> poll_dev \<Rightarrow> bool" where
  "counted n d \<longleftrightarrow> counter d = of_nat n \<and> (at_store d \<longrightarrow> 0 < n)"

lemma counted_step: "dev_step d e d' \<Longrightarrow> counted n d \<Longrightarrow> \<exists>m \<le> n + fills [e]. counted m d'"
proof (induction rule: dev_step.induct)
  case (step_thread d)
  then show ?case
    by (intro exI [of _ "n + (if thread_pc d = Th_check \<and> \<not> should_stop d then 1 else 0)"])
      (auto simp: counted_def fills_single thread_step_counts thread_step_at_store)
qed (auto simp: counted_def at_store_def read_reset_def poll_wait_def poll_return_def myexit_def intro!: exI [of _ n])

lemma counted_run: "dev_run d0 es d \<Longrightarrow> d0 = myinit \<Longrightarrow> \<exists>n \<le> fills es. counted n d"
proof (induction rule: dev_run.induct)
  case (run_none d)
  then show ?case by (simp add: counted_def myinit_def at_store_def)
next
  case (run_more d es d1 e d2)
  then obtain n where "n \<le> fills es" "counted n d1" by blast
  moreover from counted_step [OF run_more.hyps(2) this(2)] obtain m where "m \<le> n + fills [e]" "counted m d2" by blast
  ultimately show ?case by (intro exI [of _ m]) simp
qed

lemma counted_positive:
  assumes "counted n d" "at_store d" "n < 2 ^ 31"
  shows "0 < sint (counter d)"
proof -
  have "sint (of_nat n :: cint) = int n" using assms(3) by (simp add: signed_of_nat signed_take_bit_int_eq_self)
  then show ?thesis using assms(1,2) by (simp add: counted_def)
qed

lemma read_results_range:
  "dev_run d0 es d \<Longrightarrow> dev_inv d0 \<Longrightarrow> set (read_results es) \<subseteq> {- EFAULT} \<union> {0..18}"
proof (induction rule: dev_run.induct)
  case (run_more d es d1 e d2)
  have "dev_inv d1" by (rule dev_inv_run [OF run_more.hyps(1) run_more.prems])
  with run_more.hyps(2) have "set (read_results [e]) \<subseteq> {- EFAULT} \<union> {0..18}"
    by (cases rule: dev_step.cases) (auto simp: dev_inv_def)
  then show ?case using run_more by (simp add: read_results_append)
qed simp

section \<open>No message is read twice in a quiet run\<close>

text \<open>What a read in progress has taken is the pending message.\<close>

definition takes_pending :: "poll_dev \<Rightarrow> bool" where
  "takes_pending d \<longleftrightarrow>
     (\<forall>t u. calls d t = Some (Rd_copied True u) \<longrightarrow> readbuflen d \<noteq> 0 \<longrightarrow> take (readbuflen d) u = hello (counter d))
     \<and> (\<forall>t rc u. calls d t = Some (Rd_result rc u) \<longrightarrow> 0 < rc \<longrightarrow> readbuflen d \<noteq> 0 \<and> take (nat rc) u = hello (counter d))"

text \<open>
  After a run that delivered the messages numbered \<open>ks\<close>: the thread has written \<open>n\<close> messages, and the
  next one to be read has a higher number than all of \<open>ks\<close>.
\<close>

definition delivered :: "nat \<Rightarrow> nat list \<Rightarrow> poll_dev \<Rightarrow> bool" where
  "delivered n ks d \<longleftrightarrow>
     counter d = of_nat n \<and> sorted_wrt (<) ks \<and> takes_pending d
     \<and> (\<forall>k \<in> set ks. if readbuflen d = 0 \<and> \<not> at_store d then k \<le> n else k < n)"

lemma delivered_thread:
  assumes "delivered n ks d" "quiet d" "quiet (thread_step d)"
  shows "\<exists>m \<le> Suc n. delivered m ks (thread_step d)"
proof (cases "thread_pc d = Th_check \<and> \<not> should_stop d")
  case True
  then have "\<And>t. \<not> reading (calls d t)" using assms(3) by (simp add: quiet_def thread_step_at_store)
  then have "takes_pending (thread_step d)" unfolding takes_pending_def thread_step_calls by (metis reading.simps(1,2))
  then have "delivered (Suc n) ks (thread_step d)"
    using True assms(1) thread_step_at_store [of d]
    by (auto simp: delivered_def thread_step_counts less_Suc_eq_le dest!: bspec split: if_splits)
  then show ?thesis by blast
next
  case False
  have "delivered n ks (thread_step d)"
  proof (cases "thread_pc d")
    case (Th_store k)
    then have "\<And>t. \<not> reading (calls d t)" using assms(2) by (simp add: quiet_def at_store_def)
    then have "takes_pending (thread_step d)" unfolding takes_pending_def thread_step_calls by (metis reading.simps(1,2))
    then show ?thesis
      using Th_store assms(1) by (auto simp: delivered_def thread_step_def thread_store_def at_store_def dest!: bspec)
  qed (use False assms(1) in \<open>auto simp: delivered_def takes_pending_def thread_step_def thread_wake_def at_store_def\<close>)
  then show ?thesis using le_SucI by blast
qed

lemma quiet_alone: "quiet d \<Longrightarrow> reading (calls d t) \<Longrightarrow> \<not> at_store d \<and> (\<forall>u. reading (calls d u) \<longrightarrow> u = t)"
  by (auto simp: quiet_def)

lemma delivered_read:
  assumes "delivered n ks d" "quiet d" "calls d t = Some (Rd_result rc u)"
  shows "\<exists>ks'. map (\<lambda>k. hello (of_nat k)) ks' = reads_of [Ev_read t (rc, u)]
           \<and> delivered n (ks @ ks') ((read_reset d)\<lparr>calls := (calls d)(t := None)\<rparr>)"
proof -
  let ?d = "(read_reset d)\<lparr>calls := (calls d)(t := None)\<rparr>"
  have alone: "\<not> at_store d" "\<And>u. reading (calls d u) \<Longrightarrow> u = t"
    using quiet_alone [OF assms(2), of t] assms(3) by auto
  have "takes_pending ?d" using alone(2) by (fastforce simp: takes_pending_def dest: sym)
  moreover have "\<not> at_store ?d" using alone(1) by (simp add: at_store_def read_reset_def)
  ultimately have rest: "delivered n ks' ?d \<longleftrightarrow> sorted_wrt (<) ks' \<and> (\<forall>k \<in> set ks'. k \<le> n)" for ks'
    using assms(1) by (auto simp: delivered_def read_reset_def)
  have before: "counter d = of_nat n" "sorted_wrt (<) ks" "\<forall>k \<in> set ks. if readbuflen d = 0 then k \<le> n else k < n"
    using assms(1) alone(1) by (auto simp: delivered_def)
  show ?thesis
  proof (cases "0 < rc")
    case True
    then have "readbuflen d \<noteq> 0" "take (nat rc) u = hello (counter d)" using assms(1,3) by (auto simp: delivered_def takes_pending_def)
    then have "map (\<lambda>k. hello (of_nat k)) [n] = reads_of [Ev_read t (rc, u)]" "delivered n (ks @ [n]) ?d"
      using True before by (auto simp: rest sorted_wrt_append less_imp_le)
    then show ?thesis by blast
  next
    case False
    then have "map (\<lambda>k. hello (of_nat k)) [] = reads_of [Ev_read t (rc, u)]" "delivered n (ks @ []) ?d"
      using before by (auto simp: rest less_imp_le split: if_splits)
    then show ?thesis by blast
  qed
qed

lemma delivered_copy:
  assumes "delivered n ks d" "dev_inv d" "quiet (d\<lparr>calls := (calls d)(t \<mapsto> Rd_copied c u)\<rparr>)" "calls d t = None"
    and "read_copy mapped ubuf d = Ok (c, u)"
  shows "delivered n ks (d\<lparr>calls := (calls d)(t \<mapsto> Rd_copied c u)\<rparr>)"
proof -
  have "\<not> at_store d"
    using quiet_alone [OF assms(3), of t] by (simp add: at_store_def)
  then have "c \<Longrightarrow> readbuflen d \<noteq> 0 \<Longrightarrow> take (readbuflen d) u = hello (counter d)"
    using assms(2,5) by (auto simp: read_copy_def dev_inv_defs overwrite_def split: if_splits)
  then show ?thesis using assms(1) by (auto simp: delivered_def takes_pending_def at_store_def)
qed

lemma delivered_step:
  "dev_step d e d' \<Longrightarrow> dev_inv d \<Longrightarrow> quiet d \<Longrightarrow> quiet d' \<Longrightarrow> delivered n ks d \<Longrightarrow>
     \<exists>m ks'. m \<le> n + fills [e] \<and> map (\<lambda>k. hello (of_nat k)) ks' = reads_of [e] \<and> delivered m (ks @ ks') d'"
proof (induction rule: dev_step.induct)
  case (step_copy d t mapped ubuf c u)
  then have "delivered n ks (d\<lparr>calls := (calls d)(t \<mapsto> Rd_copied c u)\<rparr>)" using delivered_copy by blast
  then show ?case by (intro exI [of _ n] exI [of _ "[]"]) simp
next
  case (step_result d t c u)
  then have "delivered n ks (d\<lparr>calls := (calls d)(t \<mapsto> Rd_result (read_result c d) u)\<rparr>)"
    by (auto simp: delivered_def takes_pending_def at_store_def read_result_def EFAULT_def)
  then show ?case by (intro exI [of _ n] exI [of _ "[]"]) simp
next
  case (step_read d t rc u)
  then obtain ks' where "map (\<lambda>k. hello (of_nat k)) ks' = reads_of [Ev_read t (rc, u)]"
    "delivered n (ks @ ks') ((read_reset d)\<lparr>calls := (calls d)(t := None)\<rparr>)" using delivered_read by blast
  then show ?case by (intro exI [of _ n] exI [of _ ks']) simp
next
  case (step_thread d)
  then obtain m where "m \<le> Suc n" "delivered m ks (thread_step d)" using delivered_thread by blast
  then show ?case by (intro exI [of _ m] exI [of _ "[]"]) (simp add: fills_single)
qed (intro exI [of _ n] exI [of _ "[]"], auto simp: delivered_def takes_pending_def at_store_def poll_wait_def poll_return_def myexit_def)+

lemma delivered_run:
  "quiet_run d0 es d \<Longrightarrow> d0 = myinit \<Longrightarrow> \<exists>n ks. n \<le> fills es \<and> reads_of es = map (\<lambda>k. hello (of_nat k)) ks \<and> delivered n ks d"
proof (induction rule: quiet_run.induct)
  case (quiet_none d)
  then show ?case by (intro exI [of _ 0] exI [of _ "[]"]) (simp add: delivered_def takes_pending_def myinit_def)
next
  case (quiet_more d es d1 e d2)
  then obtain n ks where ks: "n \<le> fills es" "reads_of es = map (\<lambda>k. hello (of_nat k)) ks" "delivered n ks d1" by blast
  moreover have "dev_inv d1"
    using dev_inv_run [OF quiet_run_dev_run [OF quiet_more.hyps(1)]] quiet_more.prems dev_inv_init by simp
  moreover have "quiet d1" by (rule quiet_run_ends [OF quiet_more.hyps(1)])
  ultimately obtain m ks' where "m \<le> n + fills [e]" "map (\<lambda>k. hello (of_nat k)) ks' = reads_of [e]" "delivered m (ks @ ks') d2"
    using delivered_step [OF quiet_more.hyps(2) _ _ quiet_more.hyps(3)] by blast
  then show ?case using ks(1,2) by (intro exI [of _ m] exI [of _ "ks @ ks'"]) (auto simp: reads_of_append)
qed

section \<open>A sleeping reader gets the next message\<close>

lemma thread_prints:
  assumes "dev_inv d" "thread_pc d = Th_check" "\<not> should_stop d"
  shows "dev_inv (thread_step d)" "counter (thread_step d) = counter d + 1" "waitqueue (thread_step d) = waitqueue d"
    "thread_pc (thread_step d) = Th_store (length (hello (counter d + 1)))" "\<not> should_stop (thread_step d)"
    "readbuflen (thread_step d) = readbuflen d"
  using assms thread_print_simps [of d] dev_inv_thread [OF assms(1)] by (simp_all add: dev_inv_def thread_step_def)

lemma thread_stores:
  assumes "dev_inv d" "thread_pc d = Th_store n"
  shows "dev_inv (thread_step d)" "readbuflen (thread_step d) \<noteq> 0" "counter (thread_step d) = counter d"
    "waitqueue (thread_step d) = waitqueue d" "thread_pc (thread_step d) = Th_sleep"
    "should_stop (thread_step d) = should_stop d"
  using assms dev_inv_thread [OF assms(1)] by (simp_all add: dev_inv_def thread_step_def thread_store_def)

lemma thread_wakes:
  assumes "thread_pc d = Th_sleep"
  shows "thread_step d = d\<lparr>woken := woken d @ waitqueue d, thread_pc := Th_check\<rparr>"
  using assms by (simp add: thread_step_def thread_wake_def)

text \<open>
  How many steps of the thread it takes until a new message is there and the sleepers are woken,
  and its number.
\<close>

definition steps_to_wake :: "poll_dev \<Rightarrow> nat" where
  "steps_to_wake d = (case thread_pc d of Th_store n \<Rightarrow> 2 | Th_sleep \<Rightarrow> 4 | _ \<Rightarrow> 3)"

definition next_number :: "poll_dev \<Rightarrow> cint" where
  "next_number d = (if at_store d then counter d else counter d + 1)"

definition wakes_in :: "nat \<Rightarrow> poll_dev \<Rightarrow> cint \<Rightarrow> bool" where
  "wakes_in k d c \<longleftrightarrow> (let d1 = (thread_step ^^ k) d in
     dev_inv d1 \<and> readbuflen d1 \<noteq> 0 \<and> counter d1 = c \<and> \<not> at_store d1 \<and> set (waitqueue d) \<subseteq> set (woken d1))"

lemma wakes_later:
  "wakes_in k (thread_step d) c \<Longrightarrow> waitqueue (thread_step d) = waitqueue d \<Longrightarrow> wakes_in (Suc k) d c"
  by (simp add: wakes_in_def funpow_Suc_right del: funpow.simps)

lemma wakes_from_store:
  assumes "dev_inv d" "thread_pc d = Th_store n"
  shows "wakes_in (Suc (Suc 0)) d (counter d)"
  using thread_stores [OF assms] thread_wakes [of "thread_step d"] dev_inv_thread [of "thread_step d"]
  by (simp add: wakes_in_def at_store_def)

lemma wakes_from_check:
  assumes "dev_inv d" "thread_pc d = Th_check" "\<not> should_stop d"
  shows "wakes_in (Suc (Suc (Suc 0))) d (counter d + 1)"
  using wakes_later [OF wakes_from_store] thread_prints [OF assms] by metis

lemma wakes_with_message:
  assumes "dev_inv d" "thread_pc d \<noteq> Th_exited" "\<not> should_stop d"
  shows "wakes_in (steps_to_wake d) d (next_number d)"
proof (cases "thread_pc d")
  case Th_check
  then show ?thesis
    using wakes_from_check [OF assms(1) Th_check assms(3)] by (simp add: steps_to_wake_def next_number_def at_store_def eval_nat_numeral)
next
  case (Th_store n)
  then show ?thesis
    using wakes_from_store [OF assms(1)] by (simp add: steps_to_wake_def next_number_def at_store_def eval_nat_numeral)
next
  case Th_sleep
  then have "dev_inv (thread_step d)" "thread_pc (thread_step d) = Th_check" "\<not> should_stop (thread_step d)"
    "counter (thread_step d) = counter d" "waitqueue (thread_step d) = waitqueue d"
    using thread_wakes dev_inv_thread [OF assms(1)] assms(3) by simp_all
  then show ?thesis
    using wakes_later [OF wakes_from_check, of d] Th_sleep
    by (simp add: steps_to_wake_def next_number_def at_store_def eval_nat_numeral)
qed (use assms(2) in simp)

section \<open>The program that polls the device\<close>

text \<open>
  One round of the loop of \<open>my_poll_dev_test.c\<close>, with a device that is there. \<open>poll\<close> without a time
  limit calls the driver and, when the mask is 0, sleeps on the queue: then the round is not over
  (\<open>None\<close>). Otherwise \<open>poll\<close> leaves the queue and returns: the text printed and the user's buffer.
\<close>

definition test_round :: "nat \<Rightarrow> string \<Rightarrow> poll_dev \<Rightarrow> ((string \<times> string) option \<times> poll_dev) outcome" where
  "test_round task buf d =
     (let (revents, d1) = my_dev_poll task d;
          out = ''poll\<newline>'' @ ''revents = '' @ dec_int revents @ ''\<newline>'' in
      if revents = 0 then Ok (None, d1)
      else if revents = POLLIN then
        obind (dev_read True buf (poll_return task d1)) (\<lambda>(n, buf1, d2).
          Ok (Some (out @ ''POLLIN n='' @ dec_int n @ '' buf='' @ takeWhile (\<lambda>c. c \<noteq> CHR 0x00) (take (nat n) buf1) @ ''\<newline>'', buf1), d2))
      else Ok (Some (out, buf), poll_return task d1))"

lemma test_round_reads:
  assumes "dev_inv d" "length buf = 1024" "readbuflen d \<noteq> 0" "\<not> at_store d"
  shows "\<exists>d' buf'. test_round task buf d
      = Ok (Some (''poll\<newline>revents = 1\<newline>POLLIN n='' @ dec_int (int (length (hello (counter d)))) @ '' buf=''
                    @ hello (counter d) @ ''\<newline>'', buf'), d')
      \<and> readbuflen d' = 0 \<and> length buf' = 1024"
proof -
  let ?d = "poll_return task (poll_wait task d)"
  have same: "dev_inv ?d" "\<not> at_store ?d" "readbuflen ?d = readbuflen d" "counter ?d = counter d" "readbuflen (poll_wait task d) = readbuflen d"
    using assms(1,4) by (simp_all add: dev_inv_defs poll_wait_def poll_return_def)
  then have "dev_read True buf ?d = Ok (int (length (hello (counter d))), overwrite 0 (hello (counter d)) buf, ?d\<lparr>readbuflen := 0\<rparr>)"
    using dev_read_gives [of ?d buf] same assms(2,3) by simp
  moreover have "dec_int POLLIN = ''1''" by code_simp
  moreover have "take (length (hello (counter d))) (overwrite 0 (hello (counter d)) buf) = hello (counter d)"
    by (simp add: overwrite_def)
  moreover have "CHR 0x00 \<notin> set (hello (counter d))" using dec_nat_plain by (auto simp: hello_def dec_int_def)
  ultimately show ?thesis
    using takeWhile_no_NUL same assms(2,3) length_hello [of "counter d"]
    by (simp add: test_round_def my_dev_poll_def poll_mask_def Let_def POLLIN_def)
qed

text \<open>A round with nothing to read sleeps on the queue, and is woken when the next message is there.\<close>

lemma test_round_sleeps:
  assumes "readbuflen d = 0"
  shows "test_round task buf d = Ok (None, poll_wait task d)"
  using assms by (simp add: test_round_def my_dev_poll_def poll_mask_def poll_wait_def Let_def)

end
