(* ===== verification/Event_Results.thy ===== *)
theory Event_Results
  imports Echo_Results Event_Loops Poll_Device
begin

text \<open>
  The results about the programs under \<open>src/live/epoll\<close>: the polled device and its reader, the
  server on \<open>epoll\<close> and the chat client on \<open>select\<close>.
\<close>

section \<open>The device\<close>

text \<open>
  C31. However the statements of the thread, of any number of readers and pollers and of the module's
  exit interleave, as long as the counter has not overflowed: a read of the device with room for 18
  bytes stays inside the device's buffer and the user's, what it copies is the beginning of the
  thread's latest message, and what \<open>read\<close> returns is -EFAULT or a length from 0 to 18.
\<close>

theorem device_reads_in_bounds:
  assumes "dev_run myinit es d" "fills es < 2 ^ 31" "18 \<le> length ubuf"
  shows "(\<exists>k. read_copy True ubuf d = Ok (True, overwrite 0 (take k (hello (counter d))) ubuf))
         \<and> set (read_results es) \<subseteq> {- EFAULT} \<union> {0..18}"
proof
  obtain n where n: "n \<le> fills es" "counted n d" using counted_run [OF assms(1)] by blast
  then have "length (hello (stored_number d)) \<le> length (hello (counter d))"
    using counted_positive [OF n(2)] length_hello_mono [of "counter d"] assms(2) by (simp add: stored_number_def)
  then show "\<exists>k. read_copy True ubuf d = Ok (True, overwrite 0 (take k (hello (counter d))) ubuf)"
    using read_copy_gives [OF dev_inv_run [OF assms(1) dev_inv_init] assms(3)] by blast
  show "set (read_results es) \<subseteq> {- EFAULT} \<union> {0..18}" by (rule read_results_range [OF assms(1) dev_inv_init])
qed

text \<open>The thread alone: after \<open>3 * k\<close> of its steps it has written \<open>k\<close> messages.\<close>

lemma dev_run_thread: "dev_run myinit (replicate k Ev_thread) ((thread_step ^^ k) myinit)"
proof (induction k)
  case (Suc k)
  then have "dev_run myinit (replicate k Ev_thread @ [Ev_thread]) (thread_step ((thread_step ^^ k) myinit))"
    using run_more step_thread by blast
  then show ?case by (simp add: replicate_append_same)
qed (simp add: run_none)

lemma thread_cycles:
  "let d = (thread_step ^^ (3 * k)) myinit in
     dev_inv d \<and> thread_pc d = Th_check \<and> \<not> should_stop d \<and> counter d = of_nat k \<and> (0 < k \<longrightarrow> readbuflen d \<noteq> 0)
     \<and> calls d = (\<lambda>_. None)"
proof (induction k)
  case 0
  then show ?case using dev_inv_init by (simp add: myinit_def)
next
  case (Suc k)
  let ?d = "(thread_step ^^ (3 * k)) myinit"
  have d: "dev_inv ?d" "thread_pc ?d = Th_check" "\<not> should_stop ?d" "counter ?d = of_nat k" "calls ?d = (\<lambda>_. None)"
    using Suc.IH by (simp_all add: Let_def)
  note p = thread_prints [OF d(1-3)]
  note s = thread_stores [OF p(1,4)] and w = thread_wakes [of "thread_step (thread_step ?d)"]
  have "(thread_step ^^ (3 * Suc k)) myinit = thread_step (thread_step (thread_step ?d))"
    by (simp add: eval_nat_numeral)
  then show ?case
    using s w p(2,5) d(4,5) dev_inv_thread [OF s(1)] by (simp add: Let_def add.commute)
qed

lemma hello_1: "hello 1 = ''hello, 1''"
  by code_simp

theorem device_reads_in_bounds_witness:
  "\<exists>es d. dev_run myinit es d \<and> fills es = 3
     \<and> (\<exists>k. read_copy True (replicate 18 CHR ''?'') d = Ok (True, overwrite 0 (take k ''hello, 1'') (replicate 18 CHR ''?'')))"
proof -
  let ?es = "replicate (3 * 1) Ev_thread" and ?d = "(thread_step ^^ (3 * 1)) myinit"
  have "fills ?es = 3" by (simp add: fills_def)
  moreover have "counter ?d = 1" using thread_cycles [of 1] by (simp add: Let_def)
  ultimately show ?thesis
    using device_reads_in_bounds [OF dev_run_thread [of "3 * 1"], of "replicate 18 CHR ''?''"] dev_run_thread [of "3 * 1"] hello_1
    by (intro exI [of _ ?es] exI [of _ ?d]) simp
qed

text \<open>
  C32. No message is delivered twice when nothing overlaps. In every run from the module's
  initialisation in which no read overlaps another read or the thread's rewriting of the buffer and
  its length (\<open>quiet_run\<close>; the code has no lock that would make all runs so): the messages that reads
  deliver are whole messages of the thread, with strictly increasing numbers up to the number of
  steps the thread has made.
\<close>

theorem device_messages_once:
  assumes "quiet_run myinit es d"
  shows "\<exists>ks. reads_of es = map (\<lambda>k. hello (of_nat k)) ks \<and> sorted_wrt (<) ks \<and> (\<forall>k \<in> set ks. k \<le> fills es)"
proof -
  obtain n ks where "n \<le> fills es" "reads_of es = map (\<lambda>k. hello (of_nat k)) ks" "delivered n ks d"
    using delivered_run [OF assms] by blast
  then have "sorted_wrt (<) ks" "\<forall>k \<in> set ks. k \<le> fills es" by (auto simp: delivered_def dest!: bspec split: if_splits)
  then show ?thesis using \<open>reads_of es = _\<close> by blast
qed

text \<open>A quiet run: the thread writes a message, and task 7 reads it.\<close>

lemma thread_twice:
  "dev_inv (thread_step (thread_step myinit))" "readbuflen (thread_step (thread_step myinit)) \<noteq> 0"
  "counter (thread_step (thread_step myinit)) = 1" "thread_pc (thread_step (thread_step myinit)) = Th_sleep"
  "calls (thread_step (thread_step myinit)) = (\<lambda>_. None)"
proof -
  have i: "thread_pc myinit = Th_check" "\<not> should_stop myinit" "counter myinit = 0" "calls myinit = (\<lambda>_. None)"
    by (simp_all add: myinit_def)
  note p = thread_prints [OF dev_inv_init i(1,2)]
  show "dev_inv (thread_step (thread_step myinit))" "readbuflen (thread_step (thread_step myinit)) \<noteq> 0"
    "counter (thread_step (thread_step myinit)) = 1" "thread_pc (thread_step (thread_step myinit)) = Th_sleep"
    "calls (thread_step (thread_step myinit)) = (\<lambda>_. None)"
    using thread_stores [OF p(1,4)] p(2) i(3,4) by simp_all
qed

theorem device_messages_once_witness:
  "\<exists>es d. quiet_run myinit es d \<and> reads_of es = [''hello, 1'']
     \<and> (\<exists>ks. reads_of es = map (\<lambda>k. hello (of_nat k)) ks \<and> sorted_wrt (<) ks \<and> (\<forall>k \<in> set ks. k \<le> fills es))"
proof -
  let ?d1 = "thread_step myinit" and ?d = "thread_step (thread_step myinit)" and ?u = "replicate 18 CHR ''?''"
  let ?es = "(([] @ [Ev_thread]) @ [Ev_thread]) @ [Ev_copy 7, Ev_result 7, Ev_read 7 (8, overwrite 0 ''hello, 1'' ?u)]"
  have at: "\<not> at_store ?d" using thread_twice(4) by (simp add: at_store_def)
  have "quiet ?d1" "quiet ?d" using thread_twice(5) by (simp_all add: quiet_def)
  then have two: "quiet_run myinit (([] @ [Ev_thread]) @ [Ev_thread]) ?d"
    using quiet_more [OF quiet_more [OF quiet_none [OF quiet_init] step_thread] step_thread] by blast
  have read: "dev_read True ?u ?d = Ok (8, overwrite 0 ''hello, 1'' ?u, ?d\<lparr>readbuflen := 0\<rparr>)"
    using dev_read_gives [OF thread_twice(1), of ?u] thread_twice(2,3) at hello_1 by simp
  have none: "calls ?d t = None" for t by (simp add: thread_twice(5) del: thread_step_calls)
  then have "\<not> reading (calls ?d t)" for t using none [of t] by (simp del: thread_step_calls)
  then have run: "quiet_run myinit ?es (?d\<lparr>readbuflen := 0\<rparr>)"
    using quiet_run_reads [OF two read _ at none] by blast
  moreover have "reads_of ?es = [''hello, 1'']" by (simp add: overwrite_def)
  ultimately show ?thesis using device_messages_once [OF run] by blast
qed

text \<open>
  C33. No reader sleeps for ever. A round of \<open>my_poll_dev_test.c\<close> that finds nothing sleeps on the
  wait queue; as long as the thread runs, three of its steps later (two if it has just written the
  next message, four if it was about to wake others), when no other task has stepped in between, the
  reader has been woken and a new message is there, and the round then prints it whole.
\<close>

theorem device_reader_woken:
  assumes "dev_inv d" "readbuflen d = 0" "thread_pc d \<noteq> Th_exited" "\<not> should_stop d" "length buf = 1024"
  shows "\<exists>d1 d2 buf' d3. test_round task buf d = Ok (None, d1)
           \<and> d2 = (thread_step ^^ steps_to_wake d1) d1 \<and> task \<in> set (woken d2)
           \<and> test_round task buf d2
               = Ok (Some (''poll\<newline>revents = 1\<newline>POLLIN n='' @ dec_int (int (length (hello (next_number d)))) @ '' buf=''
                            @ hello (next_number d) @ ''\<newline>'', buf'), d3)"
proof -
  let ?d1 = "poll_wait task d"
  let ?d2 = "(thread_step ^^ steps_to_wake ?d1) ?d1"
  have d1: "test_round task buf d = Ok (None, ?d1)" by (rule test_round_sleeps [OF assms(2)])
  have q: "dev_inv ?d1" "thread_pc ?d1 \<noteq> Th_exited" "\<not> should_stop ?d1" "task \<in> set (waitqueue ?d1)" "next_number ?d1 = next_number d"
    using assms(1,3,4) by (auto simp: dev_inv_defs poll_wait_def next_number_def)
  have d2: "dev_inv ?d2" "readbuflen ?d2 \<noteq> 0" "counter ?d2 = next_number d" "\<not> at_store ?d2" "set (waitqueue ?d1) \<subseteq> set (woken ?d2)"
    using wakes_with_message [OF q(1-3)] q(5) by (simp_all add: wakes_in_def Let_def)
  have "task \<in> set (woken ?d2)" using d2(5) q(4) by blast
  then show ?thesis using d1 test_round_reads [OF d2(1) assms(5) d2(2,4), of task] d2(3) by metis
qed

theorem device_reader_woken_witness:
  "\<exists>d1 d2 buf' d3. test_round 7 (replicate 1024 CHR ''?'') myinit = Ok (None, d1)
     \<and> d2 = (thread_step ^^ steps_to_wake d1) d1 \<and> 7 \<in> set (woken d2)
     \<and> test_round 7 (replicate 1024 CHR ''?'') d2 = Ok (Some (''poll\<newline>revents = 1\<newline>POLLIN n=8 buf=hello, 1\<newline>'', buf'), d3)"
proof -
  have "next_number myinit = 1" "dec_int 8 = ''8''" by (simp add: myinit_def next_number_def at_store_def, code_simp)
  then show ?thesis
    using device_reader_woken [OF dev_inv_init, of "replicate 1024 CHR ''?''" 7] hello_1 by (simp add: myinit_def)
qed

text \<open>
  \<open>read\<close> does not look at the length the caller passes: with a message pending, a user buffer
  shorter than the message is written past its end, however short; and when the copy fails with
  \<open>EFAULT\<close> the message is gone, because \<open>readbuflen\<close> is reset all the same.
\<close>

theorem device_read_ignores_length:
  assumes "dev_inv d" "readbuflen d \<noteq> 0" "\<not> at_store d"
  shows "(length ubuf < length (hello (counter d)) \<longrightarrow> dev_read True ubuf d = Bad)
         \<and> (\<exists>d'. dev_read False ubuf d = Ok (- EFAULT, ubuf, d') \<and> fst (my_dev_poll task d') = 0)"
  using assms
  by (auto simp: dev_read_def read_copy_def read_result_def read_reset_def dev_inv_def stored_number_def my_dev_poll_def
      poll_mask_def poll_wait_def Let_def)

theorem device_read_ignores_length_witness: "dev_read True ''abcde'' (thread_step (thread_step myinit)) = Bad"
  using device_read_ignores_length [OF thread_twice(1,2), of "''abcde''"] hello_1 thread_twice(3,4) by (simp add: at_store_def)

text \<open>
  C34. Nothing keeps a read out of the middle of the thread's update. In every run, any read that
  comes between the writing of the buffer and the storing of its length, while the message before
  has not been read, returns the new message cut to the length of the old one; and once the length is
  stored, the next read gets the new message again, whole. After number 9 the first delivers
  \<open>hello, 1\<close>, a message that was not there.
\<close>

theorem device_race:
  assumes "dev_run myinit es d" "fills es < 2 ^ 31" "at_store d" "readbuflen d \<noteq> 0" "18 \<le> length ubuf"
  shows "\<exists>d' d''. dev_read True ubuf d
             = Ok (int (length (hello (counter d - 1))),
                   overwrite 0 (take (length (hello (counter d - 1))) (hello (counter d))) ubuf, d')
           \<and> dev_read True ubuf (thread_step d')
             = Ok (int (length (hello (counter d))), overwrite 0 (hello (counter d)) ubuf, d'')"
proof -
  let ?d = "d\<lparr>readbuflen := 0\<rparr>"
  have inv: "dev_inv d" by (rule dev_inv_run [OF assms(1) dev_inv_init])
  obtain n where n: "n \<le> fills es" "counted n d" using counted_run [OF assms(1)] by blast
  then have pos: "0 < sint (counter d)" using counted_positive [OF n(2) assms(3)] assms(2) by simp
  obtain k where k: "thread_pc d = Th_store k" using assms(3) by (auto simp: at_store_def split: thread_at.splits)
  then have "dev_inv ?d" "thread_pc ?d = Th_store k" using inv by (auto simp: dev_inv_defs)
  note s = thread_stores [OF this]
  then have "\<not> at_store (thread_step ?d)" by (simp add: at_store_def)
  then show ?thesis
    using race_read [OF inv assms(3,4,5) pos] dev_read_gives [OF s(1) assms(5)] s(2,3) by simp
qed

theorem device_race_witness:
  "\<exists>es d d' d''. dev_run myinit es d
     \<and> dev_read True (replicate 18 CHR ''?'') d = Ok (8, ''hello, 1'' @ replicate 10 CHR ''?'', d')
     \<and> dev_read True (replicate 18 CHR ''?'') (thread_step d') = Ok (9, ''hello, 10'' @ replicate 9 CHR ''?'', d'')"
proof -
  obtain d0 where d0: "dev_inv d0" "thread_pc d0 = Th_check" "\<not> should_stop d0" "counter d0 = 9" "readbuflen d0 \<noteq> 0"
    "dev_run myinit (replicate (3 * 9) Ev_thread) d0"
    using thread_cycles [of 9] dev_run_thread [of "3 * 9"] by (auto simp: Let_def)
  let ?d = "thread_step d0" and ?es = "replicate (3 * 9) Ev_thread @ [Ev_thread]" and ?u = "replicate 18 CHR ''?''"
  note p = thread_prints [OF d0(1-3)]
  have run: "dev_run myinit ?es ?d" by (rule run_more [OF d0(6) step_thread])
  have "fills ?es < 2 ^ 31" by (simp add: fills_def)
  moreover have "at_store ?d" using p(4) by (simp add: at_store_def)
  moreover have "counter ?d = 10" "counter ?d - 1 = 9" "readbuflen ?d \<noteq> 0" using p(2,6) d0(4,5) by simp_all
  moreover have "hello 9 = ''hello, 9''" "hello 10 = ''hello, 10''" by (simp_all add: hello_def, code_simp+)
  ultimately show ?thesis
    using device_race [OF run, of ?u] run by (auto simp: overwrite_def)
qed

section \<open>The epoll server\<close>



text \<open>
  A batch of events on clients that all have bytes to read copies what each read returns, in
  the order of the events, and changes nothing else of any client.
\<close>

theorem epoll_copies_in_order:
  assumes "distinct fds"
    and "\<And>fd. fd \<in> set fds \<Longrightarrow> fd \<noteq> listen_fd s \<and> client_in s fd = Got (c fd) # r fd \<and> c fd \<noteq> [] \<and> length (c fd) \<le> BUFSIZ"
  shows "ep_out (epoll_batch strerr accepts fds s) = ep_out s @ map (\<lambda>fd. (fd, c fd)) fds
         \<and> (\<forall>fd. client_in (epoll_batch strerr accepts fds s) fd = (if fd \<in> set fds then r fd else client_in s fd))
         \<and> ep_calls (epoll_batch strerr accepts fds s) = ep_calls s"
  using epoll_batch_copies [OF assms(1), of s c r strerr accepts] assms(2) by auto

theorem epoll_copies_in_order_witness:
  "ep_out (epoll_batch (\<lambda>_. '''') [] [6, 5] (epoll_ready\<lparr>client_in := (\<lambda>fd. [Got (if fd = 5 then ''five'' else ''six'')])\<rparr>))
    = [(6, ''six''), (5, ''five'')]"
proof -
  let ?s = "epoll_ready\<lparr>client_in := (\<lambda>fd. [Got (if fd = 5 then ''five'' else ''six'')])\<rparr>"
  let ?c = "\<lambda>fd :: int. if fd = 5 then ''five'' else ''six''"
  have "fd \<noteq> listen_fd ?s \<and> client_in ?s fd = Got (?c fd) # [] \<and> ?c fd \<noteq> [] \<and> length (?c fd) \<le> BUFSIZ"
    if "fd \<in> set [6, 5]" for fd
    using that by (auto simp: BUFSIZ_def epoll_ready_def)
  from epoll_copies_in_order [of "[6, 5]" ?s ?c "\<lambda>_. []" "\<lambda>_. ''''" "[]", OF _ this] show ?thesis
    by (simp add: epoll_ready_def del: epoll_batch.simps)
qed

section \<open>The chat client\<close>

text \<open>
  C36. The chat client stays within its arrays on ordinary input: when nothing that arrives is as
  long as \<open>MAXLINE\<close> and standard input holds no NUL, no run of \<open>main\<close>, whatever \<open>select\<close> and \<open>write\<close>
  return, accesses memory outside an array: it goes on or exits with a message.
\<close>

theorem chat_stays_inside:
  assumes "length recv_junk = MAXLINE" "length send_junk = MAXLINE"
    and "list_all short_item ev" "CHR 0x00 \<notin> set inp"
  shows "keeps chat_inv (chat_main sy argv recv_junk send_junk inp ev ws)"
proof -
  have "chat_inv \<lparr>recv_line = recv_junk, send_line = send_junk, chat_sock = ev, chat_stdin = inp, chat_out = '''', chat_sent = []\<rparr>"
    using assms by (simp add: chat_inv_def)
  from chat_loop_keeps [OF this] have
    "keeps chat_inv (obind (tcp_connect sy (argv ! 1) 9090) (\<lambda>fd. chat_loop (send_rt sy) ws
       \<lparr>recv_line = recv_junk, send_line = send_junk, chat_sock = ev, chat_stdin = inp, chat_out = '''', chat_sent = []\<rparr>))"
    by (simp add: tcp_connect_def Let_def)
  then show ?thesis by (simp add: chat_main_def)
qed

theorem chat_stays_inside_witness:
  "keeps chat_inv (chat_main calm [''select_test'', ''127.0.0.1''] (replicate 1024 CHR ''?'') (replicate 1024 CHR ''?'')
     ''hello\<newline>'' [Got ''welcome''] [(1, True, False), (1, False, True)])"
  by (rule chat_stays_inside) (simp_all add: MAXLINE_def)

text \<open>
  Both conditions are needed. A read that fills \<open>recv_line\<close> makes the client store the
  terminating NUL behind the array; a line that starts with a NUL makes it look at the byte before
  \<open>send_line\<close>.
\<close>

theorem chat_leaves_arrays:
  assumes "length (recv_line x) = MAXLINE" "length (send_line x) = MAXLINE"
  shows "(chat_sock x = Got cs # ev \<and> MAXLINE \<le> length cs \<longrightarrow> select_round write_rt 1 True stdin_set x = Bad)
         \<and> (chat_stdin x = CHR 0x00 # inp \<longrightarrow> select_round write_rt 1 False True x = Bad)"
proof (intro conjI impI)
  assume x: "chat_sock x = Got cs # ev \<and> MAXLINE \<le> length cs"
  then have "cs \<noteq> []" by (auto simp: MAXLINE_def)
  then have "\<exists>ev'. recv MAXLINE (chat_sock x) = (Bytes (take MAXLINE cs), ev')"
    using x by simp
  then obtain ev' where "recv MAXLINE (chat_sock x) = (Bytes (take MAXLINE cs), ev')" ..
  then have "chat_receive x = Bad" using chat_receive_overflows assms(1) x by simp
  then show "select_round write_rt 1 True stdin_set x = Bad" by (simp add: select_round_def)
next
  assume "chat_stdin x = CHR 0x00 # inp"
  then show "select_round write_rt 1 False True x = Bad"
    using chat_send_NUL [of x inp write_rt] assms(2) by (simp add: select_round_def)
qed

theorem chat_leaves_arrays_witness:
  "select_round (\<lambda>_. 1) 1 True False \<lparr>recv_line = replicate 1024 CHR ''?'', send_line = replicate 1024 CHR ''?'',
     chat_sock = [Got (replicate 1024 CHR ''a'')], chat_stdin = '''', chat_out = '''', chat_sent = []\<rparr> = Bad"
  using chat_leaves_arrays [of "\<lparr>recv_line = replicate 1024 CHR ''?'', send_line = replicate 1024 CHR ''?'',
     chat_sock = [Got (replicate 1024 CHR ''a'')], chat_stdin = '''', chat_out = '''', chat_sent = []\<rparr>"
     "replicate 1024 CHR ''a''" "[]" "\<lambda>_. 1" False]
  by (simp add: MAXLINE_def)

end
