(* ===== verification/Socket_Demos.thy ===== *)
theory Socket_Demos
  imports Echo_Programs
begin

text \<open>
  The small C++ programs that put a socket into a state and leave it there to be looked at:
  \<open>src/tcp_state/\<close>, \<open>src/terminate/\<close>, \<open>src/syn_accept_queue/\<close> and \<open>src/main.cpp\<close>. A program is the
  list of the calls it makes, computed from what the system calls return; \<open>cin.get ()\<close> is a call,
  and the program rests there until a key arrives. \<open>sock_shows\<close> reads off such a list what has
  become of a descriptor.
\<close>

section \<open>Calls\<close>

datatype sock_call =
    Sock_socket int
  | Sock_reuse int
  | Sock_bind int sockaddr_in int
  | Sock_listen int int int
  | Sock_connect int sockaddr_in int
  | Sock_accept int int
  | Sock_close int
  | Say string
  | Complain string
  | Key

text \<open>The calls of a run and how it ended: \<open>Some\<close> exit status, or \<open>None\<close> while it still runs.\<close>

type_synonym demo_run = "sock_call list \<times> int option"

definition any_9090 :: sockaddr_in where
  "any_9090 = \<lparr>sin_family = AF_INET, sin_port = htons 9090, sin_addr = 0\<rparr>"

definition cout_int :: "string \<Rightarrow> int \<Rightarrow> sock_call" where
  "cout_int text n = Say (text @ dec_int n @ ''\<newline>'')"

section \<open>\<open>main.cpp\<close> and \<open>tcp_state\<close>\<close>

definition hello_main :: demo_run where
  "hello_main = ([Say ''Hello, World!\<newline>''], Some 0)"

definition closed_main :: "sys \<Rightarrow> demo_run" where
  "closed_main sy =
     (let fd = socket_rt sy in
      ([Sock_socket fd, cout_int ''socket fd: '' fd, Key], Some 0))"

definition listen_main :: "sys \<Rightarrow> demo_run" where
  "listen_main sy =
     (let fd = socket_rt sy;
          made = [Sock_socket fd, Sock_reuse fd, Sock_bind fd any_9090 (bind_rt sy any_9090)] in
      if bind_rt sy any_9090 \<noteq> 0 then (made, Some 1)
      else
        let made = made @ [Sock_listen fd 4096 (listen_rt sy)] in
        if listen_rt sy < 0 then (made, Some 1)
        else (made @ [cout_int ''fd: '' fd, Key], Some 0))"

section \<open>\<open>terminate\<close>\<close>

definition loop_9090 :: "(string \<Rightarrow> 32 word) \<Rightarrow> sockaddr_in" where
  "loop_9090 inet_addr = \<lparr>sin_family = AF_INET, sin_port = htons 9090, sin_addr = inet_addr ''127.0.0.1''\<rparr>"

definition fin_start :: "sys \<Rightarrow> (string \<Rightarrow> 32 word) \<Rightarrow> sock_call list" where
  "fin_start sy inet_addr =
     (let fd = socket_rt sy;
          server_addr = loop_9090 inet_addr;
          ret = connect_rt sy server_addr in
      [Sock_socket fd, Sock_connect fd server_addr ret, cout_int ''connect done, ret: '' ret, Key])"

definition fin_main :: "sys \<Rightarrow> (string \<Rightarrow> 32 word) \<Rightarrow> demo_run" where
  "fin_main sy inet_addr =
     (fin_start sy inet_addr @ [Say ''closing socket\<newline>'', Sock_close (socket_rt sy), Key], Some 0)"

definition fin_main2 :: "sys \<Rightarrow> (string \<Rightarrow> 32 word) \<Rightarrow> demo_run" where
  "fin_main2 sy inet_addr = (fin_start sy inet_addr, Some 0)"

section \<open>\<open>syn_accept_queue\<close>\<close>

text \<open>The part both servers share: an error stops them, otherwise they listen on \<open>fd\<close>.\<close>

definition queue_start :: "sys \<Rightarrow> demo_run" where
  "queue_start sy =
     (let fd = socket_rt sy; made = [Say ''server start\<newline>'', Sock_socket fd] in
      if fd < 0 then (made, Some 1)
      else
        let made = made @ [Sock_bind fd any_9090 (bind_rt sy any_9090)] in
        if bind_rt sy any_9090 = - 1 then (made, Some 1)
        else
          let made = made @ [Sock_listen fd 50 (listen_rt sy)] in
          if listen_rt sy = - 1 then (made, Some 1) else (made, None))"

definition accept_queue_main :: "sys \<Rightarrow> demo_run" where
  "accept_queue_main sy =
     (case queue_start sy of
        (made, Some e) \<Rightarrow> (made, Some e)
      | (made, None) \<Rightarrow> (made @ [Key], Some 0))"

text \<open>The loop on what the calls of \<open>accept\<close> return, and \<open>errno\<close> after the one that fails.\<close>

fun accept_forever :: "(int \<Rightarrow> string) \<Rightarrow> int \<Rightarrow> int \<Rightarrow> int list \<Rightarrow> demo_run" where
  "accept_forever strerr errno fd [] = ([], None)"
| "accept_forever strerr errno fd (c # cs) =
     (if c < 0 then ([Sock_accept fd c, Complain (perror strerr ''ERROR: accept()'' errno)], Some 1)
      else
        case accept_forever strerr errno fd cs of
          (made, e) \<Rightarrow> (Sock_accept fd c # cout_int ''client_fd: '' c # made, e))"

definition syn_queue_main :: "sys \<Rightarrow> int \<Rightarrow> int list \<Rightarrow> demo_run" where
  "syn_queue_main sy errno clients =
     (case queue_start sy of
        (made, Some e) \<Rightarrow> (made, Some e)
      | (made, None) \<Rightarrow>
          (case accept_forever (strerror sy) errno (socket_rt sy) clients of
             (next_calls, e) \<Rightarrow> (made @ next_calls, e)))"

section \<open>What becomes of a descriptor\<close>

text \<open>The states these programs show, with what is bound or connected and how many may wait.\<close>

datatype sock_state =
    No_socket
  | Fresh
  | Bound sockaddr_in
  | Listening sockaddr_in int
  | Connected sockaddr_in
  | Closing

fun sock_after :: "int \<Rightarrow> sock_call \<Rightarrow> sock_state \<Rightarrow> sock_state" where
  "sock_after fd (Sock_socket f) st = (if f = fd then Fresh else st)"
| "sock_after fd (Sock_bind f a rc) st = (if f = fd \<and> rc = 0 then Bound a else st)"
| "sock_after fd (Sock_listen f n rc) st =
     (if f = fd \<and> rc = 0 then (case st of Bound a \<Rightarrow> Listening a n | _ \<Rightarrow> st) else st)"
| "sock_after fd (Sock_connect f a rc) st = (if f = fd \<and> rc = 0 then Connected a else st)"
| "sock_after fd (Sock_close f) st = (if f = fd then (case st of Connected _ \<Rightarrow> Closing | _ \<Rightarrow> No_socket) else st)"
| "sock_after fd _ st = st"

definition sock_shows :: "sock_call list \<Rightarrow> int \<Rightarrow> sock_state" where
  "sock_shows cs fd = fold (sock_after fd) cs No_socket"

text \<open>The calls before each wait for a key, where an observer finds the program.\<close>

fun waits_at :: "sock_call list \<Rightarrow> sock_call list list" where
  "waits_at [] = []"
| "waits_at (Key # cs) = [] # map (\<lambda>p. Key # p) (waits_at cs)"
| "waits_at (c # cs) = map (\<lambda>p. c # p) (waits_at cs)"

definition seen_at_keys :: "demo_run \<Rightarrow> int \<Rightarrow> sock_state list" where
  "seen_at_keys r fd = map (\<lambda>p. sock_shows p fd) (waits_at (fst r))"

lemmas demo_defs = seen_at_keys_def sock_shows_def cout_int_def Let_def

text \<open>The connections a run has accepted.\<close>

definition accepted :: "sock_call list \<Rightarrow> int list" where
  "accepted cs = concat (map (\<lambda>c. case c of Sock_accept _ f \<Rightarrow> (if f < 0 then [] else [f]) | _ \<Rightarrow> []) cs)"

lemma accepted_simps [simp]:
  "accepted [] = []" "accepted (a @ b) = accepted a @ accepted b"
  "accepted (Sock_accept fd f # cs) = (if f < 0 then [] else [f]) @ accepted cs"
  "accepted (cout_int t n # cs) = accepted cs" "accepted (Complain m # cs) = accepted cs"
  by (simp_all add: accepted_def cout_int_def)

lemma accept_forever_takes:
  "accepted (fst (accept_forever strerr errno fd cs)) = takeWhile (\<lambda>c. 0 \<le> c) cs"
  "snd (accept_forever strerr errno fd cs) = (if list_all (\<lambda>c. 0 \<le> c) cs then None else Some 1)"
  "Key \<notin> set (fst (accept_forever strerr errno fd cs))"
  by (induction cs) (auto simp: cout_int_def accepted_def split: prod.splits)

lemma never_rests: "Key \<notin> set cs \<Longrightarrow> waits_at cs = []"
  by (induction cs rule: waits_at.induct) auto

text \<open>The calls that can stop a server before it listens.\<close>

definition server_ok :: "sys \<Rightarrow> bool" where
  "server_ok sy \<longleftrightarrow> 0 \<le> socket_rt sy \<and> bind_rt sy any_9090 = 0 \<and> listen_rt sy = 0"

lemma queue_start_ok:
  assumes "server_ok sy"
  shows "queue_start sy = ([Say ''server start\<newline>'', Sock_socket (socket_rt sy), Sock_bind (socket_rt sy) any_9090 0,
    Sock_listen (socket_rt sy) 50 0], None)"
  using assms by (simp add: queue_start_def server_ok_def Let_def)

lemma queue_start_fails:
  assumes "\<not> server_ok sy" "bind_rt sy any_9090 \<in> {0, - 1}" "listen_rt sy \<in> {0, - 1}"
  shows "\<exists>made. queue_start sy = (made, Some 1) \<and> accepted made = [] \<and> Key \<notin> set made"
  using assms by (auto simp: queue_start_def server_ok_def accepted_def Let_def)

text \<open>
  C40. The servers of \<open>syn_accept_queue\<close>, for \<open>bind\<close> and \<open>listen\<close> that return 0 or -1. When no call
  fails, the first rests in \<open>cin.get ()\<close> with its socket listening on port 9090 of every address,
  50 connections may wait, and it never accepts one; the second accepts the connections in their
  order up to the first failing \<open>accept\<close>, on which it exits with status 1. When a call fails both
  exit with status 1 and neither rests nor accepts.
\<close>

theorem queue_servers:
  assumes "bind_rt sy any_9090 \<in> {0, - 1}" "listen_rt sy \<in> {0, - 1}"
  shows "seen_at_keys (accept_queue_main sy) (socket_rt sy) = (if server_ok sy then [Listening any_9090 50] else [])
    \<and> accepted (fst (accept_queue_main sy)) = []
    \<and> snd (accept_queue_main sy) = Some (if server_ok sy then 0 else 1)
    \<and> seen_at_keys (syn_queue_main sy errno clients) fd = []
    \<and> accepted (fst (syn_queue_main sy errno clients)) = (if server_ok sy then takeWhile (\<lambda>c. 0 \<le> c) clients else [])
    \<and> snd (syn_queue_main sy errno clients)
        = (if server_ok sy \<and> list_all (\<lambda>c. 0 \<le> c) clients then None else Some 1)"
proof (cases "server_ok sy")
  case True
  note start = queue_start_ok [OF True]
  have "accepted [Say ''server start\<newline>'', Sock_socket (socket_rt sy), Sock_bind (socket_rt sy) any_9090 0,
    Sock_listen (socket_rt sy) 50 0] = []" by (simp add: accepted_def)
  then show ?thesis
    using accept_forever_takes [of "strerror sy" errno "socket_rt sy" clients] True never_rests
    by (simp add: syn_queue_main_def accept_queue_main_def start demo_defs accepted_def split_beta)
next
  case False
  with queue_start_fails [OF _ assms] obtain made where
    "queue_start sy = (made, Some 1)" "accepted made = []" "Key \<notin> set made" by blast
  then show ?thesis using False never_rests by (simp add: syn_queue_main_def accept_queue_main_def demo_defs)
qed

definition quiet_sys :: sys where
  "quiet_sys = \<lparr>socket_rt = 3, bind_rt = (\<lambda>_. 0), listen_rt = 0, connect_rt = (\<lambda>_. 0), accept_rt = 4,
     send_rt = int, send_errno = 0, inet_pton = (\<lambda>_. None), strerror = (\<lambda>_. ''?'')\<rparr>"

theorem queue_servers_witness:
  "seen_at_keys (accept_queue_main quiet_sys) 3 = [Listening any_9090 50]
    \<and> accepted (fst (syn_queue_main quiet_sys 24 [4, 5, - 1, 6])) = [4, 5]
    \<and> snd (syn_queue_main quiet_sys 24 [4, 5, - 1, 6]) = Some 1"
  using queue_servers [of quiet_sys 24 "[4, 5, - 1, 6]" 3] by (simp add: quiet_sys_def server_ok_def)

text \<open>
  What an observer finds while the programs of \<open>tcp_state\<close> and \<open>terminate\<close> wait for a key, when no
  call fails: a fresh socket; a socket listening on port 9090 with a queue of 4096; a connected
  socket, and after the first key a closing one, whose \<open>FIN\<close> the program has sent; and a socket
  that stays connected until the process ends.
\<close>

theorem demos_observed:
  assumes "bind_rt sy any_9090 = 0" "listen_rt sy = 0" "connect_rt sy (loop_9090 inet_addr) = 0"
  shows "seen_at_keys (closed_main sy) (socket_rt sy) = [Fresh]
    \<and> seen_at_keys (listen_main sy) (socket_rt sy) = [Listening any_9090 4096]
    \<and> seen_at_keys (fin_main sy inet_addr) (socket_rt sy) = [Connected (loop_9090 inet_addr), Closing]
    \<and> seen_at_keys (fin_main2 sy inet_addr) (socket_rt sy) = [Connected (loop_9090 inet_addr)]"
  using assms
  by (simp add: closed_main_def listen_main_def fin_main_def fin_main2_def fin_start_def demo_defs)

theorem demos_observed_witness:
  "seen_at_keys (listen_main quiet_sys) 3 = [Listening any_9090 4096]
    \<and> seen_at_keys (fin_main quiet_sys (\<lambda>_. 16777343)) 3 = [Connected (loop_9090 (\<lambda>_. 16777343)), Closing]"
  using demos_observed [of quiet_sys "\<lambda>_. 16777343"] by (simp add: quiet_sys_def)

end
