(* ===== verification/Spec2Isabelle.thy ===== *)
theory Spec2Isabelle
  imports Calc_Text Scanner_Results Message_Correct Echo_Results Port_Results Event_Results Socket_Demos
begin

text \<open>
  A verification of the C programs of the networking course repository: the calculator under
  \<open>src/packetdrill\<close> with the parser and the scanner that bison and flex generated for it; the echo
  client and server of \<open>src/intro\<close>; the kernel excerpts and test programs about ports under \<open>src/port\<close>;
  the event-driven programs with their character device under \<open>src/live/epoll\<close>; and the C++ programs
  that show the states of a socket.

  \<^bold>\<open>The calculator.\<close> \<open>main\<close> prints a banner and calls \<open>yyparse\<close>, a table-driven LALR(1) parser with
  two growing stacks. \<open>yyparse\<close> calls \<open>yylex\<close> for each token. \<open>yylex\<close> runs a table-driven automaton
  over a buffer that it refills from standard input. Both share only \<open>yylval\<close> and the token codes.
  \<^item> \<open>Prelude\<close>: C integers, arrays whose accesses are checked, C strings, printing and reading of
    numbers, runs of a step function, outcomes of calls that may not return, C's \<open>while\<close>.
  \<^item> \<open>Parser_Tables\<close>, \<open>Parser_Machine\<close>: the tables and \<open>yyparse\<close> of \<open>calc.tab.c\<close>. The record
    \<open>yyparser\<close> is its locals and globals with the label control is at; one definition per labelled
    block; \<open>yystep\<close> dispatches, \<open>yyparse\<close> and \<open>calc_main\<close> run for a number of blocks (fuel).
  \<^item> \<open>Scanner_Tables\<close>, \<open>Scanner_Buffer\<close>, \<open>Scanner_Lex\<close>: the tables, the buffer functions and \<open>yylex\<close>
    of \<open>lex.yy.c\<close>, over the record \<open>yyscan\<close> of the scanner's globals. \<open>yylex\<close> is total: a call that
    does not return is the value \<open>LexLoops\<close>.
  \<^item> \<open>Calc_Spec\<close>: the specification, an evaluator of token lists by precedence climbing.
    \<open>Calc_Grammar\<close>: syntax trees, their values and written forms; the evaluator accepts exactly the
    written forms of the trees that the precedences allow. \<open>Calc_Text\<close>: trees as characters.
  \<^item> \<open>Parser_Stack\<close>, \<open>Parser_Correct\<close>, \<open>Parser_Refines\<close>, \<open>Parser_Program\<close>: \<open>yyparse\<close> simulates the
    evaluator, for any scanner that satisfies the interface \<open>token_source\<close>.
  \<^item> \<open>Parser_Types\<close>: the types of the parser. Every state of \<open>yyparse\<close> is well typed (\<open>parser_typed\<close>)
    for any scanner that satisfies \<open>safe_scanner\<close>, even one that returns codes of no token.
  \<^item> \<open>Parser_Messages\<close>, \<open>Message_Correct\<close>: the code of \<open>calc.tab.c\<close> behind \<open>YYERROR_VERBOSE\<close> and
    \<open>YYDEBUG\<close>: \<open>yytnamerr\<close>, \<open>yysyntax_error\<close>, the verbose block at \<open>yyerrlab\<close> and the parser with it
    (\<open>yyparse_verbose\<close>), and the functions that print symbols, the stack and rules. The verbose
    parser runs like the terse one; its messages are \<open>error_text\<close>.
  \<^item> \<open>Scanner_Refill\<close>, \<open>Scanner_Match\<close>, \<open>Scanner_Correct\<close>, \<open>Scanner_Source\<close>: \<open>yylex\<close> delivers the tokens
    of its input in order, wherever the buffer boundaries fall, from a file or from memory; the
    scanner is a \<open>token_source\<close>.
  \<^item> \<open>Scanner_Interface\<close>: the functions and macros that a user of the scanner may call (\<open>yyget_text\<close>,
    \<open>yyset_in\<close>, \<open>yyless\<close>, \<open>unput\<close> and the like). \<open>Scanner_Frame\<close>: a call of \<open>yylex\<close> touches the current buffer
    and the file it reads, nothing else. \<open>Scanner_Stack\<close>: hence buffers below it on the stack keep
    their input, and files can be included. \<open>Scanner_Chars\<close>: single characters, strings in memory,
    \<open>yylex_destroy\<close>. \<open>Scanner_Results\<close>: the properties of these, and the scanner as a \<open>safe_scanner\<close>.
  \<^item> \<open>Calculator\<close>, \<open>Calc_Results\<close>: the composition and its consequences. The properties of the
    calculator are in this theory.

  \<^bold>\<open>The echo programs.\<close> The server (\<open>reliable_test_server.c\<close>) answers each line with a numbered
  message; the client (\<open>reliable_test_client.c\<close>) sends lines and prints the answers.
  \<^item> \<open>Sockets\<close>: a connection as the list of what successive receives meet; the specification
    \<open>read_line_spec\<close>; the interfaces \<open>retry_source\<close> and \<open>char_source\<close> of a source of characters.
  \<^item> \<open>Line_Readers\<close>: \<open>my_read\<close>, \<open>readline2\<close>, the server's and the client's \<open>readline\<close>. The line loops are
    proved for every source of characters; \<open>my_read\<close> and the client's static buffer are two of them.
  \<^item> \<open>Echo_Programs\<close>, \<open>Echo_Correct\<close>, \<open>Echo_Results\<close>: both \<open>main\<close> functions, what they do on any
    way the network cuts the bytes into pieces, and a session of both.

  \<^bold>\<open>Ports.\<close> \<open>Ports\<close>: \<open>inet_csk_find_open_port\<close> and \<open>inet_hash_connect\<close> as searches over a list of
  ports. \<open>Connect_Tests\<close>: the load test and its server, the programs that print local ports, and
  \<open>handshake/syn_retries.c\<close>. \<open>Port_Results\<close>: their properties.

  \<^bold>\<open>Events.\<close> \<open>Poll_Device\<close>: the character device \<open>my_poll_dev.c\<close> as a step relation that interleaves
  the single statements of its thread, readers and pollers; what holds in every run, what needs the
  runs without overlap (\<open>quiet_run\<close>), what happens in the others; and the program that polls the
  device. \<open>Event_Loops\<close>: \<open>select_test.c\<close>, \<open>epoll_test.c\<close>, with a log of the calls whose results it does
  not look at, and \<open>file_epoll.c\<close>. \<open>Event_Results\<close>: their properties.

  \<^bold>\<open>Demonstrations.\<close> \<open>Socket_Demos\<close>: the C++ programs of \<open>src/tcp_state\<close>, \<open>src/terminate\<close> and
  \<open>src/syn_accept_queue\<close> and \<open>src/main.cpp\<close> as the calls they make, and what an observer finds while
  they wait for a key.

  \<^bold>\<open>Bounds and parameters.\<close> \<open>scan_limit\<close> is \<open>2 ^ 29\<close> bytes of input: below it no \<open>int\<close> offset into a
  buffer overflows. Fuel is existential: enough of it gives the result, and more changes nothing.
  What C and the system leave open is in \<open>cenv\<close> and \<open>lexenv\<close>: which allocations succeed, what fresh
  memory holds, which files are terminals. The end-to-end theorems assume that the scanner's
  allocations succeed and assume nothing about the parser's. For the network programs the results
  of system calls are arguments (\<open>sys\<close>, \<open>conn\<close>, \<open>attempt\<close>, \<open>local_try\<close>), as are the functions of the
  kernel that the excerpts call (\<open>net_env\<close>); a loop without an end of its own is run on a finite
  list of such results. An access outside an array is the outcome \<open>Bad\<close> throughout, a
  \<open>yy_buffer_stack_top\<close> beyond the stack of buffers included. In the device, \<open>snprintf\<close> and
  \<open>copy_to_user\<close> each copy their bytes in one step.

  \<^bold>\<open>Not modelled.\<close> Of the generated files, what is left after the above is preprocessor set-up,
  prototypes and comments, the calls of the debug printers (they only write to standard error), and
  the variants for other compilers (\<open>yyoverflow\<close>, C++, \<open>REJECT\<close>). Of the rest: the flex example
  \<open>wc.l\<close>, whose C code is not in the repository, packetdrill scripts, socket options, locks and
  rescheduling in the kernel excerpts, \<open>sleep\<close> and \<open>getchar\<close> at the end of the test programs, and the
  demonstrations in Java, Kotlin and Go.
\<close>

section \<open>The calculator from end to end\<close>

text \<open>
  C1. The whole program against its specification. On any bytes on standard input (up to
  \<open>scan_limit\<close> of them), with memory for the scanner and whatever \<open>malloc\<close> gives the parser, the
  calculator comes to an end, and it ends the way the evaluator of \<open>Calc_Spec\<close> says on the tokens
  of the input: the value \<open>yyparse\<close> returns, the variables, standard output and standard error.
\<close>

theorem calc_main_correct:
  assumes "\<And>n. alloc_ok lenv n" "length inp \<le> scan_limit"
  shows "\<exists>fuel t. calc_main (yylex lenv) env fuel (calc_globals junk (scan_globals inp)) = Some t
           \<and> run_ends (scan_msgs inp) (program (stack_limit env) (replicate 26 0) banner (tokens inp)) t"
  by (rule calc_main_ends [OF assms])

theorem calc_main_correct_witness:
  "\<exists>fuel t. calc_main (yylex (with_memory False)) roomy fuel
              (calc_globals 0 (scan_globals ''x = 1 + 23*(4 - 6)\<newline>x/3\<newline>'')) = Some t
     \<and> pc t = Returned \<and> yyresult t = 0 \<and> stdout t = ''A simple calculator.\<newline>-15\<newline>''"
proof -
  let ?inp = "''x = 1 + 23*(4 - 6)\<newline>x/3\<newline>''"
  have "program 9999 (replicate 26 0) banner (tokens ?inp)
      = Returns 0 ((replicate 26 0)[23 := - 45]) ''A simple calculator.\<newline>-15\<newline>'' ''''"
    by code_simp
  moreover have "length ?inp \<le> scan_limit" by (simp add: scan_limit_def)
  ultimately show ?thesis
    using calc_main_correct [of "with_memory False" ?inp roomy 0]
    by (auto simp: stack_limit_roomy run_ends_def simp del: length_Cons)
qed

text \<open>
  C2. No run of the calculator goes wrong: whatever the input, and however long it is run, it is
  never seen to index an array out of bounds, use a dead buffer or abort in the scanner. It
  returns, or stops at a division that C leaves undefined, and the latter exactly when the
  specification meets such a division.
\<close>

theorem calc_never_faults:
  assumes "\<And>n. alloc_ok lenv n" "length inp \<le> scan_limit"
    and "calc_main (yylex lenv) env fuel (calc_globals junk (scan_globals inp)) = Some t"
  shows "(pc t = Returned \<or> pc t = Trap)
         \<and> (pc t = Trap \<longleftrightarrow>
              (\<exists>sy out. program (stack_limit env) (replicate 26 0) banner (tokens inp) = Traps sy out))"
proof -
  obtain n u where "calc_main (yylex lenv) env n (calc_globals junk (scan_globals inp)) = Some u"
    "run_ends (scan_msgs inp) (program (stack_limit env) (replicate 26 0) banner (tokens inp)) u"
    using calc_main_ends [OF assms(1,2)] by blast
  with assms(3) calc_main_unique have
    "run_ends (scan_msgs inp) (program (stack_limit env) (replicate 26 0) banner (tokens inp)) t" by blast
  then show ?thesis by (auto simp: run_ends_def split: calc_end.splits)
qed

theorem calc_never_faults_witness:
  "\<exists>fuel t. calc_main (yylex (with_memory True)) cramped fuel
              (calc_globals 0 (scan_globals ''1/0\<newline>'')) = Some t \<and> pc t = Trap"
proof -
  have len: "length ''1/0\<newline>'' \<le> scan_limit" by (simp add: scan_limit_def)
  obtain n u where u: "calc_main (yylex (with_memory True)) cramped n (calc_globals 0 (scan_globals ''1/0\<newline>'')) = Some u"
    using calc_main_ends [of "with_memory True" "''1/0\<newline>''" cramped 0, OF with_memory_ok len] by blast
  have "program 199 (replicate 26 0) banner (tokens ''1/0\<newline>'') = Traps (replicate 26 0) banner"
    by code_simp
  with calc_never_faults [of "with_memory True" "''1/0\<newline>''", OF with_memory_ok len u]
  have "pc u = Trap" by (simp add: stack_limit_cramped)
  with u show ?thesis by blast
qed

text \<open>
  C3. Well-formed programs mean what the grammar says: when the input is a sequence of lines, each
  an expression or an assignment of one, written by the precedences of \<open>calc.y\<close> and not nested
  beyond the parser stack, the run evaluates the lines in order, prints the expressions' values
  and stores the others; only an undefined division stops it early.
\<close>

theorem calc_runs_statements:
  assumes "\<And>n. alloc_ok lenv n" "length inp \<le> scan_limit"
    and "tokens inp = concat (map stmt_tokens ss)" "list_all (stmt_ok (stack_limit env)) ss"
  shows "\<exists>fuel t. calc_main (yylex lenv) env fuel (calc_globals junk (scan_globals inp)) = Some t
           \<and> run_ends (scan_msgs inp) (run_stmts (replicate 26 0) banner ss) t"
  using calc_main_ends [OF assms(1,2)] program_stmts [OF assms(4)] assms(3) by metis

theorem calc_runs_statements_witness:
  "\<exists>fuel t. calc_main (yylex (with_memory False)) cramped fuel
              (calc_globals 0 (scan_globals ''a=7-2-1\<newline>a*a\<newline>'')) = Some t
     \<and> yyresult t = 0 \<and> stdout t = ''A simple calculator.\<newline>16\<newline>''"
proof -
  let ?inp = "''a=7-2-1\<newline>a*a\<newline>''"
  let ?ss = "[Assign 0 (Bin (Bin (Lit 7) TMinus (Lit 2)) TMinus (Lit 1)), Print (Bin (Name 0) TTimes (Name 0))]"
  have "tokens ?inp = concat (map stmt_tokens ?ss)" by code_simp
  moreover have "list_all (stmt_ok (stack_limit cramped)) ?ss" by (simp add: stack_limit_cramped)
  moreover have "length ?inp \<le> scan_limit" by (simp add: scan_limit_def)
  moreover have "run_stmts (replicate 26 0) banner ?ss
      = Returns 0 ((replicate 26 0)[0 := 4]) ''A simple calculator.\<newline>16\<newline>'' ''''"
    by code_simp
  ultimately show ?thesis
    using calc_runs_statements [of "with_memory False" ?inp ?ss cramped 0] by (auto simp: run_ends_def)
qed

text \<open>
  C4. Only well-formed programs are accepted: when \<open>yyparse\<close> has returned 0, the input was a
  sequence of lines of the grammar within the depth of the stack, and the variables and the
  output are those of evaluating these lines in order.
\<close>

theorem calc_accepts_only:
  assumes "\<And>n. alloc_ok lenv n" "length inp \<le> scan_limit"
    and "calc_main (yylex lenv) env fuel (calc_globals junk (scan_globals inp)) = Some t"
    and "pc t = Returned" "yyresult t = 0"
  shows "\<exists>ss. list_all (stmt_ok (stack_limit env)) ss \<and> tokens inp = concat (map stmt_tokens ss)
           \<and> run_stmts (replicate 26 0) banner ss = Returns 0 (sym t) (stdout t) ''''"
proof -
  let ?e = "program (stack_limit env) (replicate 26 0) banner (tokens inp)"
  obtain n u where "calc_main (yylex lenv) env n (calc_globals junk (scan_globals inp)) = Some u"
    "run_ends (scan_msgs inp) ?e u"
    using calc_main_ends [OF assms(1,2)] by blast
  with assms(3) calc_main_unique have "run_ends (scan_msgs inp) ?e t" by blast
  then obtain err where e: "?e = Returns 0 (sym t) (stdout t) err"
    using assms(4,5) by (auto simp: run_ends_def split: calc_end.splits)
  from program_accepts [OF this] obtain ss where "list_all (stmt_ok (stack_limit env)) ss"
    "tokens inp = concat (map stmt_tokens ss)"
    "run_stmts (replicate 26 0) banner ss = Returns 0 (sym t) (stdout t) err" by blast
  moreover have "err = ''''" using run_stmts_silent calculation(3) by blast
  ultimately show ?thesis by blast
qed

theorem calc_accepts_only_witness:
  "\<exists>ss. tokens ''2*3\<newline>'' = concat (map stmt_tokens ss)
     \<and> run_stmts (replicate 26 0) banner ss = Returns 0 (replicate 26 0) ''A simple calculator.\<newline>6\<newline>'' ''''"
proof -
  have len: "length ''2*3\<newline>'' \<le> scan_limit" by (simp add: scan_limit_def)
  have prog: "program 9999 (replicate 26 0) banner (tokens ''2*3\<newline>'')
      = Returns 0 (replicate 26 0) ''A simple calculator.\<newline>6\<newline>'' ''''"
    by code_simp
  obtain n u where u: "calc_main (yylex (with_memory True)) roomy n (calc_globals 0 (scan_globals ''2*3\<newline>'')) = Some u"
    "run_ends (scan_msgs ''2*3\<newline>'') (Returns 0 (replicate 26 0) ''A simple calculator.\<newline>6\<newline>'' '''') u"
    using calc_main_ends [of "with_memory True" "''2*3\<newline>''" roomy 0, OF with_memory_ok len]
    unfolding stack_limit_roomy prog by blast
  have "pc u = Returned" "yyresult u = 0" "sym u = replicate 26 0" "stdout u = ''A simple calculator.\<newline>6\<newline>''"
    using u(2) by (simp_all add: run_ends_def)
  with calc_accepts_only [of "with_memory True" "''2*3\<newline>''", OF with_memory_ok len u(1)] show ?thesis by auto
qed

text \<open>
  C5. An expression written to standard input is printed as its value: for every tree of the
  grammar over the 26 variables (which are 0 when the program starts), its text followed by a
  newline makes the calculator print \<open>aval\<close> of the tree and return 0.
\<close>

theorem calc_prints_value:
  assumes "\<And>n. alloc_ok lenv n" "is_expr e" "is_plain e" "stack_need 2 e < stack_limit env"
    and "length (show_exp e) < scan_limit" "aval (replicate 26 0) e = Some v"
  shows "\<exists>fuel t. calc_main (yylex lenv) env fuel (calc_globals junk (scan_globals (show_exp e @ ''\<newline>''))) = Some t
           \<and> pc t = Returned \<and> yyresult t = 0 \<and> stdout t = banner @ dec_int (sint v) @ ''\<newline>''"
proof -
  have "tokens (show_exp e @ ''\<newline>'') = concat (map stmt_tokens [Print e])"
    using tokens_show_exp [OF assms(3), of "''\<newline>''"] by (simp add: tokens_parens)
  moreover have "list_all (stmt_ok (stack_limit env)) [Print e]" using assms by simp
  ultimately have "program (stack_limit env) (replicate 26 0) banner (tokens (show_exp e @ ''\<newline>''))
      = Returns 0 (replicate 26 0) (banner @ printed v) ''''"
    using program_stmts [of "stack_limit env" "[Print e]"] assms(6) by simp
  then show ?thesis
    using calc_main_ends [of lenv "show_exp e @ ''\<newline>''" env junk] assms(1,5)
    by (auto simp: run_ends_def printed_def)
qed

theorem calc_prints_value_witness:
  "\<exists>fuel t. calc_main (yylex (with_memory True)) cramped fuel
              (calc_globals 0 (scan_globals ''(2-5)*4\<newline>'')) = Some t
     \<and> pc t = Returned \<and> yyresult t = 0 \<and> stdout t = ''A simple calculator.\<newline>-12\<newline>''"
proof -
  let ?e = "Bin (Paren (Bin (Lit 2) TMinus (Lit 5))) TTimes (Lit 4)"
  have shown: "show_exp ?e = ''(2-5)*4''" by code_simp
  have val: "aval (replicate 26 0) ?e = Some (- 12)" by code_simp
  have out: "banner @ dec_int (sint (- 12 :: cint)) @ ''\<newline>'' = ''A simple calculator.\<newline>-12\<newline>''" by code_simp
  have len: "length (show_exp ?e) < scan_limit" unfolding shown by (simp add: scan_limit_def)
  have "is_expr ?e" "is_plain ?e" "stack_need 2 ?e < stack_limit cramped" by (simp_all add: stack_limit_cramped)
  from calc_prints_value [OF with_memory_ok this len val, of True 0] show ?thesis
    unfolding shown out by simp
qed

text \<open>
  C6. An error does not undo what came before it: after any number of good lines, which leave the
  variables \<open>sy\<close> and the output \<open>out\<close>, a line that is not a statement (or is nested too deeply, or
  divides by zero) ends the run, with the outcome \<open>e\<close> the specification gives that line. In \<open>e\<close> the
  variables and the output are \<open>sy\<close> and \<open>out\<close>, the run having failed with a syntax error, for want of
  memory or in the division; or the bad line has a complete expression in front of the error, as
  \<open>1 2\<close> and \<open>a=5 5\<close> have: then its value has been printed or stored, once, and nothing else changed.
\<close>

theorem calc_error_keeps_prefix:
  assumes "\<And>n. alloc_ok lenv n" "length inp \<le> scan_limit"
    and "tokens inp = concat (map stmt_tokens ss) @ ts" "list_all (stmt_ok (stack_limit env)) ss"
    and "run_stmts (replicate 26 0) banner ss = Returns 0 sy out ''''"
    and "ts \<noteq> []" "statement (stack_limit env) sy out ts = Ends e"
  shows "(\<exists>fuel t. calc_main (yylex lenv) env fuel (calc_globals junk (scan_globals inp)) = Some t
             \<and> run_ends (scan_msgs inp) e t)
         \<and> (e \<in> {syntax_error_end sy out, no_memory_end sy out, Traps sy out} 
             \<or> (\<exists>v r. line_value (stack_limit env) sy ts = Val v r \<and> e = half_done sy out ts v))"
  using calc_main_ends [OF assms(1,2), of env junk] program_prefix [OF assms(4,5), of ts]
    program_ends [OF assms(6,7)] assms(3) statement_Ends [OF assms(7)] by auto

theorem calc_error_keeps_prefix_witness:
  "\<exists>fuel t. calc_main (yylex (with_memory False)) cramped fuel
              (calc_globals 0 (scan_globals ''8/2\<newline>)\<newline>9\<newline>'')) = Some t
     \<and> yyresult t = 1 \<and> stdout t = ''A simple calculator.\<newline>4\<newline>'' \<and> stderr t = ''syntax error\<newline>''"
proof -
  let ?inp = "''8/2\<newline>)\<newline>9\<newline>''" and ?ss = "[Print (Bin (Lit 8) TDiv (Lit 2))]" and ?ts = "[TRp, TNl, TInt 9, TNl]"
  let ?out = "''A simple calculator.\<newline>4\<newline>''"
  have len: "length ?inp \<le> scan_limit" by (simp add: scan_limit_def)
  have toks: "tokens ?inp = concat (map stmt_tokens ?ss) @ ?ts" by code_simp
  have ok: "list_all (stmt_ok (stack_limit cramped)) ?ss" by (simp add: stack_limit_cramped)
  have run: "run_stmts (replicate 26 0) banner ?ss = Returns 0 (replicate 26 0) ?out ''''" by code_simp
  have bad: "statement (stack_limit cramped) (replicate 26 0) ?out ?ts = Ends (syntax_error_end (replicate 26 0) ?out)"
    by (simp add: expr_def)
  have msgs: "scan_msgs ?inp = ''''" by code_simp
  from calc_error_keeps_prefix [OF with_memory_ok len toks ok run _ bad, of False 0] show ?thesis
    unfolding msgs by (auto simp: run_ends_def syntax_error_end_def)
qed

text \<open>
  C7. Nesting beyond the parser stack is an error, not a fault: an input that opens more
  parentheses than the stack has room for ends with ``memory exhausted'' and the value 2, whatever
  follows the parentheses.
\<close>

theorem calc_too_deep:
  assumes "\<And>n. alloc_ok lenv n" "k + length r \<le> scan_limit" "stack_limit env < k + 2"
  shows "\<exists>fuel t. calc_main (yylex lenv) env fuel
                    (calc_globals junk (scan_globals (replicate k (CHR ''('') @ r))) = Some t
           \<and> run_ends (scan_msgs (replicate k (CHR ''('') @ r)) (no_memory_end (replicate 26 0) banner) t"
proof -
  have "2 \<le> stack_limit env" using stack_limit_ge [of env] by simp
  from program_too_deep [OF this assms(3)]
  have "program (stack_limit env) (replicate 26 0) banner (tokens (replicate k (CHR ''('') @ r))
      = no_memory_end (replicate 26 0) banner"
    by (simp add: tokens_parens_n)
  then show ?thesis using calc_main_ends [of lenv "replicate k (CHR ''('') @ r" env junk] assms(1,2) by simp
qed

theorem calc_too_deep_witness:
  "\<exists>fuel t. calc_main (yylex (with_memory True)) cramped fuel
              (calc_globals 0 (scan_globals (replicate 198 (CHR ''('') @ ''1\<newline>''))) = Some t
     \<and> pc t = Returned \<and> yyresult t = 2 \<and> heap_blocks t = 0"
proof -
  have "198 + length ''1\<newline>'' \<le> scan_limit" "stack_limit cramped < 198 + 2"
    by (simp_all add: scan_limit_def stack_limit_cramped)
  from calc_too_deep [OF with_memory_ok this, of True 0] show ?thesis
    by (auto simp: run_ends_def no_memory_end_def)
qed

text \<open>
  C8. What a run does is decided by its input and by how much memory \<open>malloc\<close> gives: the values
  left in fresh memory (the parser's stacks, \<open>yyval\<close>, the scanner's buffers) and whether standard
  input is a terminal, read line by line, or a file, read in blocks, make no difference to how it
  stops, what it returns, the variables and standard output (standard error is not compared).
\<close>

theorem calc_environment_independent:
  assumes "\<And>n. alloc_ok lenv n" "\<And>n. alloc_ok lenv' n" "length inp \<le> scan_limit"
    and "malloc_ok env = malloc_ok env'"
    and "calc_main (yylex lenv) env m (calc_globals junk (scan_globals inp)) = Some t"
    and "calc_main (yylex lenv') env' n (calc_globals junk' (scan_globals inp)) = Some u"
  shows "observed t = observed u"
proof -
  let ?e = "program (stack_limit env) (replicate 26 0) banner (tokens inp)"
  have "run_ends (scan_msgs inp) ?e t"
    using calc_main_ends [OF assms(1,3), of env junk] calc_main_unique assms(5) by blast
  moreover have "run_ends (scan_msgs inp) ?e u"
    using calc_main_ends [OF assms(2,3), of env' junk'] calc_main_unique assms(6) stack_limit_cong [OF assms(4)]
    by metis
  ultimately show ?thesis by (rule run_ends_observed)
qed

theorem calc_environment_independent_witness:
  "\<exists>m n t u. calc_main (yylex (with_memory True)) roomy m (calc_globals 5 (scan_globals ''1\<newline>'')) = Some t
     \<and> calc_main (yylex (with_memory False)) (roomy\<lparr>fresh_vs := \<lambda>_. 3\<rparr>) n (calc_globals 6 (scan_globals ''1\<newline>'')) = Some u
     \<and> observed t = observed u"
proof -
  have len: "length ''1\<newline>'' \<le> scan_limit" by (simp add: scan_limit_def)
  obtain m t where t: "calc_main (yylex (with_memory True)) roomy m (calc_globals 5 (scan_globals ''1\<newline>'')) = Some t"
    using calc_main_ends [OF with_memory_ok len] by blast
  obtain n u where u: "calc_main (yylex (with_memory False)) (roomy\<lparr>fresh_vs := \<lambda>_. 3\<rparr>) n
      (calc_globals 6 (scan_globals ''1\<newline>'')) = Some u"
    using calc_main_ends [OF with_memory_ok len] by blast
  have "malloc_ok roomy = malloc_ok (roomy\<lparr>fresh_vs := \<lambda>_. 3\<rparr>)" by simp
  from calc_environment_independent [OF with_memory_ok with_memory_ok len this t u] t u show ?thesis by blast
qed

section \<open>The parser\<close>

text \<open>
  C9. \<open>yyparse\<close> may be called again and again: from any state in which the scanner stands before
  its first token or between two tokens, and with any 26 variables, a call comes to an end the
  specification describes, on the tokens of the input that is still to be read.
\<close>

theorem yyparse_refines:
  assumes "ready lenv s"
  shows "\<exists>fuel t. yyparse (yylex lenv) env fuel s = Some t
           \<and> run_ends (stderr s @ scan_msgs (pending_input (scanner s)))
               (program (stack_limit env) (sym s) (stdout s) (tokens (pending_input (scanner s)))) t"
  by (rule yyparse_ends [OF assms])

theorem yyparse_refines_witness:
  "\<exists>fuel t. yyparse (yylex (with_memory True)) roomy fuel
              ((calc_globals 0 (scan_globals ''b+1''))\<lparr>stdout := ''out ''\<rparr>) = Some t
     \<and> pc t = Returned \<and> yyresult t = 1 \<and> stdout t = ''out 1\<newline>''"
proof -
  let ?s = "(calc_globals 0 (scan_globals ''b+1''))\<lparr>stdout := ''out ''\<rparr>"
  have len: "length ''b+1'' \<le> scan_limit" by (simp add: scan_limit_def)
  have s: "ready (with_memory True) ?s" "pending_input (scanner ?s) = ''b+1''"
    using ready_start [OF with_memory_ok len] by (auto simp: calc_globals_def)
  have prog: "program 9999 (replicate 26 0) ''out '' (tokens ''b+1'') = syntax_error_end (replicate 26 0) ''out 1\<newline>''"
    by code_simp
  from yyparse_refines [OF s(1), of roomy] show ?thesis
    unfolding s(2) stack_limit_roomy
    by (auto simp: prog calc_globals_def run_ends_def syntax_error_end_def)
qed

text \<open>
  The result of \<open>yyparse\<close> does not depend on how long it is allowed to run: a run that has
  ended within some number of blocks ends the same way within any larger number.
\<close>

theorem yyparse_fuel:
  assumes "yyparse lexer env m s = Some t" "m \<le> n"
  shows "yyparse lexer env n s = Some t"
  using assms by (rule yyparse_more_fuel)

theorem yyparse_fuel_witness:
  "\<exists>m t. yyparse (yylex (with_memory True)) roomy m (calc_globals 0 (scan_globals '''')) = Some t
     \<and> yyparse (yylex (with_memory True)) roomy (m + 1000) (calc_globals 0 (scan_globals '''')) = Some t"
proof -
  have "ready (with_memory True) ((calc_globals 0 (scan_globals ''''))\<lparr>stdout := ''''\<rparr>)"
    by (rule ready_start(1)) simp_all
  from yyparse_ends [OF this, of roomy] obtain m t where
    "yyparse (yylex (with_memory True)) roomy m (calc_globals 0 (scan_globals '''')) = Some t"
    by (auto simp: calc_globals_def)
  with yyparse_fuel [OF this, of "m + 1000"] show ?thesis by auto
qed

text \<open>
  C13. The compressed LALR(1) tables are the automaton of the grammar: in each of the 22 states
  and on each of the 13 tokens, what \<open>yypact\<close>, \<open>yycheck\<close>, \<open>yytable\<close> and \<open>yydefact\<close> make
  \<open>yybackup\<close> and \<open>yydefault\<close> do is the shift, the reduction, the acceptance or the error the
  grammar and its precedences call for.
\<close>

theorem lalr_tables:
  "\<forall>q \<in> {0..21}. \<forall>t \<in> {0..12}. lr_action q t = grammar_action q t"
  by (simp add: lr_action_grammar)

theorem lalr_tables_witness:
  "lr_action 18 5 = Reduce 8 \<and> lr_action 18 7 = Shift 14"
  using lalr_tables by (simp add: grammar_action_def operand_state_def)

text \<open>
  The tables of the rules agree: the right-hand sides that \<open>yyprhs\<close> and \<open>yyrhs\<close> list are the
  rules of \<open>calc.y\<close> (with 14 for \<open>program\<close>, 15 for \<open>statement\<close>, 16 for \<open>expr\<close>), their lengths are
  the entries of \<open>yyr2\<close>, by which \<open>yyreduce\<close> pops the stacks, and their left-hand sides those of
  \<open>yyr1\<close>.
\<close>

theorem rule_tables:
  "map rule_rhs [1..<13] =
     [[14, 0], [14, 15, 9], [], [16], [4, 10, 16], [3], [4], [16, 5, 16], [16, 6, 16], [16, 7, 16],
      [16, 8, 16], [11, 16, 12]]
   \<and> map (\<lambda>r. int (length (rule_rhs r))) [1..<13] = tl yyr2
   \<and> yyr1 = [0, 13, 14, 14, 15, 15, 16, 16, 16, 16, 16, 16, 16]"
  by code_simp

text \<open>
  C15. Growing the stacks loses nothing: when they are full, below \<open>YYMAXDEPTH\<close>, and \<open>malloc\<close>
  gives the block, both arrays become as long as the new size, twice the old one or \<open>YYMAXDEPTH\<close>,
  keep every entry, the stack pointers still point to the top entries, at most one block is
  allocated, and parsing goes on.
\<close>

theorem grow_stacks_keeps:
  assumes "length (yyss s) = yystacksize s" "length (yyvs s) = yystacksize s" "0 < yystacksize s"
    and "yyssp s = int (yystacksize s) - 1" "yyvsp s = yyssp s" "yystacksize s < YYMAXDEPTH"
    and "heap_blocks s = (if yyss_moved s then 1 else 0)"
    and "n = min YYMAXDEPTH (2 * yystacksize s)" "malloc_ok env (YYSTACK_BYTES n)" "t = grow_stacks env s"
  shows "pc t = yybackup \<and> yystacksize t = n \<and> length (yyss t) = n \<and> length (yyvs t) = n
         \<and> take (yystacksize s) (yyss t) = yyss s \<and> take (yystacksize s) (yyvs t) = yyvs s
         \<and> yyssp t = yyssp s \<and> yyvsp t = yyvsp s \<and> yyssp t < int n - 1 \<and> heap_blocks t = 1 \<and> yyss_moved t"
  using assms by (auto simp: grow_stacks_def YYSTACK_RELOCATE_def Let_def mult.commute)

theorem grow_stacks_keeps_witness:
  "\<exists>t :: unit yyparser. yystacksize t = 400 \<and> take 200 (yyvs t) = replicate 200 6 \<and> heap_blocks t = 1"
proof -
  let ?s = "(calc_globals 0 ())\<lparr>yyss := replicate 200 5, yyvs := replicate 200 6, yystacksize := 200,
              yyssp := 199, yyvsp := 199\<rparr>"
  have "length (yyss ?s) = yystacksize ?s" "length (yyvs ?s) = yystacksize ?s" "0 < yystacksize ?s"
    "yyssp ?s = int (yystacksize ?s) - 1" "yyvsp ?s = yyssp ?s" "yystacksize ?s < YYMAXDEPTH"
    "heap_blocks ?s = (if yyss_moved ?s then 1 else 0)" "400 = min YYMAXDEPTH (2 * yystacksize ?s)"
    "malloc_ok roomy (YYSTACK_BYTES 400)"
    by (simp_all add: calc_globals_def YYMAXDEPTH_def roomy_def)
  from grow_stacks_keeps [OF this refl] show ?thesis
    by (intro exI [of _ "grow_stacks roomy ?s"]) simp
qed

text \<open>
  The block that \<open>YYSTACK_BYTES\<close> asks for holds both relocated stacks: the values start
  after the states, at an address aligned for them, and end inside the block.
\<close>

theorem stacks_fit:
  "n * 2 \<le> yyvs_offset n \<and> yyvs_offset n + n * 4 \<le> YYSTACK_BYTES n \<and> yyvs_offset n mod 4 = 0"
  by (intro conjI stack_layout)

text \<open>
  How deep the parser can go: whatever \<open>malloc\<close> does, at least 199 entries fit and never
  \<open>YYMAXDEPTH\<close> or more; when \<open>malloc\<close> always succeeds, exactly 9999 do.
\<close>

theorem stack_limit_bounds:
  "199 \<le> stack_limit env \<and> stack_limit env < YYMAXDEPTH
   \<and> ((\<forall>n. malloc_ok env n) \<longrightarrow> stack_limit env = YYMAXDEPTH - 1)"
  using limit_from_malloc [of env YYINITDEPTH] stack_limit_ge stack_limit_le
  by (auto simp: stack_limit_def YYINITDEPTH_def YYMAXDEPTH_def)

theorem stack_limit_bounds_witness: "stack_limit roomy = 9999"
  using stack_limit_bounds [of roomy] by (simp add: roomy_def YYMAXDEPTH_def)

section \<open>The scanner\<close>

text \<open>
  C10. \<open>yylex\<close> delivers the next token: from a scanner that stands before its first token or
  between two, with \<open>R\<close> the input not yet consumed wherever it is (in a buffer filled from a file,
  in a buffer in memory or still in the file), a call returns the code and the value of the first token of \<open>R\<close>, with ``invalid input''
  reported once for each character skipped on the way that no rule matches, and leaves exactly the
  input after that token; at the end of the input it returns 0, now and ever after.
\<close>

theorem yylex_next_token:
  assumes "\<And>n. alloc_ok env n" "awaits R s" "length R \<le> scan_limit"
  shows "case next_tok R of
      (m, None) \<Rightarrow> \<exists>s'. yylex env s v = LexTok YYEOF v m s' \<and> between [] s'
    | (m, Some (t, R')) \<Rightarrow> \<exists>s'. yylex env s v = LexTok (tok_code t) (tok_lval t v) m s' \<and> between R' s'"
proof -
  have R: "pending_input s = R" by (rule awaits_pending [OF assms(2)])
  then have "scan_inv env (scan_msgs R) s ''''" using assms by (simp add: scan_inv_def)
  from yylex_gives [OF this, of v] show ?thesis unfolding R .
qed

theorem yylex_next_token_witness:
  "\<exists>s'. yylex (with_memory True) (scan_globals '' $ 0042*x'') 9 = LexTok INTEGER 42 ''invalid input\<newline>'' s'
     \<and> between ''*x'' s'"
proof -
  have "awaits '' $ 0042*x'' (scan_globals '' $ 0042*x'')" by (simp add: awaits_def unread_def scan_globals_def)
  moreover have "length '' $ 0042*x'' \<le> scan_limit" by (simp add: scan_limit_def)
  moreover have "next_tok '' $ 0042*x'' = (''invalid input\<newline>'', Some (TInt 42, ''*x''))" by code_simp
  ultimately show ?thesis
    using yylex_next_token [of "with_memory True" "'' $ 0042*x''" "scan_globals '' $ 0042*x''" 9]
    by (simp add: with_memory_ok)
qed

text \<open>
  C12. Numbers: the decimal digits of \<open>n\<close> are one token whose value is \<open>n\<close> modulo \<open>2 ^ 32\<close> as long
  as \<open>n\<close> fits a \<open>long\<close>; every larger number, however many digits it has, has the value -1.
\<close>

theorem yylex_number:
  assumes "\<And>k. alloc_ok env k" "unread (dec_nat n @ r) s" "length (dec_nat n @ r) \<le> scan_limit" "no_digit r"
  shows "\<exists>s'. yylex env s v = LexTok INTEGER (if n < 2 ^ 63 then of_nat n else - 1) '''' s' \<and> between r s'"
proof -
  have "scan_inv env (scan_msgs (dec_nat n @ r)) s ''''" "pending_input s = dec_nat n @ r"
    using assms unread_pending by (auto simp: scan_inv_def awaits_def)
  then show ?thesis
    using yylex_gives [of env _ s "''''" v] next_tok_literal [of r n] assms(4) atoi_dec [of n] atoi_huge [of n]
    by (auto simp: no_digit_def not_less)
qed

theorem yylex_number_witness:
  "\<exists>s'. yylex (with_memory False) (scan_globals ''4294967299+'') 0 = LexTok INTEGER 3 '''' s'"
proof -
  have d: "dec_nat 4294967299 @ ''+'' = ''4294967299+''" by (simp add: dec_nat.simps digit_char_def char_of_def bit_0)
  have "unread (dec_nat 4294967299 @ ''+'') (scan_globals ''4294967299+'')"
    unfolding d by (simp add: unread_def scan_globals_def)
  moreover have "length (dec_nat 4294967299 @ ''+'') \<le> scan_limit" unfolding d by (simp add: scan_limit_def)
  moreover have "no_digit ''+''" by (simp add: no_digit_def is_digit_def)
  ultimately show ?thesis
    using yylex_number [OF with_memory_ok, of 4294967299 "''+''" "scan_globals ''4294967299+''" False 0] by auto
qed

text \<open>
  C14. The compressed tables of the scanner are the automaton of the rules of \<open>calc.l\<close>: from every
  state and on every character class the walk along the default chain ends, reads no table
  outside its bounds and finds the automaton's next state; \<open>yy_ec\<close> gives every byte its class and
  \<open>yy_accept\<close> every state its rule.
\<close>

theorem flex_tables:
  "(\<forall>q c. dfa_state q \<longrightarrow> 0 \<le> c \<longrightarrow> c \<le> 6 \<longrightarrow> yy_trans q c = Some (dfa q c))
   \<and> (\<forall>ch. rd yy_ec (YY_SC_TO_UI ch) = Some (class_of (of_char ch)))
   \<and> (\<forall>q. dfa_state q \<longrightarrow> rd yy_accept q = Some (dfa_accept q))"
  by (simp add: yy_trans_dfa yy_ec_class yy_accept_dfa)

theorem flex_tables_witness: "yy_trans 8 5 = Some 10 \<and> rd yy_accept 10 = Some 2"
  using flex_tables by (simp add: dfa_state_def dfa_def dfa_accept_def)

text \<open>
  C11. Refilling the buffer neither loses nor invents input: when the scanner has run into the end
  of the buffer, \<open>yy_get_next_buffer\<close> moves the token it was matching to the front, doubles the
  buffer when the token fills it, and appends the next bytes of the file behind it. It reports
  whether it got some, or met the end of the file with or without a token pending; a refill ends,
  stays inside the buffer, and does not read again after the end of the file was seen.
\<close>

theorem yy_get_next_buffer_keeps_input:
  assumes "filled b x C q s" "yy_buffer_status x \<noteq> YY_BUFFER_NEW"
    and "yytext_ptr s = int p" "p \<le> length C" "yy_c_buf_p s = int (length C) + 1"
    and "length C - p + length q \<le> scan_limit" "\<And>n. alloc_ok env n" "yy_fill_buffer x"
  shows "\<exists>act s' x' cs. yy_get_next_buffer env s = Ok (act, s') \<and> q = cs @ drop (length cs) q
           \<and> filled b x' (drop p C @ cs) (drop (length cs) q) s' \<and> yytext_ptr s' = 0
           \<and> act = (if q \<noteq> [] then EOB_ACT_CONTINUE_SCAN
                    else if p = length C then EOB_ACT_END_OF_FILE else EOB_ACT_LAST_MATCH)
           \<and> (q \<noteq> [] \<longrightarrow> cs \<noteq> [])"
proof -
  obtain act s' where r: "yy_get_next_buffer env s = Ok (act, s')" "refilled b (drop p C) q s (act, s')"
    using yy_get_next_buffer_refills [OF assms] by (metis surj_pair)
  from r(2) obtain x' cs where
    "filled b x' (drop p C @ cs) (drop (length cs) q) s'" "cs = take (length cs) q" "yytext_ptr s' = 0"
    "if q \<noteq> [] then act = EOB_ACT_CONTINUE_SCAN \<and> cs \<noteq> []
     else if drop p C = [] then act = EOB_ACT_END_OF_FILE \<and> cs = [] else act = EOB_ACT_LAST_MATCH \<and> cs = []"
    unfolding refilled_def by (auto split: if_splits)
  moreover from this(2) have "q = cs @ drop (length cs) q" by (metis append_take_drop_id)
  ultimately show ?thesis
    using r(1) assms(4) by (intro exI [of _ act] exI [of _ s'] exI [of _ x'] exI [of _ cs]) (auto split: if_splits)
qed

theorem yy_get_next_buffer_keeps_input_witness:
  "\<exists>s s' x' cs. yy_get_next_buffer (with_memory False) s = Ok (EOB_ACT_CONTINUE_SCAN, s')
     \<and> filled 0 x' (''23'' @ cs) (drop (length cs) ''45*6'') s' \<and> cs \<noteq> []"
proof -
  let ?x = "(fresh_buffer (with_memory False))\<lparr>yy_ch_buf := ''123'' @ [CHR 0x00, CHR 0x00] @ ''?'', yy_buf_size := 4,
     b_n_chars := 3, yy_input_file := Some 0, yy_is_our_buffer := True, yy_fill_buffer := True, yy_buffer_status := YY_BUFFER_NORMAL\<rparr>"
  let ?s = "(scan_globals ''45*6'')\<lparr>yy_bufs := [0 \<mapsto> ?x], yy_buffer_stack := Some [Some 0], yy_buffer_stack_max := 1,
     yyin := Some 0, yy_n_chars := 3, yy_c_buf_p := 4, yytext_ptr := 1\<rparr>"
  have "filled 0 ?x ''123'' ''45*6'' ?s" "yy_buffer_status ?x \<noteq> YY_BUFFER_NEW" "yytext_ptr ?s = int 1"
    "1 \<le> length ''123''" "yy_c_buf_p ?s = int (length ''123'') + 1" "length ''123'' - 1 + length ''45*6'' \<le> scan_limit"
    by (simp_all add: filled_def text_buffer_def scan_globals_def current_buffer_def rd_def scan_limit_def)
  from yy_get_next_buffer_keeps_input [OF this with_memory_ok [of False]]
  have "\<exists>s' x' cs. yy_get_next_buffer (with_memory False) ?s = Ok (EOB_ACT_CONTINUE_SCAN, s')
      \<and> filled 0 x' (''23'' @ cs) (drop (length cs) ''45*6'') s' \<and> cs \<noteq> []" by auto
  then show ?thesis by (rule exI [of _ ?s])
qed

end
